(* ===== verification/Ck_Prelude.thy ===== *)
theory Ck_Prelude
  imports Main "HOL-Library.Word" "HOL-Library.Code_Target_Nat"
begin

text \<open>
  Shared vocabulary of the Ckarta data-plane development.

  \<^item> machine integers: \<open>u8\<close>, \<open>u16\<close>, \<open>u32\<close>, \<open>u64\<close> are words of that width.  A \<open>size_t\<close> that
    indexes or counts the bytes of one buffer is a \<open>nat\<close>: each such value is bounded by a
    buffer size of at most 64 KiB, and the bounds are theorems of the components;
  \<^item> memory: a byte buffer is a \<open>u8 list\<close>, a pointer into it is an offset, and a
    pointer/length pair (\<open>ck_http_span_t\<close>) is an offset and a length;
  \<^item> C library functions the sources call on bytes (\<open>strchr\<close>, \<open>tolower\<close>, \<open>memcpy\<close>,
    \<open>memmove\<close>), with the behaviour the C standard gives them in the "C" locale;
  \<^item> scanning loops \<open>while (i < end && P(buf[i])) i++\<close> and their mirror image, which occur in
    every parser of the program, with the lemmas that carry the parser proofs.
\<close>

unbundle bit_operations_syntax

type_synonym u8 = "8 word"
type_synonym u16 = "16 word"
type_synonym u32 = "32 word"
type_synonym u64 = "64 word"

named_theorems scan_simps \<open>bounds and stop conditions of the scanning loops\<close>

section \<open>Bytes and the C string functions\<close>

abbreviation NUL :: u8 where "NUL \<equiv> 0"
abbreviation TAB :: u8 where "TAB \<equiv> 9"
abbreviation LF :: u8 where "LF \<equiv> 10"
abbreviation CR :: u8 where "CR \<equiv> 13"
abbreviation SP :: u8 where "SP \<equiv> 32"
abbreviation COMMA :: u8 where "COMMA \<equiv> 44"
abbreviation COLON :: u8 where "COLON \<equiv> 58"
abbreviation SEMICOLON :: u8 where "SEMICOLON \<equiv> 59"

definition bytes_of :: "string \<Rightarrow> u8 list" where
  "bytes_of s = map of_char s"

text \<open>\<open>strchr (s, c) != NULL\<close>: the terminating NUL belongs to the string that is searched.\<close>

definition c_strchr :: "u8 list \<Rightarrow> u8 \<Rightarrow> bool" where
  "c_strchr s c \<longleftrightarrow> c \<in> set (s @ [NUL])"

definition c_tolower :: "u8 \<Rightarrow> u8" where
  "c_tolower c = (if 65 \<le> c \<and> c \<le> 90 then c + 32 else c)"

text \<open>\<open>memcpy (buf + off, src, length src)\<close> inside one buffer.\<close>

definition memcpy_at :: "'a list \<Rightarrow> nat \<Rightarrow> 'a list \<Rightarrow> 'a list" where
  "memcpy_at buf off src = take off buf @ src @ drop (off + length src) buf"

lemma length_bytes_of [simp]: "length (bytes_of s) = length s"
  by (simp add: bytes_of_def)

lemma length_memcpy_at [simp]:
  "off + length src \<le> length buf \<Longrightarrow> length (memcpy_at buf off src) = length buf"
  by (simp add: memcpy_at_def)

lemma nth_memcpy_at:
  assumes "off + length src \<le> length buf" and "i < length buf"
  shows "memcpy_at buf off src ! i =
    (if off \<le> i \<and> i < off + length src then src ! (i - off) else buf ! i)"
  using assms by (auto simp: memcpy_at_def nth_append min_def)

lemma memcpy_at_Nil [simp]: "memcpy_at buf off [] = buf"
  by (simp add: memcpy_at_def)

section \<open>Mutexes\<close>

text \<open>
  What \<open>pthread_mutex_lock\<close> and \<open>pthread_mutex_unlock\<close> return in one call of an operation that
  runs under a mutex.
\<close>

record mutex_calls =
  lock_result :: int
  unlock_result :: int

abbreviation quiet_mutex :: mutex_calls where
  "quiet_mutex \<equiv> \<lparr>lock_result = 0, unlock_result = 0\<rparr>"

section \<open>Spans\<close>

text \<open>\<open>ck_http_span_t\<close>: \<open>span_data\<close> is the pointer, as an offset into the buffer it points to.\<close>

record ck_http_span =
  span_data :: nat
  span_length :: nat

definition mk_span :: "nat \<Rightarrow> nat \<Rightarrow> ck_http_span" where
  "mk_span d l = \<lparr>span_data = d, span_length = l\<rparr>"

definition span_bytes :: "u8 list \<Rightarrow> ck_http_span \<Rightarrow> u8 list" where
  "span_bytes buf sp = take (span_length sp) (drop (span_data sp) buf)"

definition span_end :: "ck_http_span \<Rightarrow> nat" where
  "span_end sp = span_data sp + span_length sp"

text \<open>The span lies inside the first \<open>n\<close> bytes of its buffer.\<close>

definition span_within :: "nat \<Rightarrow> nat \<Rightarrow> ck_http_span \<Rightarrow> bool" where
  "span_within s e sp \<longleftrightarrow> s \<le> span_data sp \<and> span_end sp \<le> e"

lemma mk_span_sel [simp]:
  "span_data (mk_span d l) = d" "span_length (mk_span d l) = l" "span_end (mk_span d l) = d + l"
  by (simp_all add: mk_span_def span_end_def)

lemma length_span_bytes:
  "span_end sp \<le> length buf \<Longrightarrow> length (span_bytes buf sp) = span_length sp"
  by (simp add: span_bytes_def span_end_def)

lemma span_bytes_append [simp]:
  "span_end sp \<le> length buf \<Longrightarrow> span_bytes (buf @ xs) sp = span_bytes buf sp"
  by (simp add: span_bytes_def span_end_def)

lemma nth_span_bytes:
  "i < span_length sp \<Longrightarrow> span_end sp \<le> length buf \<Longrightarrow>
   span_bytes buf sp ! i = buf ! (span_data sp + i)"
  by (simp add: span_bytes_def span_end_def)

section \<open>Scanning loops\<close>

text \<open>\<open>while (i < e && P (buf[i])) i++;\<close> returns the final \<open>i\<close>.\<close>

function skip_while :: "(u8 \<Rightarrow> bool) \<Rightarrow> u8 list \<Rightarrow> nat \<Rightarrow> nat \<Rightarrow> nat" where
  "skip_while P buf i e = (if i < e \<and> P (buf ! i) then skip_while P buf (Suc i) e else i)"
  by pat_completeness auto
termination
  by (relation "measure (\<lambda>(P, buf, i, e). e - i)") auto

text \<open>\<open>while (e > s && P (buf[e - 1])) e--;\<close> returns the final \<open>e\<close>.\<close>

function skip_back :: "(u8 \<Rightarrow> bool) \<Rightarrow> u8 list \<Rightarrow> nat \<Rightarrow> nat \<Rightarrow> nat" where
  "skip_back P buf s e = (if s < e \<and> P (buf ! (e - 1)) then skip_back P buf s (e - 1) else e)"
  by pat_completeness auto
termination
  by (relation "measure (\<lambda>(P, buf, s, e). e)") auto

declare skip_while.simps [simp del] skip_back.simps [simp del]

lemma skip_while_ge [scan_simps]: "i \<le> skip_while P buf i e"
proof (induction P buf i e rule: skip_while.induct)
  case (1 P buf i e)
  then show ?case by (subst skip_while.simps) (use Suc_leD in auto)
qed

lemma skip_while_le [scan_simps]: "i \<le> e \<Longrightarrow> skip_while P buf i e \<le> e"
proof (induction P buf i e rule: skip_while.induct)
  case (1 P buf i e)
  then show ?case by (subst skip_while.simps) auto
qed

lemma skip_while_progress: "i < e \<Longrightarrow> P (buf ! i) \<Longrightarrow> i < skip_while P buf i e"
  using skip_while_ge [of "Suc i" P buf e] by (simp add: skip_while.simps [of P buf i e])

lemma skip_while_all: "i \<le> j \<Longrightarrow> j < skip_while P buf i e \<Longrightarrow> P (buf ! j)"
proof (induction P buf i e rule: skip_while.induct)
  case (1 P buf i e)
  show ?case
  proof (cases "i < e \<and> P (buf ! i)")
    case True
    with "1.prems" have "j < skip_while P buf (Suc i) e"
      by (simp add: skip_while.simps [of P buf i e])
    with True "1.IH" "1.prems" show ?thesis by (cases "j = i") auto
  next
    case False
    then have "skip_while P buf i e = i"
      by (simp only: skip_while.simps [of P buf i e] if_False)
    with "1.prems" show ?thesis by simp
  qed
qed

lemma skip_while_stop: "skip_while P buf i e < e \<Longrightarrow> \<not> P (buf ! skip_while P buf i e)"
proof (induction P buf i e rule: skip_while.induct)
  case (1 P buf i e)
  show ?case
  proof (cases "i < e \<and> P (buf ! i)")
    case True
    with "1" show ?thesis by (simp add: skip_while.simps [of P buf i e])
  next
    case False
    with "1.prems" show ?thesis by (simp only: skip_while.simps [of P buf i e] if_False) auto
  qed
qed

text \<open>The loop is determined by where it must stop.\<close>

lemma skip_while_eqI:
  assumes "i \<le> k" and "k \<le> e" and "\<And>j. i \<le> j \<Longrightarrow> j < k \<Longrightarrow> P (buf ! j)"
    and "k < e \<Longrightarrow> \<not> P (buf ! k)"
  shows "skip_while P buf i e = k"
proof -
  have "\<not> skip_while P buf i e < k"
    using assms(2,3) skip_while_stop [of P buf i e] skip_while_ge [of i P buf e] by fastforce
  moreover have "\<not> k < skip_while P buf i e"
  proof
    assume "k < skip_while P buf i e"
    with assms(1,2) skip_while_le [of i e P buf] have "P (buf ! k)" and "k < e"
      by (auto intro: skip_while_all)
    with assms(4) show False by simp
  qed
  ultimately show ?thesis by simp
qed

lemma skip_while_cong:
  assumes "\<And>j. i \<le> j \<Longrightarrow> j < e \<Longrightarrow> P (buf ! j) = Q (buf' ! j)"
  shows "skip_while P buf i e = skip_while Q buf' i e"
  using assms
proof (induction P buf i e rule: skip_while.induct)
  case (1 P buf i e)
  then have "(i < e \<and> P (buf ! i)) = (i < e \<and> Q (buf' ! i))" by auto
  with "1" show ?case
    by (auto simp: skip_while.simps [of P buf i e] skip_while.simps [of Q buf' i e])
qed

lemma skip_back_le [scan_simps]: "skip_back P buf s e \<le> e"
proof (induction P buf s e rule: skip_back.induct)
  case (1 P buf s e)
  then show ?case by (subst skip_back.simps) (use le_trans in auto)
qed

lemma skip_back_ge [scan_simps]: "s \<le> e \<Longrightarrow> s \<le> skip_back P buf s e"
proof (induction P buf s e rule: skip_back.induct)
  case (1 P buf s e)
  then show ?case by (subst skip_back.simps) auto
qed

lemma skip_back_stop:
  "s < skip_back P buf s e \<Longrightarrow> \<not> P (buf ! (skip_back P buf s e - 1))"
proof (induction P buf s e rule: skip_back.induct)
  case (1 P buf s e)
  show ?case
  proof (cases "s < e \<and> P (buf ! (e - 1))")
    case True
    with "1" show ?thesis by (simp add: skip_back.simps [of P buf s e])
  next
    case False
    with "1.prems" show ?thesis by (simp only: skip_back.simps [of P buf s e] if_False) auto
  qed
qed

text \<open>
  The bytes \<open>buf[s .. e)\<close>.  On them the index loops are the list functions
  \<open>takeWhile\<close> and \<open>dropWhile\<close>, which is how the parsers are related to their specifications.
\<close>

definition range_bytes :: "u8 list \<Rightarrow> nat \<Rightarrow> nat \<Rightarrow> u8 list" where
  "range_bytes buf s e = take (e - s) (drop s buf)"

lemma length_range_bytes: "e \<le> length buf \<Longrightarrow> length (range_bytes buf s e) = e - s"
  by (simp add: range_bytes_def)

lemma range_bytes_Cons:
  "s < e \<Longrightarrow> e \<le> length buf \<Longrightarrow> range_bytes buf s e = buf ! s # range_bytes buf (Suc s) e"
  by (simp add: range_bytes_def Cons_nth_drop_Suc [symmetric] take_Cons')

lemma range_bytes_empty [simp]: "e \<le> s \<Longrightarrow> range_bytes buf s e = []"
  by (simp add: range_bytes_def)

lemma range_bytes_split:
  "s \<le> m \<Longrightarrow> m \<le> e \<Longrightarrow> range_bytes buf s e = range_bytes buf s m @ range_bytes buf m e"
proof -
  assume "s \<le> m" "m \<le> e"
  then have "take (e - s) (drop s buf) = take (m - s) (drop s buf) @ take (e - m) (drop (m - s) (drop s buf))"
    by (metis add_diff_assoc le_add_diff_inverse2 take_add add.commute)
  with \<open>s \<le> m\<close> show ?thesis by (simp add: range_bytes_def add.commute)
qed

lemma span_bytes_range: "span_bytes buf sp = range_bytes buf (span_data sp) (span_end sp)"
  by (simp add: span_bytes_def range_bytes_def span_end_def)

lemma span_bytes_mk_span [simp]:
  "s \<le> e \<Longrightarrow> span_bytes buf (mk_span s (e - s)) = range_bytes buf s e"
  by (simp add: span_bytes_def range_bytes_def)

lemma nth_range_bytes:
  "i < e - s \<Longrightarrow> e \<le> length buf \<Longrightarrow> range_bytes buf s e ! i = buf ! (s + i)"
  by (simp add: range_bytes_def)

lemma set_range_bytes:
  "e \<le> length buf \<Longrightarrow> set (range_bytes buf s e) = (\<lambda>i. buf ! i) ` {s..<e}"
proof (induction "e - s" arbitrary: s)
  case 0
  then show ?case by simp
next
  case (Suc n)
  then have "s < e" by simp
  then have "{s..<e} = insert s {Suc s..<e}" by auto
  with Suc \<open>s < e\<close> show ?case by (simp add: range_bytes_Cons)
qed

lemma skip_while_takeWhile:
  assumes "s \<le> e" and "e \<le> length buf"
  shows "skip_while P buf s e = s + length (takeWhile P (range_bytes buf s e))"
  using assms
proof (induction P buf s e rule: skip_while.induct)
  case (1 P buf s e)
  show ?case
  proof (cases "s < e")
    case True
    with "1" show ?thesis
      by (simp add: skip_while.simps [of P buf s e] range_bytes_Cons)
  next
    case False
    then show ?thesis by (simp add: skip_while.simps [of P buf s e])
  qed
qed

lemma range_bytes_skip_while:
  assumes "s \<le> e" and "e \<le> length buf"
  shows "range_bytes buf s (skip_while P buf s e) = takeWhile P (range_bytes buf s e)" (is ?take)
    and "range_bytes buf (skip_while P buf s e) e = dropWhile P (range_bytes buf s e)" (is ?drop)
proof -
  let ?k = "skip_while P buf s e"
  have eq: "range_bytes buf s ?k @ range_bytes buf ?k e
      = takeWhile P (range_bytes buf s e) @ dropWhile P (range_bytes buf s e)"
    using assms by (simp add: range_bytes_split [symmetric] scan_simps)
  have "length (range_bytes buf s ?k) = length (takeWhile P (range_bytes buf s e))"
    using assms(2) skip_while_takeWhile [OF assms, of P] skip_while_le [OF assms(1), of P buf]
    by (subst length_range_bytes) simp_all
  with eq have "?take \<and> ?drop" by (metis append_eq_append_conv)
  then show ?take ?drop by simp_all
qed

lemma range_bytes_skip_back:
  assumes "s \<le> e" and "e \<le> length buf"
  shows "range_bytes buf s (skip_back P buf s e) = rev (dropWhile P (rev (range_bytes buf s e)))"
  using assms
proof (induction P buf s e rule: skip_back.induct)
  case (1 P buf s e)
  show ?case
  proof (cases "s < e")
    case True
    then have "range_bytes buf s e = range_bytes buf s (e - 1) @ [buf ! (e - 1)]"
      using "1.prems" range_bytes_split [of s "e - 1" e buf]
      by (simp add: range_bytes_Cons [of "e - Suc 0"])
    with "1" True show ?thesis
      by (cases "P (buf ! (e - 1))") (simp_all add: skip_back.simps [of P buf s e])
  next
    case False
    then show ?thesis by (simp add: skip_back.simps [of P buf s e])
  qed
qed

section \<open>Positional numerals with an overflow check\<close>

text \<open>
  \<open>parse_uint64\<close> (decimal) and \<open>parse_chunk_size\<close> (hexadecimal) guard every step
  \<open>result = result * base + digit\<close> by \<open>result > (UINT64_MAX - digit) / base\<close>.
  The lemma states that this guard is exact: it fires if and only if the mathematical
  value does not fit in 64 bits.
\<close>

lemma unat_of_nat_less [simp]:
  "n < 2 ^ LENGTH('a) \<Longrightarrow> unat (of_nat n :: 'a::len word) = n"
  by (simp add: unat_of_nat)

lemma unat_u64_less: "unat (w :: u64) < 2 ^ 64"
  using unsigned_less [of w, where 'a = nat] by simp

lemma uint64_step_guard:
  fixes r d :: u64
  assumes "unat d < b" and "0 < b" and "b < 2 ^ 64"
  shows "r > (- 1 - d) div of_nat b \<longleftrightarrow> 2 ^ 64 \<le> unat r * b + unat d"
proof -
  have b: "unat (of_nat b :: u64) = b"
    using assms by simp
  have "unat (- 1 :: u64) = 2 ^ 64 - 1"
    by (simp add: unsigned_minus_1_eq_mask mask_eq_exp_minus_1)
  then have m: "unat (- 1 - d) = 2 ^ 64 - 1 - unat d"
    by (simp add: unat_sub word_order.extremum)
  have "r > (- 1 - d) div of_nat b \<longleftrightarrow> (2 ^ 64 - 1 - unat d) div b < unat r"
    by (simp add: word_less_nat_alt unat_div b m)
  also have "\<dots> \<longleftrightarrow> 2 ^ 64 - 1 - unat d < unat r * b"
    using assms(2) by (simp add: div_less_iff_less_mult)
  also have "\<dots> \<longleftrightarrow> 2 ^ 64 \<le> unat r * b + unat d"
    using unat_u64_less [of d] by auto
  finally show ?thesis .
qed

lemma uint64_step_value:
  fixes r d :: u64
  assumes "unat r * b + unat d < 2 ^ 64"
  shows "unat (r * of_nat b + d) = unat r * b + unat d"
proof -
  have "r * of_nat b + d = of_nat (unat r * b + unat d)" by simp
  then have "unat (r * of_nat b + d) = (unat r * b + unat d) mod 2 ^ 64"
    by (simp only: unat_of_nat) simp
  with assms show ?thesis by simp
qed

end
