(* ===== verification/Ck_Http_Parser.thy ===== *)
theory Ck_Http_Parser
  imports Ck_Prelude
begin

text \<open>
  The incremental HTTP/1.1 header parser, \<open>c/http/ck_http_parser.[ch]\<close>.

  The parser copies input bytes into \<open>parser->buffer\<close> until the first \<open>CR LF CR LF\<close>, then
  parses the block at once.  \<open>parser_buffer\<close> is the used prefix
  \<open>buffer[0 .. length)\<close>; bytes behind it are never read.  The request's spans point into this
  buffer and are kept as offsets.  \<open>request_headers\<close> is the used prefix of the
  \<open>headers\<close> array, so \<open>header_count\<close> is its length.  A function that returns 0 for failure
  and writes through an out-parameter returns an \<open>option\<close>.
\<close>

section \<open>Data\<close>

definition CK_HTTP_MAX_HEADERS :: nat where "CK_HTTP_MAX_HEADERS = 128"
definition CK_HTTP_MAX_HEADER_BYTES :: nat where "CK_HTTP_MAX_HEADER_BYTES = 32768"
definition CK_HTTP_MAX_METHOD_BYTES :: nat where "CK_HTTP_MAX_METHOD_BYTES = 32"
definition CK_HTTP_MAX_TARGET_BYTES :: nat where "CK_HTTP_MAX_TARGET_BYTES = 8192"
definition CK_HTTP_MAX_VERSION_BYTES :: nat where "CK_HTTP_MAX_VERSION_BYTES = 16"
definition CK_HTTP_MAX_HEADER_NAME_BYTES :: nat where "CK_HTTP_MAX_HEADER_NAME_BYTES = 256"
definition CK_HTTP_MAX_HEADER_VALUE_BYTES :: nat where "CK_HTTP_MAX_HEADER_VALUE_BYTES = 16384"

lemmas parser_limits =
  CK_HTTP_MAX_HEADERS_def CK_HTTP_MAX_HEADER_BYTES_def CK_HTTP_MAX_METHOD_BYTES_def
  CK_HTTP_MAX_TARGET_BYTES_def CK_HTTP_MAX_VERSION_BYTES_def CK_HTTP_MAX_HEADER_NAME_BYTES_def
  CK_HTTP_MAX_HEADER_VALUE_BYTES_def

datatype ck_http_parse_result =
    CK_HTTP_PARSE_INCOMPLETE
  | CK_HTTP_PARSE_COMPLETE
  | CK_HTTP_PARSE_BAD_REQUEST
  | CK_HTTP_PARSE_HEADER_TOO_LARGE

datatype ck_http_body_mode =
    CK_HTTP_BODY_NONE
  | CK_HTTP_BODY_CONTENT_LENGTH
  | CK_HTTP_BODY_CHUNKED

record ck_http_header =
  header_name :: ck_http_span
  header_value :: ck_http_span

record ck_http_request =
  request_method :: ck_http_span
  request_target :: ck_http_span
  request_version :: ck_http_span
  request_headers :: "ck_http_header list"
  request_body_mode :: ck_http_body_mode
  request_content_length :: u64
  request_connection_close_required :: bool

record ck_http_parser =
  parser_buffer :: "u8 list"
  parser_complete :: bool

text \<open>\<open>memset (request, 0, sizeof (*request))\<close>.\<close>

definition zero_request :: ck_http_request where
  "zero_request = \<lparr>request_method = mk_span 0 0, request_target = mk_span 0 0,
     request_version = mk_span 0 0, request_headers = [], request_body_mode = CK_HTTP_BODY_NONE,
     request_content_length = 0, request_connection_close_required = False\<rparr>"

section \<open>Lexical helpers\<close>

definition is_tchar :: "u8 \<Rightarrow> bool" where
  "is_tchar value \<longleftrightarrow> (48 \<le> value \<and> value \<le> 57) \<or> (65 \<le> value \<and> value \<le> 90)
     \<or> (97 \<le> value \<and> value \<le> 122)
     \<or> c_strchr (bytes_of ''!#$%&'' @ [39] @ bytes_of ''*+-.^_`|~'') value"

definition span_equal_ci :: "u8 list \<Rightarrow> ck_http_span \<Rightarrow> u8 list \<Rightarrow> bool" where
  "span_equal_ci buf span literal \<longleftrightarrow> span_length span = length literal
     \<and> list_all2 (\<lambda>a b. c_tolower a = c_tolower b) (span_bytes buf span) literal"

definition is_ows :: "u8 \<Rightarrow> bool" where
  "is_ows b \<longleftrightarrow> b = SP \<or> b = TAB"

definition trim_ows :: "u8 list \<Rightarrow> ck_http_span \<Rightarrow> ck_http_span" where
  "trim_ows buf span =
    (let start = skip_while is_ows buf (span_data span) (span_end span);
         end' = skip_back is_ows buf start (span_end span)
     in mk_span start (end' - start))"

text \<open>The digit loop of \<open>parse_uint64\<close>; \<open>None\<close> is the early \<open>return 0\<close>.\<close>

fun parse_uint64_loop :: "u8 list \<Rightarrow> u64 \<Rightarrow> u64 option" where
  "parse_uint64_loop [] result = Some result"
| "parse_uint64_loop (digit # ds) result =
    (if digit < 48 \<or> digit > 57 then None
     else if result > (- 1 - ucast (digit - 48)) div 10 then None
     else parse_uint64_loop ds (result * 10 + ucast (digit - 48)))"

definition parse_uint64 :: "u8 list \<Rightarrow> u64 option" where
  "parse_uint64 span = (if span = [] then None else parse_uint64_loop span 0)"

function find_crlf :: "u8 list \<Rightarrow> nat \<Rightarrow> nat \<Rightarrow> nat option" where
  "find_crlf buffer len i =
    (if i + 1 < len
     then if buffer ! i = CR \<and> buffer ! (i + 1) = LF then Some i else find_crlf buffer len (Suc i)
     else None)"
  by pat_completeness auto
termination
  by (relation "measure (\<lambda>(buffer, len, i). len - i)") auto

declare find_crlf.simps [simp del]

section \<open>The request line\<close>

definition parse_request_line :: "u8 list \<Rightarrow> nat \<Rightarrow> ck_http_request \<Rightarrow> ck_http_request option" where
  "parse_request_line buffer line_end request =
    (let method_end = skip_while (\<lambda>b. \<not> is_ows b) buffer 0 line_end in
     if method_end = 0 \<or> method_end > CK_HTTP_MAX_METHOD_BYTES \<or> method_end = line_end then None
     else if \<not> list_all (\<lambda>i. is_tchar (buffer ! i)) [0..<method_end] then None
     else
       let target_start = skip_while is_ows buffer method_end line_end;
           target_end = skip_while (\<lambda>b. \<not> is_ows b) buffer target_start line_end in
       if target_end = target_start \<or> target_end - target_start > CK_HTTP_MAX_TARGET_BYTES then None
       else if \<not> list_all (\<lambda>i. \<not> (buffer ! i \<le> 0x20 \<or> buffer ! i = 0x7f)) [target_start..<target_end]
       then None
       else
         let version_start = skip_while is_ows buffer target_end line_end in
         if version_start \<ge> line_end
            \<or> line_end - version_start \<noteq> length (bytes_of ''HTTP/1.1'')
            \<or> span_bytes buffer (mk_span version_start 8) \<noteq> bytes_of ''HTTP/1.1''
         then None
         else Some (request\<lparr>request_method := mk_span 0 method_end,
                request_target := mk_span target_start (target_end - target_start),
                request_version := mk_span version_start (line_end - version_start)\<rparr>))"

section \<open>Framing headers\<close>

text \<open>
  The \<open>while (start < source.length)\<close> loop over one \<open>Content-Length\<close> value; \<open>start\<close> and
  \<open>e\<close> are buffer offsets.  The accumulator is \<open>(canonical, found)\<close>.
\<close>

definition next_item_start :: "nat \<Rightarrow> nat \<Rightarrow> nat" where
  "next_item_start end' e = (if end' < e then end' + 1 else end')"

lemma next_item_progress:
  assumes "start < e"
  shows "e - next_item_start (skip_while P buf (skip_while Q buf start e) e) e < e - start"
  using assms skip_while_ge [of start Q buf e] skip_while_le [of start e Q buf]
    skip_while_ge [of "skip_while Q buf start e" P buf e]
  by (auto simp: next_item_start_def)

function content_length_items ::
  "u8 list \<Rightarrow> nat \<Rightarrow> nat \<Rightarrow> u64 \<times> bool \<Rightarrow> (u64 \<times> bool) option" where
  "content_length_items buf start e acc =
    (if start < e then
       let s = skip_while is_ows buf start e;
           end' = skip_while (\<lambda>b. b \<noteq> COMMA) buf s e;
           item = trim_ows buf (mk_span s (end' - s)) in
       case parse_uint64 (span_bytes buf item) of
         None \<Rightarrow> None
       | Some parsed \<Rightarrow>
           if \<not> snd acc then content_length_items buf (next_item_start end' e) e (parsed, True)
           else if fst acc \<noteq> parsed then None
           else content_length_items buf (next_item_start end' e) e acc
     else Some acc)"
  by pat_completeness auto
termination
  by (relation "measure (\<lambda>(buf, start, e, acc). e - start)") (auto simp: next_item_progress)

fun parse_content_length_headers ::
  "u8 list \<Rightarrow> ck_http_header list \<Rightarrow> u64 \<times> bool \<Rightarrow> (u64 \<times> bool) option" where
  "parse_content_length_headers buf [] acc = Some acc"
| "parse_content_length_headers buf (h # hs) acc =
    (if \<not> span_equal_ci buf (header_name h) (bytes_of ''Content-Length'')
     then parse_content_length_headers buf hs acc
     else case content_length_items buf (span_data (header_value h)) (span_end (header_value h)) acc of
            None \<Rightarrow> None
          | Some acc' \<Rightarrow> parse_content_length_headers buf hs acc')"

text \<open>
  The token lists of \<open>Connection\<close> and \<open>Transfer-Encoding\<close> are walked by the same loop text:
  skip whitespace, reject an empty item, cut at the next comma, trim.  \<open>f\<close> is what the body
  does with the trimmed token: the new flag, or \<open>None\<close> for \<open>return 0\<close>.
\<close>

function token_items ::
  "(ck_http_span \<Rightarrow> bool \<Rightarrow> bool option) \<Rightarrow> u8 list \<Rightarrow> nat \<Rightarrow> nat \<Rightarrow> bool \<Rightarrow> bool option" where
  "token_items f buf start e flag =
    (if start < e then
       let s = skip_while is_ows buf start e in
       if s = e \<or> buf ! s = COMMA then None
       else
         let end' = skip_while (\<lambda>b. b \<noteq> COMMA) buf s e;
             token = trim_ows buf (mk_span s (end' - s)) in
         case f token flag of
           None \<Rightarrow> None
         | Some flag' \<Rightarrow> token_items f buf (next_item_start end' e) e flag'
     else Some flag)"
  by pat_completeness auto
termination
  by (relation "measure (\<lambda>(f, buf, start, e, flag). e - start)") (auto simp: next_item_progress)

declare content_length_items.simps [simp del] token_items.simps [simp del]

fun parse_connection_headers :: "u8 list \<Rightarrow> ck_http_header list \<Rightarrow> bool \<Rightarrow> bool option" where
  "parse_connection_headers buf [] close = Some close"
| "parse_connection_headers buf (h # hs) close =
    (if \<not> span_equal_ci buf (header_name h) (bytes_of ''Connection'')
     then parse_connection_headers buf hs close
     else case token_items
                 (\<lambda>token c. if span_equal_ci buf token (bytes_of ''close'') then Some True else Some c)
                 buf (span_data (header_value h)) (span_end (header_value h)) close of
            None \<Rightarrow> None
          | Some close' \<Rightarrow> parse_connection_headers buf hs close')"

text \<open>The accumulator is \<open>(found, chunked)\<close>.\<close>

fun parse_transfer_encoding_headers ::
  "u8 list \<Rightarrow> ck_http_header list \<Rightarrow> bool \<times> bool \<Rightarrow> (bool \<times> bool) option" where
  "parse_transfer_encoding_headers buf [] acc = Some acc"
| "parse_transfer_encoding_headers buf (h # hs) acc =
    (if \<not> span_equal_ci buf (header_name h) (bytes_of ''Transfer-Encoding'')
     then parse_transfer_encoding_headers buf hs acc
     else case token_items
                 (\<lambda>token c. if \<not> span_equal_ci buf token (bytes_of ''chunked'') then None else Some True)
                 buf (span_data (header_value h)) (span_end (header_value h)) (snd acc) of
            None \<Rightarrow> None
          | Some chunked \<Rightarrow> parse_transfer_encoding_headers buf hs (True, chunked))"

section \<open>The header block\<close>

lemma find_crlf_bounds: "find_crlf buf len i = Some k \<Longrightarrow> i \<le> k \<and> k + 1 < len"
proof (induction buf len i rule: find_crlf.induct)
  case (1 buf len i)
  then show ?case
    by (subst (asm) (2) find_crlf.simps) (fastforce split: if_splits)
qed

text \<open>
  The loop over the header lines.  \<open>Some r\<close> is an early \<open>return r\<close>, \<open>None\<close> means that the loop
  ended; the request is returned with the headers stored so far in either case.
\<close>

function parse_header_lines ::
  "u8 list \<Rightarrow> nat \<Rightarrow> nat \<Rightarrow> ck_http_request \<Rightarrow> ck_http_parse_result option \<times> ck_http_request" where
  "parse_header_lines buf header_end line_start request =
    (if line_start < header_end - 2 then
       case find_crlf buf header_end line_start of
         None \<Rightarrow> (Some CK_HTTP_PARSE_BAD_REQUEST, request)
       | Some line_end \<Rightarrow>
           if line_end = line_start then (None, request)
           else if length (request_headers request) \<ge> CK_HTTP_MAX_HEADERS
           then (Some CK_HTTP_PARSE_HEADER_TOO_LARGE, request)
           else
             let colon = skip_while (\<lambda>b. b \<noteq> COLON) buf line_start line_end in
             if colon = line_start \<or> colon \<ge> line_end
                \<or> colon - line_start > CK_HTTP_MAX_HEADER_NAME_BYTES
             then (Some CK_HTTP_PARSE_BAD_REQUEST, request)
             else if \<not> list_all (\<lambda>i. is_tchar (buf ! i)) [line_start..<colon]
             then (Some CK_HTTP_PARSE_BAD_REQUEST, request)
             else
               let name = mk_span line_start (colon - line_start);
                   value = trim_ows buf (mk_span (colon + 1) (line_end - colon - 1)) in
               if span_length value > CK_HTTP_MAX_HEADER_VALUE_BYTES
               then (Some CK_HTTP_PARSE_HEADER_TOO_LARGE, request)
               else parse_header_lines buf header_end (line_end + 2)
                      (request\<lparr>request_headers := request_headers request
                         @ [\<lparr>header_name = name, header_value = value\<rparr>]\<rparr>)
     else (None, request))"
  by pat_completeness auto
termination
  by (relation "measure (\<lambda>(buf, header_end, line_start, request). header_end - line_start)")
    (auto dest!: find_crlf_bounds)

declare parse_header_lines.simps [simp del]

text \<open>The framing decision at the end of \<open>parse_header_block\<close>.\<close>

definition decide_framing ::
  "u64 \<times> bool \<Rightarrow> bool \<times> bool \<Rightarrow> bool \<Rightarrow> ck_http_request
   \<Rightarrow> ck_http_parse_result \<times> ck_http_request" where
  "decide_framing cl te connection_close request =
    (if fst te then
       if \<not> snd te then (CK_HTTP_PARSE_BAD_REQUEST, request)
       else (CK_HTTP_PARSE_COMPLETE, request\<lparr>request_body_mode := CK_HTTP_BODY_CHUNKED,
               request_content_length := 0, request_connection_close_required := True\<rparr>)
     else if snd cl then
       (CK_HTTP_PARSE_COMPLETE, request\<lparr>request_body_mode := CK_HTTP_BODY_CONTENT_LENGTH,
          request_content_length := fst cl, request_connection_close_required := connection_close\<rparr>)
     else
       (CK_HTTP_PARSE_COMPLETE, request\<lparr>request_body_mode := CK_HTTP_BODY_NONE,
          request_content_length := 0, request_connection_close_required := connection_close\<rparr>))"

definition parse_header_block ::
  "u8 list \<Rightarrow> nat \<Rightarrow> ck_http_parse_result \<times> ck_http_request" where
  "parse_header_block buf header_end =
    (case find_crlf buf header_end 0 of
       None \<Rightarrow> (CK_HTTP_PARSE_BAD_REQUEST, zero_request)
     | Some line_end \<Rightarrow>
         (case parse_request_line buf line_end zero_request of
            None \<Rightarrow> (CK_HTTP_PARSE_BAD_REQUEST, zero_request)
          | Some request0 \<Rightarrow>
              (case parse_header_lines buf header_end (line_end + 2) request0 of
                 (Some r, request) \<Rightarrow> (r, request)
               | (None, request) \<Rightarrow>
                   (case parse_content_length_headers buf (request_headers request) (0, False) of
                      None \<Rightarrow> (CK_HTTP_PARSE_BAD_REQUEST, request)
                    | Some cl \<Rightarrow>
                        (case parse_transfer_encoding_headers buf (request_headers request)
                                (False, False) of
                           None \<Rightarrow> (CK_HTTP_PARSE_BAD_REQUEST, request)
                         | Some te \<Rightarrow>
                             (case parse_connection_headers buf (request_headers request) False of
                                None \<Rightarrow> (CK_HTTP_PARSE_BAD_REQUEST, request)
                              | Some close \<Rightarrow> decide_framing cl te close request))))))"

section \<open>Incremental feeding\<close>

definition ck_http_parser_init :: "ck_http_parser \<Rightarrow> ck_http_parser" where
  "ck_http_parser_init parser = parser\<lparr>parser_buffer := [], parser_complete := False\<rparr>"

definition ends_with_blank_line :: "u8 list \<Rightarrow> bool" where
  "ends_with_blank_line buf \<longleftrightarrow> length buf \<ge> 4
     \<and> buf ! (length buf - 4) = CR \<and> buf ! (length buf - 3) = LF
     \<and> buf ! (length buf - 2) = CR \<and> buf ! (length buf - 1) = LF"

text \<open>
  The byte loop: the result is \<open>(result, *consumed, *parser, *request)\<close>.  The buffer-full
  branch returns before \<open>*consumed\<close> is written, so it stays 0 there.
\<close>

fun parser_feed_loop ::
  "ck_http_parser \<Rightarrow> u8 list \<Rightarrow> nat \<Rightarrow> ck_http_request
   \<Rightarrow> ck_http_parse_result \<times> nat \<times> ck_http_parser \<times> ck_http_request" where
  "parser_feed_loop parser [] position request =
    (CK_HTTP_PARSE_INCOMPLETE, position, parser, request)"
| "parser_feed_loop parser (b # source) position request =
    (if length (parser_buffer parser) \<ge> CK_HTTP_MAX_HEADER_BYTES
     then (CK_HTTP_PARSE_HEADER_TOO_LARGE, 0, parser, request)
     else
       let buf = parser_buffer parser @ [b];
           parser' = parser\<lparr>parser_buffer := buf\<rparr> in
       if ends_with_blank_line buf then
         (case parse_header_block buf (length buf) of
            (result, request') \<Rightarrow>
              if result \<noteq> CK_HTTP_PARSE_COMPLETE then (result, position + 1, parser', request')
              else (CK_HTTP_PARSE_COMPLETE, position + 1, parser'\<lparr>parser_complete := True\<rparr>, request'))
       else parser_feed_loop parser' source (position + 1) request)"

text \<open>\<open>null_arg\<close> is the value of the pointer test that opens the function.\<close>

definition ck_http_parser_feed ::
  "bool \<Rightarrow> ck_http_parser \<Rightarrow> u8 list \<Rightarrow> ck_http_request
   \<Rightarrow> ck_http_parse_result \<times> nat \<times> ck_http_parser \<times> ck_http_request" where
  "ck_http_parser_feed null_arg parser data request =
    (if null_arg then (CK_HTTP_PARSE_BAD_REQUEST, 0, parser, request)
     else if parser_complete parser then (CK_HTTP_PARSE_COMPLETE, 0, parser, request)
     else parser_feed_loop parser data 0 request)"

section \<open>Decimal numbers\<close>

definition is_digit :: "u8 \<Rightarrow> bool" where
  "is_digit d \<longleftrightarrow> 48 \<le> d \<and> d \<le> 57"

text \<open>The mathematical value of a digit string, continued from \<open>v\<close>.\<close>

definition dec_value_from :: "nat \<Rightarrow> u8 list \<Rightarrow> nat" where
  "dec_value_from v ds = foldl (\<lambda>v d. v * 10 + unat (d - 48)) v ds"

abbreviation dec_value :: "u8 list \<Rightarrow> nat" where
  "dec_value \<equiv> dec_value_from 0"

lemma dec_value_from_simps [simp]:
  "dec_value_from v [] = v"
  "dec_value_from v (d # ds) = dec_value_from (v * 10 + unat (d - 48)) ds"
  by (simp_all add: dec_value_from_def)

lemma dec_value_from_ge: "v \<le> dec_value_from v ds"
proof (induction ds arbitrary: v)
  case (Cons d ds)
  have "v \<le> v * 10 + unat (d - 48)" by simp
  also have "\<dots> \<le> dec_value_from (v * 10 + unat (d - 48)) ds" by (rule Cons.IH)
  finally show ?case by simp
qed simp

lemma is_digit_unat: "is_digit d \<Longrightarrow> unat (d - 48) < 10"
  by (auto simp: is_digit_def unat_sub word_le_nat_alt)

lemma parse_uint64_loop_value:
  "parse_uint64_loop ds r =
    (if list_all is_digit ds \<and> dec_value_from (unat r) ds < 2 ^ 64
     then Some (of_nat (dec_value_from (unat r) ds)) else None)"
proof (induction ds arbitrary: r)
  case Nil
  show ?case using unat_u64_less [of r] by simp
next
  case (Cons d ds)
  show ?case
  proof (cases "is_digit d")
    case False
    then show ?thesis by (auto simp: is_digit_def not_le)
  next
    case True
    let ?d = "ucast (d - 48) :: u64"
    have d: "unat ?d = unat (d - 48)" "unat ?d < 10"
      using is_digit_unat [OF True] by (simp_all add: unsigned_ucast_eq take_bit_nat_eq_self)
    have guard: "r > (- 1 - ?d) div 10 \<longleftrightarrow> 2 ^ 64 \<le> unat r * 10 + unat (d - 48)"
      using uint64_step_guard [of ?d 10 r] d by simp
    show ?thesis
    proof (cases "2 ^ 64 \<le> unat r * 10 + unat (d - 48)")
      case ovf: True
      then have "2 ^ 64 \<le> dec_value_from (unat r) (d # ds)"
        using dec_value_from_ge [of "unat r * 10 + unat (d - 48)" ds] by simp
      with ovf guard show ?thesis by simp
    next
      case fits: False
      then have "unat (r * 10 + ?d) = unat r * 10 + unat (d - 48)"
        using uint64_step_value [of r 10 ?d] d by simp
      with True fits guard Cons.IH [of "r * 10 + ?d"] show ?thesis
        by (simp add: is_digit_def not_le not_less)
    qed
  qed
qed

lemma parse_uint64_value:
  "parse_uint64 ds =
    (if ds \<noteq> [] \<and> list_all is_digit ds \<and> dec_value ds < 2 ^ 64
     then Some (of_nat (dec_value ds)) else None)"
  by (simp add: parse_uint64_def parse_uint64_loop_value)

section \<open>Feeding in pieces\<close>

lemma parse_header_lines_result:
  "fst (parse_header_lines buf he ls req)
     \<in> {None, Some CK_HTTP_PARSE_BAD_REQUEST, Some CK_HTTP_PARSE_HEADER_TOO_LARGE}"
proof (induction buf he ls req rule: parse_header_lines.induct)
  case (1 buf he ls req)
  then show ?case
    by (subst parse_header_lines.simps) (auto simp: Let_def split: option.splits)
qed

lemma parse_header_lines_SomeD:
  "parse_header_lines buf he ls req = (Some r, req') \<Longrightarrow>
   r = CK_HTTP_PARSE_BAD_REQUEST \<or> r = CK_HTTP_PARSE_HEADER_TOO_LARGE"
  using parse_header_lines_result [of buf he ls req] by auto

lemma parse_header_block_decides:
  "fst (parse_header_block buf he) \<noteq> CK_HTTP_PARSE_INCOMPLETE"
  by (auto simp: parse_header_block_def decide_framing_def split: option.splits prod.splits
      dest!: parse_header_lines_SomeD)

lemma parser_feed_loop_append:
  "parser_feed_loop p (a @ b) pos req =
    (case parser_feed_loop p a pos req of
       (CK_HTTP_PARSE_INCOMPLETE, pos', p', req') \<Rightarrow> parser_feed_loop p' b pos' req'
     | r \<Rightarrow> r)"
proof (induction p a pos req rule: parser_feed_loop.induct)
  case (1 parser position request)
  then show ?case by simp
next
  case (2 parser x source position request)
  let ?buf = "parser_buffer parser @ [x]"
  have "fst (parse_header_block ?buf (length ?buf)) \<noteq> CK_HTTP_PARSE_INCOMPLETE"
    by (rule parse_header_block_decides)
  with 2 show ?case
    by (auto simp: Let_def split: prod.splits ck_http_parse_result.splits if_splits)
qed

text \<open>
  What a fresh parser makes of a byte stream: the header block is the shortest prefix that ends
  in \<open>CR LF CR LF\<close>; it is parsed if it fits into the buffer, and everything behind it is left
  to the caller.
\<close>

definition header_block_end :: "u8 list \<Rightarrow> nat option" where
  "header_block_end xs = find (\<lambda>n. ends_with_blank_line (take n xs)) [0..<Suc (length xs)]"

definition parser_feed_spec ::
  "u8 list \<Rightarrow> ck_http_request
   \<Rightarrow> ck_http_parse_result \<times> nat \<times> ck_http_parser \<times> ck_http_request" where
  "parser_feed_spec xs req =
    (case header_block_end xs of
       Some n \<Rightarrow>
         if n \<le> CK_HTTP_MAX_HEADER_BYTES then
           (case parse_header_block (take n xs) n of
              (r, req') \<Rightarrow> (r, n, \<lparr>parser_buffer = take n xs,
                 parser_complete = (r = CK_HTTP_PARSE_COMPLETE)\<rparr>, req'))
         else (CK_HTTP_PARSE_HEADER_TOO_LARGE, 0,
                \<lparr>parser_buffer = take CK_HTTP_MAX_HEADER_BYTES xs, parser_complete = False\<rparr>, req)
     | None \<Rightarrow>
         if length xs \<le> CK_HTTP_MAX_HEADER_BYTES
         then (CK_HTTP_PARSE_INCOMPLETE, length xs,
                \<lparr>parser_buffer = xs, parser_complete = False\<rparr>, req)
         else (CK_HTTP_PARSE_HEADER_TOO_LARGE, 0,
                \<lparr>parser_buffer = take CK_HTTP_MAX_HEADER_BYTES xs, parser_complete = False\<rparr>, req))"

definition no_blank_line :: "u8 list \<Rightarrow> bool" where
  "no_blank_line xs \<longleftrightarrow> (\<forall>n \<le> length xs. \<not> ends_with_blank_line (take n xs))"

lemma header_block_end_None: "header_block_end xs = None \<longleftrightarrow> no_blank_line xs"
  by (auto simp: header_block_end_def no_blank_line_def find_None_iff less_Suc_eq_le simp del: upt_Suc)

lemma header_block_end_Some:
  "header_block_end xs = Some n \<longleftrightarrow>
     n \<le> length xs \<and> ends_with_blank_line (take n xs) \<and> (\<forall>m < n. \<not> ends_with_blank_line (take m xs))"
  (is "?lhs \<longleftrightarrow> ?rhs")
proof
  have nth: "i \<le> length xs \<Longrightarrow> [0..<Suc (length xs)] ! i = i" for i
    using nth_upt [of 0 i "Suc (length xs)"] by simp
  show "?lhs \<Longrightarrow> ?rhs"
    by (auto simp: header_block_end_def find_Some_iff nth less_Suc_eq_le simp del: upt_Suc)
  assume ?rhs
  then show ?lhs
    unfolding header_block_end_def find_Some_iff
    by (intro exI [of _ n]) (auto simp: nth less_Suc_eq_le simp del: upt_Suc)
qed

lemma no_blank_line_snoc:
  "no_blank_line (pre @ [b]) \<longleftrightarrow> no_blank_line pre \<and> \<not> ends_with_blank_line (pre @ [b])"
  by (auto simp: no_blank_line_def le_Suc_eq)

lemma header_block_end_beyond:
  assumes "no_blank_line pre" and "header_block_end (pre @ ys) = Some n"
  shows "length pre < n"
proof (rule ccontr)
  assume "\<not> length pre < n"
  with assms show False by (auto simp: header_block_end_Some no_blank_line_def)
qed

lemma parser_feed_loop_spec:
  assumes "no_blank_line pre" and "length pre \<le> CK_HTTP_MAX_HEADER_BYTES"
  shows "parser_feed_loop \<lparr>parser_buffer = pre, parser_complete = False\<rparr> data (length pre) req
    = parser_feed_spec (pre @ data) req"
  using assms
proof (induction data arbitrary: pre)
  case Nil
  then show ?case by (simp add: parser_feed_spec_def header_block_end_None [THEN iffD2])
next
  case (Cons b bs)
  show ?case
  proof (cases "length pre = CK_HTTP_MAX_HEADER_BYTES")
    case True
    with Cons.prems header_block_end_beyond [of pre "b # bs"] show ?thesis
      by (fastforce simp: parser_feed_spec_def split: option.splits)
  next
    case fits: False
    show ?thesis
    proof (cases "ends_with_blank_line (pre @ [b])")
      case True
      then have "header_block_end (pre @ b # bs) = Some (Suc (length pre))"
        using Cons.prems(1) by (auto simp: header_block_end_Some no_blank_line_def less_Suc_eq_le)
      with True fits Cons.prems(2) show ?thesis
        by (auto simp: parser_feed_spec_def Let_def split: prod.splits)
    next
      case False
      with Cons.prems(1) have "no_blank_line (pre @ [b])" by (simp add: no_blank_line_snoc)
      with False fits Cons.prems(2) Cons.IH [of "pre @ [b]"] show ?thesis by simp
    qed
  qed
qed

section \<open>Well-formed requests\<close>

definition trim_list :: "u8 list \<Rightarrow> u8 list" where
  "trim_list xs = rev (dropWhile is_ows (rev (dropWhile is_ows xs)))"

lemma trim_ows_bytes:
  assumes "span_end sp \<le> length buf"
  shows "span_bytes buf (trim_ows buf sp) = trim_list (span_bytes buf sp)"
proof -
  let ?s = "skip_while is_ows buf (span_data sp) (span_end sp)"
  have s: "span_data sp \<le> span_end sp" "?s \<le> span_end sp"
    by (auto simp: span_end_def intro!: scan_simps)
  have "range_bytes buf ?s (skip_back is_ows buf ?s (span_end sp))
      = rev (dropWhile is_ows (rev (range_bytes buf ?s (span_end sp))))"
    using s(2) assms by (rule range_bytes_skip_back)
  also have "\<dots> = trim_list (span_bytes buf sp)"
    using s(1) assms by (simp add: trim_list_def span_bytes_range range_bytes_skip_while)
  finally show ?thesis
    using s(2) skip_back_ge [OF s(2), of is_ows buf]
    by (simp add: trim_ows_def Let_def)
qed

lemma trim_ows_within: "span_within (span_data sp) (span_end sp) (trim_ows buf sp)"
proof -
  let ?s = "skip_while is_ows buf (span_data sp) (span_end sp)"
  have "span_data sp \<le> ?s" "?s \<le> span_end sp"
    by (auto simp: span_end_def intro!: scan_simps)
  then show ?thesis
    using skip_back_le [of is_ows buf ?s "span_end sp"] skip_back_ge [of ?s "span_end sp" is_ows buf]
    by (simp add: trim_ows_def span_within_def Let_def)
qed

definition header_wf :: "u8 list \<Rightarrow> ck_http_header \<Rightarrow> bool" where
  "header_wf buf h \<longleftrightarrow>
     0 < span_length (header_name h) \<and> span_length (header_name h) \<le> CK_HTTP_MAX_HEADER_NAME_BYTES
     \<and> list_all is_tchar (span_bytes buf (header_name h))
     \<and> buf ! span_end (header_name h) = COLON
     \<and> span_end (header_name h) < span_data (header_value h)
     \<and> span_end (header_value h) \<le> length buf
     \<and> span_length (header_value h) \<le> CK_HTTP_MAX_HEADER_VALUE_BYTES
     \<and> trim_list (span_bytes buf (header_value h)) = span_bytes buf (header_value h)"

definition request_line_wf :: "u8 list \<Rightarrow> ck_http_request \<Rightarrow> bool" where
  "request_line_wf buf r \<longleftrightarrow>
     span_data (request_method r) = 0
     \<and> 0 < span_length (request_method r) \<and> span_length (request_method r) \<le> CK_HTTP_MAX_METHOD_BYTES
     \<and> list_all is_tchar (span_bytes buf (request_method r))
     \<and> span_end (request_method r) < span_data (request_target r)
     \<and> 0 < span_length (request_target r) \<and> span_length (request_target r) \<le> CK_HTTP_MAX_TARGET_BYTES
     \<and> list_all (\<lambda>b. 0x20 < b \<and> b \<noteq> 0x7f) (span_bytes buf (request_target r))
     \<and> span_end (request_target r) < span_data (request_version r)
     \<and> span_bytes buf (request_version r) = bytes_of ''HTTP/1.1''
     \<and> span_end (request_version r) \<le> length buf"

definition request_wf :: "u8 list \<Rightarrow> ck_http_request \<Rightarrow> bool" where
  "request_wf buf r \<longleftrightarrow> request_line_wf buf r
     \<and> length (request_headers r) \<le> CK_HTTP_MAX_HEADERS \<and> list_all (header_wf buf) (request_headers r)
     \<and> (request_body_mode r \<noteq> CK_HTTP_BODY_CONTENT_LENGTH \<longrightarrow> request_content_length r = 0)
     \<and> (request_body_mode r = CK_HTTP_BODY_CHUNKED \<longrightarrow> request_connection_close_required r)"

lemma list_all_span_bytes:
  assumes "e \<le> length buf"
  shows "list_all P (span_bytes buf (mk_span s (e - s))) \<longleftrightarrow> list_all (\<lambda>i. P (buf ! i)) [s..<e]"
proof (cases "s \<le> e")
  case True
  with assms show ?thesis by (simp add: list_all_iff span_bytes_range set_range_bytes)
next
  case False
  then show ?thesis by (simp add: span_bytes_def)
qed

lemma dropWhile_idem: "dropWhile P (dropWhile P xs) = dropWhile P xs"
  by (induction xs) auto

lemma trim_list_trim_list [simp]: "trim_list (trim_list xs) = trim_list xs"
proof -
  have "dropWhile is_ows (rev (dropWhile is_ows (rev ys))) = rev (dropWhile is_ows (rev ys))"
    if "dropWhile is_ows ys = ys" for ys
  proof (cases "rev (dropWhile is_ows (rev ys))")
    case (Cons z zs)
    have "ys = rev (dropWhile is_ows (rev ys)) @ rev (takeWhile is_ows (rev ys))"
      by (metis rev_append rev_rev_ident takeWhile_dropWhile_id)
    with Cons have "ys = z # zs @ rev (takeWhile is_ows (rev ys))" by simp
    with that have "\<not> is_ows z" by (metis dropWhile_eq_Cons_conv)
    with Cons show ?thesis by simp
  qed (simp only: dropWhile.simps)
  from this [of "dropWhile is_ows xs"] show ?thesis
    by (simp add: trim_list_def dropWhile_idem)
qed

lemma parse_request_line_wf:
  assumes "parse_request_line buf le r = Some r'" and "le \<le> length buf"
  shows "request_line_wf buf r'" and "request_headers r' = request_headers r"
proof -
  define me where "me = skip_while (\<lambda>b. \<not> is_ows b) buf 0 le"
  define ts where "ts = skip_while is_ows buf me le"
  define te where "te = skip_while (\<lambda>b. \<not> is_ows b) buf ts le"
  define vs where "vs = skip_while is_ows buf te le"
  note parse = assms(1) [unfolded parse_request_line_def Let_def, folded me_def, folded ts_def,
      folded te_def, folded vs_def]
  from parse have guards: "me \<noteq> 0" "me \<le> CK_HTTP_MAX_METHOD_BYTES" "me \<noteq> le"
      "list_all (\<lambda>i. is_tchar (buf ! i)) [0..<me]"
      "te \<noteq> ts" "te - ts \<le> CK_HTTP_MAX_TARGET_BYTES"
      "list_all (\<lambda>i. \<not> (buf ! i \<le> 0x20 \<or> buf ! i = 0x7f)) [ts..<te]"
      "vs < le" "le - vs = 8" "span_bytes buf (mk_span vs 8) = bytes_of ''HTTP/1.1''"
    and r': "r' = r\<lparr>request_method := mk_span 0 me, request_target := mk_span ts (te - ts),
      request_version := mk_span vs (le - vs)\<rparr>"
    by (auto split: if_splits)
  have "me \<le> le" unfolding me_def by (intro scan_simps) simp
  with guards(3) have me: "me < le" by simp
  then have sep: "is_ows (buf ! me)"
    using skip_while_stop [of "\<lambda>b. \<not> is_ows b" buf 0 le] by (simp add: me_def)
  have "ts \<le> le" unfolding ts_def using me by (intro scan_simps) simp
  have "me < ts" unfolding ts_def using me sep by (rule skip_while_progress)
  have "te \<le> le" unfolding te_def using \<open>ts \<le> le\<close> by (intro scan_simps)
  have "ts \<le> te" unfolding te_def by (rule scan_simps)
  have "te \<le> vs" unfolding vs_def by (rule scan_simps)
  have "te < le" using \<open>te \<le> vs\<close> guards(8) by simp
  then have "is_ows (buf ! te)"
    using skip_while_stop [of "\<lambda>b. \<not> is_ows b" buf ts le] by (simp add: te_def)
  with \<open>te < le\<close> have "te < vs" unfolding vs_def by (rule skip_while_progress)
  have target: "list_all (\<lambda>b. 0x20 < b \<and> b \<noteq> 0x7f) (span_bytes buf (mk_span ts (te - ts)))"
    using guards(7) \<open>te \<le> le\<close> assms(2) by (simp add: list_all_span_bytes not_le del: span_bytes_mk_span)
  have meth: "list_all is_tchar (span_bytes buf (mk_span 0 me))"
    using guards(4) me assms(2) list_all_span_bytes [of me buf is_tchar 0] by simp
  show "request_line_wf buf r'"
    unfolding request_line_wf_def r'
    using guards(1,2,5,6,9,10) me \<open>me < ts\<close> \<open>ts \<le> te\<close> \<open>te < vs\<close> target meth assms(2)
    by (simp del: span_bytes_mk_span)
  show "request_headers r' = request_headers r" by (simp add: r')
qed

lemma parse_header_lines_wf:
  assumes "parse_header_lines buf he ls req = (res, req')" and "he \<le> length buf"
    and "list_all (header_wf buf) (request_headers req)"
    and "length (request_headers req) \<le> CK_HTTP_MAX_HEADERS"
  shows "list_all (header_wf buf) (request_headers req')
     \<and> length (request_headers req') \<le> CK_HTTP_MAX_HEADERS
     \<and> req' = req\<lparr>request_headers := request_headers req'\<rparr>"
  using assms
proof (induction buf he ls req arbitrary: res req' rule: parse_header_lines.induct)
  case (1 buf he ls req)
  show ?case
  proof (cases "ls < he - 2")
    case False
    with "1.prems" show ?thesis by (simp add: parse_header_lines.simps [of buf he ls])
  next
    case True
    show ?thesis
    proof (cases "find_crlf buf he ls")
      case None
      with True "1.prems" show ?thesis by (simp add: parse_header_lines.simps [of buf he ls])
    next
      case (Some le)
      let ?colon = "skip_while (\<lambda>b. b \<noteq> COLON) buf ls le"
      let ?name = "mk_span ls (?colon - ls)"
      let ?raw = "mk_span (?colon + 1) (le - ?colon - 1)"
      let ?val = "trim_ows buf ?raw"
      let ?h = "\<lparr>header_name = ?name, header_value = ?val\<rparr>"
      have le: "ls \<le> le" "le + 1 < he" using Some by (auto dest: find_crlf_bounds)
      consider (stop) "le = ls \<or> length (request_headers req) \<ge> CK_HTTP_MAX_HEADERS
          \<or> ?colon = ls \<or> ?colon \<ge> le \<or> ?colon - ls > CK_HTTP_MAX_HEADER_NAME_BYTES
          \<or> \<not> list_all (\<lambda>i. is_tchar (buf ! i)) [ls..<?colon]
          \<or> span_length ?val > CK_HTTP_MAX_HEADER_VALUE_BYTES"
        | (store) "le \<noteq> ls" "length (request_headers req) < CK_HTTP_MAX_HEADERS" "?colon \<noteq> ls"
          "?colon < le" "?colon - ls \<le> CK_HTTP_MAX_HEADER_NAME_BYTES"
          "list_all (\<lambda>i. is_tchar (buf ! i)) [ls..<?colon]"
          "span_length ?val \<le> CK_HTTP_MAX_HEADER_VALUE_BYTES"
        by fastforce
      then show ?thesis
      proof cases
        case stop
        with True Some "1.prems" show ?thesis
          by (auto simp: parse_header_lines.simps [of buf he ls] Let_def split: if_splits)
      next
        case store
        have c: "ls \<le> ?colon" by (rule scan_simps)
        have "buf ! ?colon = COLON" using skip_while_stop [OF store(4)] by simp
        moreover have "list_all is_tchar (span_bytes buf ?name)"
          using store(4,6) le "1.prems"(2) by (simp add: list_all_span_bytes del: span_bytes_mk_span)
        moreover have "?colon + 1 \<le> span_data ?val" "span_end ?val \<le> le"
          using trim_ows_within [of ?raw buf] store(4) by (simp_all add: span_within_def)
        moreover have "span_end ?raw \<le> length buf" using store(4) le "1.prems"(2) by simp
        ultimately have h: "header_wf buf ?h"
          using c store(3,5,7) le "1.prems"(2)
          by (simp add: header_wf_def trim_ows_bytes del: span_bytes_mk_span)
        let ?req = "req\<lparr>request_headers := request_headers req @ [?h]\<rparr>"
        have rec: "parse_header_lines buf he (le + 2) ?req = (res, req')"
          using True Some store "1.prems"(1)
          by (simp add: parse_header_lines.simps [of buf he ls] Let_def)
        have "list_all (header_wf buf) (request_headers req')
           \<and> length (request_headers req') \<le> CK_HTTP_MAX_HEADERS
           \<and> req' = ?req\<lparr>request_headers := request_headers req'\<rparr>"
          using True Some store h "1.prems" rec
          by (intro "1.IH") auto
        then show ?thesis by simp
      qed
    qed
  qed
qed

section \<open>Framing fields as comma-separated lists\<close>

text \<open>
  Reference reading of a list-valued field: cut at commas, trim optional whitespace, and do not
  count an empty item behind a trailing comma.
\<close>

function split_items :: "u8 list \<Rightarrow> u8 list list" where
  "split_items xs =
    (if xs = [] then []
     else takeWhile (\<lambda>b. b \<noteq> COMMA) xs # split_items (drop 1 (dropWhile (\<lambda>b. b \<noteq> COMMA) xs)))"
  by pat_completeness auto
termination
proof (relation "measure length")
  fix xs :: "u8 list"
  assume "xs \<noteq> []"
  then show "(drop 1 (dropWhile (\<lambda>b. b \<noteq> COMMA) xs), xs) \<in> measure length"
    using length_dropWhile_le [of "\<lambda>b. b \<noteq> COMMA" xs] by (cases xs) auto
qed simp

declare split_items.simps [simp del]

definition ci_equal :: "u8 list \<Rightarrow> u8 list \<Rightarrow> bool" where
  "ci_equal xs ys \<longleftrightarrow> map c_tolower xs = map c_tolower ys"

definition field_values :: "u8 list \<Rightarrow> string \<Rightarrow> ck_http_header list \<Rightarrow> u8 list list" where
  "field_values buf name hs = map (\<lambda>h. span_bytes buf (header_value h))
     (filter (\<lambda>h. ci_equal (span_bytes buf (header_name h)) (bytes_of name)) hs)"

definition field_items :: "u8 list \<Rightarrow> string \<Rightarrow> ck_http_header list \<Rightarrow> u8 list list" where
  "field_items buf name hs = concat (map (\<lambda>v. map trim_list (split_items v)) (field_values buf name hs))"

text \<open>
  The framing rules of \<open>docs/HTTP_FRAMING_POLICY.md\<close>: every \<open>Content-Length\<close> item is a 64-bit
  number and all are equal, every transfer coding is \<open>chunked\<close>, no \<open>Connection\<close> option is empty;
  \<open>Transfer-Encoding\<close> wins over \<open>Content-Length\<close> and forces the connection to close.
  \<open>None\<close> is a message whose framing is ambiguous or malformed.
\<close>

definition framing_spec :: "u8 list \<Rightarrow> ck_http_header list \<Rightarrow> (ck_http_body_mode \<times> u64 \<times> bool) option" where
  "framing_spec buf hs =
    (let lengths = map parse_uint64 (field_items buf ''Content-Length'' hs);
         codings = field_items buf ''Transfer-Encoding'' hs;
         options = field_items buf ''Connection'' hs;
         close = list_ex (\<lambda>i. ci_equal i (bytes_of ''close'')) options in
     if \<not> list_all (\<lambda>l. l \<noteq> None \<and> l = hd lengths) lengths
        \<or> \<not> list_all (\<lambda>i. ci_equal i (bytes_of ''chunked'')) codings
        \<or> [] \<in> set options
     then None
     else if field_values buf ''Transfer-Encoding'' hs \<noteq> [] then
       if codings = [] then None else Some (CK_HTTP_BODY_CHUNKED, 0, True)
     else if lengths \<noteq> [] then Some (CK_HTTP_BODY_CONTENT_LENGTH, the (hd lengths), close)
     else Some (CK_HTTP_BODY_NONE, 0, close))"

lemma span_equal_ci_iff:
  assumes "span_end sp \<le> length buf"
  shows "span_equal_ci buf sp lit \<longleftrightarrow> ci_equal (span_bytes buf sp) lit"
  using length_span_bytes [OF assms]
  by (auto simp: span_equal_ci_def ci_equal_def list_all2_conv_all_nth list_eq_iff_nth_eq)

lemma takeWhile_comma_ows:
  "takeWhile (\<lambda>b. b \<noteq> COMMA) xs
    = takeWhile is_ows xs @ takeWhile (\<lambda>b. b \<noteq> COMMA) (dropWhile is_ows xs)"
  by (induction xs) (auto simp: is_ows_def)

lemma dropWhile_comma_ows:
  "dropWhile (\<lambda>b. b \<noteq> COMMA) (dropWhile is_ows xs) = dropWhile (\<lambda>b. b \<noteq> COMMA) xs"
  by (induction xs) (auto simp: is_ows_def)

lemma trim_list_takeWhile_append: "trim_list (takeWhile is_ows xs @ ys) = trim_list ys"
proof -
  have "dropWhile is_ows (takeWhile is_ows xs @ ys) = dropWhile is_ows ys"
    by (rule dropWhile_append2) (auto dest: set_takeWhileD)
  then show ?thesis by (simp only: trim_list_def)
qed

lemma trim_list_eq_Nil: "trim_list xs = [] \<longleftrightarrow> list_all is_ows xs"
proof -
  have "list_all is_ows (dropWhile is_ows xs) \<longleftrightarrow> list_all is_ows xs"
    by (induction xs) auto
  then show ?thesis by (simp add: trim_list_def dropWhile_eq_Nil_conv list_all_iff)
qed

text \<open>One turn of the item loops, read as list operations.\<close>

lemma item_cut:
  fixes start e :: nat and buf :: "u8 list"
  defines "R \<equiv> range_bytes buf start e"
  defines "s \<equiv> skip_while is_ows buf start e"
  defines "e' \<equiv> skip_while (\<lambda>b. b \<noteq> COMMA) buf s e"
  assumes "start < e" and "e \<le> length buf"
  shows "span_bytes buf (trim_ows buf (mk_span s (e' - s))) = trim_list (takeWhile (\<lambda>b. b \<noteq> COMMA) R)"
    and "range_bytes buf (next_item_start e' e) e = drop 1 (dropWhile (\<lambda>b. b \<noteq> COMMA) R)"
    and "s = e \<or> buf ! s = COMMA \<longleftrightarrow> trim_list (takeWhile (\<lambda>b. b \<noteq> COMMA) R) = []"
    and "span_end (trim_ows buf (mk_span s (e' - s))) \<le> length buf"
proof -
  have s: "start \<le> s" "s \<le> e"
    unfolding s_def using assms(4) by (auto intro: scan_simps)
  have e': "s \<le> e'" "e' \<le> e"
    unfolding e'_def using s by (auto intro: scan_simps)
  have Rs: "range_bytes buf s e = dropWhile is_ows R"
    using assms(4,5) by (simp add: R_def s_def range_bytes_skip_while)
  have item: "range_bytes buf s e' = takeWhile (\<lambda>b. b \<noteq> COMMA) (dropWhile is_ows R)"
    using s(2) assms(5) by (simp add: e'_def Rs range_bytes_skip_while)
  have rest: "range_bytes buf e' e = dropWhile (\<lambda>b. b \<noteq> COMMA) R"
    using s(2) assms(5) by (simp add: e'_def Rs range_bytes_skip_while dropWhile_comma_ows)
  have trim: "trim_list (takeWhile (\<lambda>b. b \<noteq> COMMA) R)
      = trim_list (takeWhile (\<lambda>b. b \<noteq> COMMA) (dropWhile is_ows R))"
    by (subst takeWhile_comma_ows) (rule trim_list_takeWhile_append)
  show "span_bytes buf (trim_ows buf (mk_span s (e' - s))) = trim_list (takeWhile (\<lambda>b. b \<noteq> COMMA) R)"
    using e' assms(5) by (simp add: trim_ows_bytes item trim)
  show "range_bytes buf (next_item_start e' e) e = drop 1 (dropWhile (\<lambda>b. b \<noteq> COMMA) R)"
  proof (cases "e' < e")
    case True
    then have "range_bytes buf e' e = buf ! e' # range_bytes buf (Suc e') e"
      using assms(5) by (rule range_bytes_Cons)
    with True rest show ?thesis by (metis One_nat_def Suc_eq_plus1 drop0 drop_Suc_Cons next_item_start_def)
  next
    case False
    with e' rest show ?thesis by (simp add: next_item_start_def)
  qed
  show "s = e \<or> buf ! s = COMMA \<longleftrightarrow> trim_list (takeWhile (\<lambda>b. b \<noteq> COMMA) R) = []"
  proof (cases "s < e")
    case True
    then have "\<not> is_ows (buf ! s)" unfolding s_def by (rule skip_while_stop)
    moreover have "dropWhile is_ows R = buf ! s # range_bytes buf (Suc s) e"
      using True assms(5) by (simp add: Rs [symmetric] range_bytes_Cons)
    ultimately show ?thesis using True by (auto simp: trim trim_list_eq_Nil)
  next
    case False
    with s Rs have "s = e" "dropWhile is_ows R = []" by (simp, metis le_antisym not_le range_bytes_empty)
    then show ?thesis unfolding trim by (simp only: trim_list_eq_Nil takeWhile.simps list.pred_inject simp_thms)
  qed
  show "span_end (trim_ows buf (mk_span s (e' - s))) \<le> length buf"
    using trim_ows_within [of "mk_span s (e' - s)" buf] e' assms(5) by (simp add: span_within_def)
qed

fun content_length_fold :: "u8 list list \<Rightarrow> u64 \<times> bool \<Rightarrow> (u64 \<times> bool) option" where
  "content_length_fold [] acc = Some acc"
| "content_length_fold (i # is) acc =
    (case parse_uint64 i of
       None \<Rightarrow> None
     | Some v \<Rightarrow> if \<not> snd acc then content_length_fold is (v, True)
                else if fst acc \<noteq> v then None else content_length_fold is acc)"

fun token_fold :: "(u8 list \<Rightarrow> bool \<Rightarrow> bool option) \<Rightarrow> u8 list list \<Rightarrow> bool \<Rightarrow> bool option" where
  "token_fold g [] flag = Some flag"
| "token_fold g (i # is) flag =
    (if i = [] then None else case g i flag of None \<Rightarrow> None | Some flag' \<Rightarrow> token_fold g is flag')"

lemma content_length_items_list:
  "e \<le> length buf \<Longrightarrow> content_length_items buf start e acc
    = content_length_fold (map trim_list (split_items (range_bytes buf start e))) acc"
proof (induction buf start e acc rule: content_length_items.induct)
  case (1 buf start e acc)
  show ?case
  proof (cases "start < e")
    case False
    then show ?thesis by (simp add: content_length_items.simps [of buf start] split_items.simps)
  next
    case True
    have "range_bytes buf start e \<noteq> []"
      using True "1.prems" by (simp add: range_bytes_Cons)
    with True "1" show ?thesis
      by (subst content_length_items.simps, subst split_items.simps)
        (simp add: Let_def item_cut split: option.split)
  qed
qed

lemma token_items_list:
  assumes "e \<le> length buf"
    and "\<And>sp flag. span_end sp \<le> length buf \<Longrightarrow> f sp flag = g (span_bytes buf sp) flag"
  shows "token_items f buf start e flag
    = token_fold g (map trim_list (split_items (range_bytes buf start e))) flag"
  using assms
proof (induction f buf start e flag rule: token_items.induct)
  case (1 f buf start e flag)
  show ?case
  proof (cases "start < e")
    case False
    then show ?thesis by (simp add: token_items.simps [of f buf start] split_items.simps)
  next
    case True
    have "range_bytes buf start e \<noteq> []"
      using True "1.prems" by (simp add: range_bytes_Cons)
    with True "1" show ?thesis
      by (subst token_items.simps, subst split_items.simps)
        (simp add: Let_def item_cut split: option.split)
  qed
qed

lemma content_length_fold_append:
  "content_length_fold (xs @ ys) acc
    = (case content_length_fold xs acc of None \<Rightarrow> None | Some acc' \<Rightarrow> content_length_fold ys acc')"
  by (induction xs acc rule: content_length_fold.induct) (auto split: option.splits)

lemma token_fold_append:
  "token_fold g (xs @ ys) flag
    = (case token_fold g xs flag of None \<Rightarrow> None | Some flag' \<Rightarrow> token_fold g ys flag')"
  by (induction g xs flag rule: token_fold.induct) (auto split: option.splits)

text \<open>The spans of the headers that the line loop stored all lie in the buffer.\<close>

definition headers_in :: "u8 list \<Rightarrow> ck_http_header list \<Rightarrow> bool" where
  "headers_in buf hs \<longleftrightarrow> list_all (\<lambda>h. span_end (header_name h) \<le> length buf
     \<and> span_end (header_value h) \<le> length buf) hs"

lemma headers_in_Cons [simp]:
  "headers_in buf [] "
  "headers_in buf (h # hs) \<longleftrightarrow> span_end (header_name h) \<le> length buf
     \<and> span_end (header_value h) \<le> length buf \<and> headers_in buf hs"
  by (simp_all add: headers_in_def)

lemma header_wf_headers_in: "list_all (header_wf buf) hs \<Longrightarrow> headers_in buf hs"
  by (induction hs) (auto simp: header_wf_def span_end_def)

lemma field_simps_Cons [simp]:
  "field_values buf name [] = []"
  "field_items buf name [] = []"
  "field_values buf name (h # hs) =
    (if ci_equal (span_bytes buf (header_name h)) (bytes_of name)
     then span_bytes buf (header_value h) # field_values buf name hs else field_values buf name hs)"
  "field_items buf name (h # hs) =
    (if ci_equal (span_bytes buf (header_name h)) (bytes_of name)
     then map trim_list (split_items (span_bytes buf (header_value h))) @ field_items buf name hs
     else field_items buf name hs)"
  by (simp_all add: field_values_def field_items_def)

lemma parse_content_length_headers_fold:
  "headers_in buf hs \<Longrightarrow>
   parse_content_length_headers buf hs acc = content_length_fold (field_items buf ''Content-Length'' hs) acc"
  by (induction buf hs acc rule: parse_content_length_headers.induct)
    (auto simp: span_equal_ci_iff content_length_items_list content_length_fold_append
      span_bytes_range [symmetric] split: option.splits)

lemma parse_connection_headers_fold:
  "headers_in buf hs \<Longrightarrow>
   parse_connection_headers buf hs flag = token_fold
     (\<lambda>i c. if ci_equal i (bytes_of ''close'') then Some True else Some c)
     (field_items buf ''Connection'' hs) flag"
proof (induction buf hs flag rule: parse_connection_headers.induct)
  case (2 buf h hs flag)
  have "token_items (\<lambda>token c. if span_equal_ci buf token (bytes_of ''close'') then Some True else Some c)
      buf (span_data (header_value h)) (span_end (header_value h)) flag
    = token_fold (\<lambda>i c. if ci_equal i (bytes_of ''close'') then Some True else Some c)
        (map trim_list (split_items (span_bytes buf (header_value h)))) flag"
    using "2.prems" unfolding span_bytes_range
    by (intro token_items_list) (simp_all add: span_equal_ci_iff span_bytes_range)
  with 2 show ?case by (auto simp: span_equal_ci_iff token_fold_append split: option.splits)
qed simp

lemma parse_transfer_encoding_headers_fold:
  "headers_in buf hs \<Longrightarrow>
   parse_transfer_encoding_headers buf hs acc =
     map_option (\<lambda>c. (fst acc \<or> field_values buf ''Transfer-Encoding'' hs \<noteq> [], c))
       (token_fold (\<lambda>i c. if \<not> ci_equal i (bytes_of ''chunked'') then None else Some True)
          (field_items buf ''Transfer-Encoding'' hs) (snd acc))"
proof (induction buf hs acc rule: parse_transfer_encoding_headers.induct)
  case (2 buf h hs acc)
  have "token_items (\<lambda>token c. if \<not> span_equal_ci buf token (bytes_of ''chunked'') then None else Some True)
      buf (span_data (header_value h)) (span_end (header_value h)) (snd acc)
    = token_fold (\<lambda>i c. if \<not> ci_equal i (bytes_of ''chunked'') then None else Some True)
        (map trim_list (split_items (span_bytes buf (header_value h)))) (snd acc)"
    using "2.prems" unfolding span_bytes_range
    by (intro token_items_list) (simp_all add: span_equal_ci_iff span_bytes_range)
  with 2 show ?case by (auto simp: span_equal_ci_iff token_fold_append split: option.splits)
qed simp

text \<open>What the three folds compute.\<close>

lemma content_length_fold_found:
  "content_length_fold is (v, True) =
    (if list_all (\<lambda>i. parse_uint64 i = Some v) is then Some (v, True) else None)"
  by (induction "is") (auto split: option.splits)

lemma content_length_fold_start:
  "content_length_fold is (0, False) =
    (if list_all (\<lambda>l. l \<noteq> None \<and> l = hd (map parse_uint64 is)) (map parse_uint64 is)
     then Some (if is = [] then (0, False) else (the (hd (map parse_uint64 is)), True)) else None)"
  by (cases "is") (auto simp: content_length_fold_found list_all_iff split: option.splits)

lemma token_fold_close:
  "token_fold (\<lambda>i c. if ci_equal i l then Some True else Some c) is flag =
    (if [] \<in> set is then None else Some (flag \<or> list_ex (\<lambda>i. ci_equal i l) is))"
  by (induction "is" arbitrary: flag) (auto split: option.splits)

lemma token_fold_chunked:
  assumes "l \<noteq> []"
  shows "token_fold (\<lambda>i c. if \<not> ci_equal i l then None else Some True) is flag =
    (if list_all (\<lambda>i. ci_equal i l) is then Some (flag \<or> is \<noteq> []) else None)"
  using assms by (induction "is" arbitrary: flag) (auto simp: ci_equal_def)

lemma parse_header_block_COMPLETE:
  assumes "parse_header_block buf (length buf) = (CK_HTTP_PARSE_COMPLETE, r)"
  shows "request_wf buf r"
    and "framing_spec buf (request_headers r) = Some (request_body_mode r, request_content_length r,
           request_connection_close_required r)"
proof -
  from assms obtain le r0 r1 cl te close where parts:
      "find_crlf buf (length buf) 0 = Some le"
      "parse_request_line buf le zero_request = Some r0"
      "parse_header_lines buf (length buf) (le + 2) r0 = (None, r1)"
      "parse_content_length_headers buf (request_headers r1) (0, False) = Some cl"
      "parse_transfer_encoding_headers buf (request_headers r1) (False, False) = Some te"
      "parse_connection_headers buf (request_headers r1) False = Some close"
      "decide_framing cl te close r1 = (CK_HTTP_PARSE_COMPLETE, r)"
    by (auto simp: parse_header_block_def split: option.splits prod.splits
        dest!: parse_header_lines_SomeD)
  have "le \<le> length buf" using find_crlf_bounds [OF parts(1)] by simp
  note line = parse_request_line_wf [OF parts(2) this]
  have hs: "list_all (header_wf buf) (request_headers r1)"
      "length (request_headers r1) \<le> CK_HTTP_MAX_HEADERS"
    and r1: "r1 = r0\<lparr>request_headers := request_headers r1\<rparr>"
    using parse_header_lines_wf [OF parts(3)] line(2) by (simp_all add: zero_request_def)
  have "request_line_wf buf (r0\<lparr>request_headers := request_headers r1\<rparr>)"
    using line(1) by (simp add: request_line_wf_def)
  with r1 have "request_line_wf buf r1" by simp
  then show "request_wf buf r"
    using parts(7) hs
    by (auto simp: request_wf_def request_line_wf_def decide_framing_def split: if_splits)
  have hin: "headers_in buf (request_headers r1)" using hs(1) by (rule header_wf_headers_in)
  have r: "request_headers r = request_headers r1"
    using parts(7) by (auto simp: decide_framing_def split: if_splits)
  let ?ls = "map parse_uint64 (field_items buf ''Content-Length'' (request_headers r1))"
  let ?tes = "field_items buf ''Transfer-Encoding'' (request_headers r1)"
  let ?opts = "field_items buf ''Connection'' (request_headers r1)"
  have cl: "list_all (\<lambda>l. l \<noteq> None \<and> l = hd ?ls) ?ls"
      "cl = (if ?ls = [] then (0, False) else (the (hd ?ls), True))"
    using parts(4)
    by (simp_all add: parse_content_length_headers_fold [OF hin] content_length_fold_start split: if_splits)
  have "bytes_of ''chunked'' \<noteq> []" by (simp add: bytes_of_def)
  from token_fold_chunked [OF this] parts(5)
  have te: "list_all (\<lambda>i. ci_equal i (bytes_of ''chunked'')) ?tes"
      "te = (field_values buf ''Transfer-Encoding'' (request_headers r1) \<noteq> [], ?tes \<noteq> [])"
    by (simp_all add: parse_transfer_encoding_headers_fold [OF hin] split: if_splits)
  have close: "[] \<notin> set ?opts" "close = list_ex (\<lambda>i. ci_equal i (bytes_of ''close'')) ?opts"
    using parts(6) by (simp_all add: parse_connection_headers_fold [OF hin] token_fold_close split: if_splits)
  show "framing_spec buf (request_headers r) = Some (request_body_mode r,
      request_content_length r, request_connection_close_required r)"
    using parts(7) cl(1) te(1) close(1) unfolding r cl(2) te(2) close(2) framing_spec_def decide_framing_def Let_def
    by (simp split: if_splits) fastforce+
qed

section \<open>Properties of the parser\<close>

lemma parser_feed_loop_COMPLETE:
  assumes "parser_feed_loop p data pos req = (CK_HTTP_PARSE_COMPLETE, c, p', r)"
  shows "parse_header_block (parser_buffer p') (length (parser_buffer p')) = (CK_HTTP_PARSE_COMPLETE, r)
    \<and> parser_complete p'"
  using assms
proof (induction p data pos req rule: parser_feed_loop.induct)
  case (2 parser b source position request)
  then show ?case by (auto simp: Let_def split: if_splits prod.splits)
qed simp

lemma parser_feed_loop_position:
  "parser_feed_loop p data (k + pos) req =
    (case parser_feed_loop p data pos req of
       (r, c, p', req') \<Rightarrow>
         (r, if r = CK_HTTP_PARSE_HEADER_TOO_LARGE \<and> c = 0 then 0 else k + c, p', req'))"
proof (induction p data pos req rule: parser_feed_loop.induct)
  case (1 parser position request)
  then show ?case by simp
next
  case (2 parser b source position request)
  then show ?case by (auto simp: Let_def split: prod.splits)
qed

lemma parser_feed_loop_INCOMPLETE:
  assumes "parser_feed_loop p data pos req = (CK_HTTP_PARSE_INCOMPLETE, c, p', req')"
  shows "parser_complete p' = parser_complete p"
  using assms
proof (induction p data pos req rule: parser_feed_loop.induct)
  case (2 parser b source position request)
  let ?buf = "parser_buffer parser @ [b]"
  have "fst (parse_header_block ?buf (length ?buf)) \<noteq> CK_HTTP_PARSE_INCOMPLETE"
    by (rule parse_header_block_decides)
  with 2 show ?case by (auto simp: Let_def split: if_splits prod.splits)
qed simp

lemma parser_feed_loop_consumed:
  assumes "parser_feed_loop p data pos req = (r, c, p', req')"
  shows "c \<le> pos + length data" and "r = CK_HTTP_PARSE_INCOMPLETE \<Longrightarrow> c = pos + length data"
proof -
  have "c \<le> pos + length data \<and> (r = CK_HTTP_PARSE_INCOMPLETE \<longrightarrow> c = pos + length data)"
    using assms
  proof (induction p data pos req rule: parser_feed_loop.induct)
    case (2 parser b source position request)
    let ?buf = "parser_buffer parser @ [b]"
    have "fst (parse_header_block ?buf (length ?buf)) \<noteq> CK_HTTP_PARSE_INCOMPLETE"
      by (rule parse_header_block_decides)
    with 2 show ?case by (auto simp: Let_def split: if_splits prod.splits)
  qed simp
  then show "c \<le> pos + length data" and "r = CK_HTTP_PARSE_INCOMPLETE \<Longrightarrow> c = pos + length data" by simp_all
qed

lemma parser_feed_append:
  "ck_http_parser_feed False p (a @ b) req =
    (case ck_http_parser_feed False p a req of
       (CK_HTTP_PARSE_INCOMPLETE, c, p', req') \<Rightarrow>
         (case ck_http_parser_feed False p' b req' of
            (r, c', p'', req'') \<Rightarrow>
              (r, if r = CK_HTTP_PARSE_HEADER_TOO_LARGE \<and> c' = 0 then 0 else c + c', p'', req''))
     | result \<Rightarrow> result)"
proof (cases "parser_complete p")
  case True
  then show ?thesis by (simp add: ck_http_parser_feed_def)
next
  case False
  obtain r c p' req' where first: "parser_feed_loop p a 0 req = (r, c, p', req')"
    by (cases "parser_feed_loop p a 0 req")
  then have "r = CK_HTTP_PARSE_INCOMPLETE \<Longrightarrow> \<not> parser_complete p'"
    using False parser_feed_loop_INCOMPLETE [of p a 0 req c p' req'] by simp
  with False first show ?thesis
    using parser_feed_loop_position [of p' b c 0 req']
    by (auto simp: ck_http_parser_feed_def parser_feed_loop_append [of p a b]
        split: ck_http_parse_result.split prod.split)
qed

text \<open>
  Incremental feeding is equivalent to feeding at once: for every split of the input, feeding
  the first part and then, if the parser still needs input, the second part gives the result, the
  parser state and the request of one call on the whole input, and the consumed counts add up
  (the buffer-full return leaves \<open>*consumed\<close> at 0).
\<close>

theorem parser_feed_incremental:
  "ck_http_parser_feed False p (a @ b) req =
    (case ck_http_parser_feed False p a req of
       (CK_HTTP_PARSE_INCOMPLETE, c, p', req') \<Rightarrow>
         (case ck_http_parser_feed False p' b req' of
            (r, c', p'', req'') \<Rightarrow>
              (r, if r = CK_HTTP_PARSE_HEADER_TOO_LARGE \<and> c' = 0 then 0 else c + c', p'', req''))
     | result \<Rightarrow> result)"
  by (rule parser_feed_append)

text \<open>
  C6. Message boundary: a freshly initialised parser stops exactly behind the first
  \<open>CR LF CR LF\<close> of the input, hands exactly that block to the header parser, never consumes a
  byte of the body or of a pipelined request, and reports a block that does not fit into the
  32768-byte buffer as too large.
\<close>

theorem parser_feed_first_block:
  "ck_http_parser_feed False (ck_http_parser_init p) data req = parser_feed_spec data req"
proof -
  have "no_blank_line []" by (simp add: no_blank_line_def ends_with_blank_line_def)
  then have "parser_feed_loop \<lparr>parser_buffer = [], parser_complete = False\<rparr> data (length ([] :: u8 list)) req
      = parser_feed_spec ([] @ data) req"
    by (rule parser_feed_loop_spec) simp
  moreover have "ck_http_parser_init p = \<lparr>parser_buffer = [], parser_complete = False\<rparr>"
    by (simp add: ck_http_parser_init_def)
  ultimately show ?thesis by (simp add: ck_http_parser_feed_def)
qed


definition sample_post :: "u8 list" where
  "sample_post = bytes_of ''POST /a HTTP/1.1'' @ [CR, LF] @ bytes_of ''Content-Length: 3, 3'' @ [CR, LF, CR, LF]
     @ bytes_of ''abc''"

definition fresh_parser :: ck_http_parser where
  "fresh_parser = \<lparr>parser_buffer = [], parser_complete = False\<rparr>"

lemma sample_post_complete:
  "\<exists>c p' r. ck_http_parser_feed False fresh_parser sample_post zero_request = (CK_HTTP_PARSE_COMPLETE, c, p', r)"
proof -
  have "fst (ck_http_parser_feed False fresh_parser sample_post zero_request) = CK_HTTP_PARSE_COMPLETE"
    by code_simp
  then show ?thesis by (metis prod.collapse)
qed




text \<open>
  \<open>parse_uint64\<close> accepts exactly the non-empty digit strings whose decimal value fits in 64
  bits, and returns that value: the overflow guard neither lets a wrapped value through nor
  rejects a representable one.
\<close>

theorem parse_uint64_exact:
  "parse_uint64 ds =
    (if ds \<noteq> [] \<and> list_all is_digit ds \<and> dec_value ds < 2 ^ 64
     then Some (of_nat (dec_value ds)) else None)"
  by (rule parse_uint64_value)

text \<open>
  The token test accepts the NUL byte, because \<open>strchr\<close> finds the terminator of its literal:
  a request whose method contains NUL is accepted as complete.
\<close>

theorem is_tchar_accepts_nul:
  "is_tchar NUL \<and>
   fst (ck_http_parser_feed False fresh_parser
     (bytes_of ''G'' @ [NUL] @ bytes_of ''T / HTTP/1.1'' @ [CR, LF, CR, LF]) zero_request)
     = CK_HTTP_PARSE_COMPLETE"
proof
  show "is_tchar NUL" by (simp add: is_tchar_def c_strchr_def)
  show "fst (ck_http_parser_feed False fresh_parser
     (bytes_of ''G'' @ [NUL] @ bytes_of ''T / HTTP/1.1'' @ [CR, LF, CR, LF]) zero_request)
     = CK_HTTP_PARSE_COMPLETE" by code_simp
qed

end
