(* ===== verification/Ck_Stream.thy ===== *)
theory Ck_Stream
  imports Ck_Prelude
begin

text \<open>
  Incremental decoders.

  The chunked decoder and the request input machine are used in the same way: a buffer is fed
  until the decoder asks for more input, the bytes that were not consumed are kept, and the next
  fragment from the network is put behind them.  This theory states what makes such use
  independent of the fragmentation, as a contract \<open>resumable\<close>, and derives the independence once.

  An output is \<open>(result, body, rest, decoder)\<close>: the result of the last call, the items that
  were handed out, the input that is left, and the decoder.
\<close>

type_synonym ('r, 'o, 'i, 'd) decoded = "'r \<times> 'o list \<times> 'i list \<times> 'd"

definition prepend_body :: "'o list \<Rightarrow> ('r, 'o, 'i, 'd) decoded \<Rightarrow> ('r, 'o, 'i, 'd) decoded" where
  "prepend_body bs out = (case out of (r, body, rest, d) \<Rightarrow> (r, bs @ body, rest, d))"

text \<open>After an error the unread input is not part of the outcome.\<close>

definition outcome :: "('r \<Rightarrow> bool) \<Rightarrow> ('r, 'o, 'i, 'd) decoded \<Rightarrow> ('r, 'o, 'i, 'd) decoded" where
  "outcome failed out = (case out of (r, body, rest, d) \<Rightarrow> (r, body, if failed r then [] else rest, d))"

text \<open>Continue a decoding with further input if it asked for it.\<close>

definition resume ::
  "('d \<Rightarrow> 'i list \<Rightarrow> ('r, 'o, 'i, 'd) decoded) \<Rightarrow> 'r \<Rightarrow> ('r, 'o, 'i, 'd) decoded \<Rightarrow> 'i list
   \<Rightarrow> ('r, 'o, 'i, 'd) decoded" where
  "resume dec again out b = (case out of (r, body, rest, d) \<Rightarrow>
     if r = again then prepend_body body (dec d (rest @ b)) else (r, body, rest @ b, d))"

text \<open>Feed the fragments in order, keeping unconsumed input.\<close>

primrec stream ::
  "('d \<Rightarrow> 'i list \<Rightarrow> ('r, 'o, 'i, 'd) decoded) \<Rightarrow> 'r \<Rightarrow> 'd \<Rightarrow> 'i list \<Rightarrow> 'i list list
   \<Rightarrow> ('r, 'o, 'i, 'd) decoded" where
  "stream dec again d pending [] = (again, [], pending, d)"
| "stream dec again d pending (f # fs) =
    (case dec d (pending @ f) of
       (r, body, rest, d') \<Rightarrow>
         if r = again then prepend_body body (stream dec again d' rest fs)
         else (r, body, rest @ concat fs, d'))"

lemma prepend_body_simps [simp]:
  "prepend_body bs (r, body, rest, d) = (r, bs @ body, rest, d)"
  "prepend_body [] out = out"
  "prepend_body xs (prepend_body ys out) = prepend_body (xs @ ys) out"
  by (simp_all add: prepend_body_def split: prod.splits)

lemma prepend_body_eq:
  "prepend_body bs out = (r, body, rest, d) \<longleftrightarrow> (\<exists>body'. out = (r, body', rest, d) \<and> body = bs @ body')"
  by (cases out) (auto simp: prepend_body_def)

lemma outcome_prepend [simp]: "outcome failed (prepend_body bs out) = prepend_body bs (outcome failed out)"
  by (simp add: outcome_def prepend_body_def split: prod.split)

lemma outcome_tuple:
  "outcome failed (r, body, rest, d) = (r, body, if failed r then [] else rest, d)"
  by (simp add: outcome_def)

lemma outcome_eqD:
  assumes "outcome failed (r, body, rest, d) = outcome failed out"
  shows "\<exists>rest'. out = (r, body, rest', d) \<and> (\<not> failed r \<longrightarrow> rest' = rest)"
  using assms by (cases out) (auto simp: outcome_def split: if_splits)

lemma resume_prepend [simp]:
  "resume dec again (prepend_body bs out) b = prepend_body bs (resume dec again out b)"
  by (cases out) (simp add: resume_def)

lemma resume_tuple:
  "resume dec again (r, body, rest, d) b =
    (if r = again then prepend_body body (dec d (rest @ b)) else (r, body, rest @ b, d))"
  by (simp add: resume_def)

text \<open>
  The contract: \<open>dec\<close> is what the caller runs, \<open>ref\<close> a reference that agrees with it and can be
  resumed at any point; \<open>ok d n\<close> says that decoder \<open>d\<close> is well-formed and may be given \<open>n\<close> again
  items.
\<close>

locale resumable =
  fixes dec ref :: "'d \<Rightarrow> 'i list \<Rightarrow> ('r, 'o, 'i, 'd) decoded"
    and again :: 'r and failed :: "'r \<Rightarrow> bool" and ok :: "'d \<Rightarrow> nat \<Rightarrow> bool"
  assumes again_not_failed: "\<not> failed again"
    and dec_ref: "ok d (length xs) \<Longrightarrow> outcome failed (dec d xs) = outcome failed (ref d xs)"
    and ref_append: "outcome failed (ref d (a @ b)) = outcome failed (resume ref again (ref d a) b)"
    and dec_ok: "ok d (length xs + n) \<Longrightarrow> dec d xs = (again, body, rest, e) \<Longrightarrow> ok e (length rest + n)"
    and ok_mono: "ok d n \<Longrightarrow> m \<le> n \<Longrightarrow> ok d m"
begin

lemma ref_idle:
  assumes "ref d xs = (again, body, rest, e)"
  shows "ref e rest = (again, [], rest, e)"
proof -
  have "prepend_body body (outcome failed (ref e rest)) = (again, body, rest, e)"
    using ref_append [of d xs "[]"] assms again_not_failed by (simp add: resume_tuple outcome_tuple)
  then show ?thesis
    using again_not_failed by (cases "ref e rest") (auto simp: outcome_def split: if_splits)
qed

lemma outcome_more:
  assumes "outcome failed (r, body, rest, e) = outcome failed (ref d xs)"
  shows "outcome failed (ref d (xs @ ys)) =
    (if r = again then prepend_body body (outcome failed (ref e (rest @ ys)))
     else outcome failed (r, body, rest @ ys, e))"
proof -
  obtain rest' where ref: "ref d xs = (r, body, rest', e)" and rest': "\<not> failed r \<longrightarrow> rest' = rest"
    using outcome_eqD [OF assms] by blast
  then show ?thesis
    using again_not_failed by (auto simp: ref_append [of d xs ys] resume_tuple outcome_tuple)
qed

lemma stream_ref:
  assumes "ok d (length pending + length (concat fs))" and "ref d pending = (again, [], pending, d)"
  shows "outcome failed (stream dec again d pending fs) = outcome failed (ref d (pending @ concat fs))"
  using assms
proof (induction fs arbitrary: d pending)
  case (Cons f fs)
  obtain r body rest e where run: "dec d (pending @ f) = (r, body, rest, e)"
    by (cases "dec d (pending @ f)")
  have ok: "ok d (length (pending @ f) + length (concat fs))" using Cons.prems(1) by (simp add: add.assoc)
  then have same: "outcome failed (r, body, rest, e) = outcome failed (ref d (pending @ f))"
    using dec_ref [of d "pending @ f"] run ok_mono by fastforce
  note again = outcome_more [OF same, of "concat fs"]
  show ?case
  proof (cases "r = again")
    case True
    then have "ref d (pending @ f) = (again, body, rest, e)"
      using outcome_eqD [OF same] again_not_failed by auto
    then have "ref e rest = (again, [], rest, e)" by (rule ref_idle)
    moreover have "ok e (length rest + length (concat fs))" using dec_ok [OF ok] run True by blast
    ultimately show ?thesis using Cons.IH True again run by simp
  next
    case False
    with again run show ?thesis by simp
  qed
qed simp

text \<open>Fragmentation independence.\<close>

lemma stream_fragmentation:
  assumes "ok d (length (concat fs))" and "ref d [] = (again, [], [], d)"
  shows "outcome failed (stream dec again d [] fs) = outcome failed (dec d (concat fs))"
  using stream_ref [of d "[]" fs] dec_ref [of d "concat fs"] assms by simp

end

end
