(* ===== verification/Ck_Http_Chunked.thy ===== *)
theory Ck_Http_Chunked
  imports Ck_Stream
begin

text \<open>
  The incremental chunked-transfer decoder, \<open>c/http/ck_http_chunked.[ch]\<close>.

  \<open>decoder_line\<close> is the used prefix of \<open>line[]\<close>; the NUL that \<open>finish_line\<close> stores behind it is
  never read.  The input of a feed is the list of the remaining bytes, \<open>position\<close> the number of
  bytes already passed.  A feed returns \<open>(result, *consumed, *body_data, *body_length, *decoder)\<close>
  with \<open>*body_data\<close> as an offset from the start of the input, or \<open>None\<close> for NULL.
\<close>

section \<open>Data\<close>

definition CK_HTTP_CHUNKED_MAX_LINE :: nat where "CK_HTTP_CHUNKED_MAX_LINE = 8192"
definition CK_HTTP_CHUNKED_MAX_TRAILERS :: nat where "CK_HTTP_CHUNKED_MAX_TRAILERS = 64"
definition CK_HTTP_CHUNKED_MAX_TRAILER_BYTES :: nat where "CK_HTTP_CHUNKED_MAX_TRAILER_BYTES = 16384"
definition CK_HTTP_CHUNKED_MAX_BODY :: u64 where "CK_HTTP_CHUNKED_MAX_BODY = - 1"

lemmas chunked_limits = CK_HTTP_CHUNKED_MAX_LINE_def CK_HTTP_CHUNKED_MAX_TRAILERS_def
  CK_HTTP_CHUNKED_MAX_TRAILER_BYTES_def CK_HTTP_CHUNKED_MAX_BODY_def

datatype ck_http_chunked_result =
    CK_HTTP_CHUNKED_INCOMPLETE
  | CK_HTTP_CHUNKED_DATA
  | CK_HTTP_CHUNKED_COMPLETE
  | CK_HTTP_CHUNKED_BAD_REQUEST
  | CK_HTTP_CHUNKED_TOO_LARGE

datatype ck_http_chunked_state =
    CK_HTTP_CHUNKED_SIZE
  | CK_HTTP_CHUNKED_DATA_STATE
  | CK_HTTP_CHUNKED_DATA_CRLF
  | CK_HTTP_CHUNKED_TRAILERS
  | CK_HTTP_CHUNKED_DONE
  | CK_HTTP_CHUNKED_STATE_INVALID

record ck_http_chunked_decoder =
  decoder_state :: ck_http_chunked_state
  decoder_chunk_remaining :: u64
  decoder_total_decoded :: u64
  decoder_line :: "u8 list"
  decoder_trailer_bytes :: nat
  decoder_trailer_count :: nat

type_synonym chunked_out =
  "ck_http_chunked_result \<times> nat \<times> nat option \<times> nat \<times> ck_http_chunked_decoder"

section \<open>Lines\<close>

definition is_tchar_chunked :: "u8 \<Rightarrow> bool" where
  "is_tchar_chunked value \<longleftrightarrow> (48 \<le> value \<and> value \<le> 57) \<or> (65 \<le> value \<and> value \<le> 90)
     \<or> (97 \<le> value \<and> value \<le> 122)
     \<or> c_strchr (bytes_of ''!#$%&'' @ [39] @ bytes_of ''*+-.^_`|~'') value"

definition hex_value :: "u8 \<Rightarrow> int" where
  "hex_value value =
    (if 48 \<le> value \<and> value \<le> 57 then uint (value - 48)
     else if 65 \<le> value \<and> value \<le> 70 then uint (value - 65) + 10
     else if 97 \<le> value \<and> value \<le> 102 then uint (value - 97) + 10
     else - 1)"

definition append_line_byte :: "ck_http_chunked_decoder \<Rightarrow> u8 \<Rightarrow> ck_http_chunked_decoder option" where
  "append_line_byte decoder value =
    (if length (decoder_line decoder) \<ge> CK_HTTP_CHUNKED_MAX_LINE - 1 then None
     else Some (decoder\<lparr>decoder_line := decoder_line decoder @ [value]\<rparr>))"

text \<open>
  The first loop of \<open>parse_chunk_size\<close>: \<open>None\<close> is an early \<open>return 0\<close>, otherwise the value, the
  flag \<open>digits\<close> and the line from \<open>pos\<close> on.
\<close>

fun chunk_size_loop :: "u8 list \<Rightarrow> u64 \<Rightarrow> bool \<Rightarrow> (u64 \<times> bool \<times> u8 list) option" where
  "chunk_size_loop [] value digits = Some (value, digits, [])"
| "chunk_size_loop (b # bs) value digits =
    (if b = SEMICOLON then Some (value, digits, b # bs)
     else
       let digit = hex_value b in
       if digit < 0 then None
       else if value > (- 1 - of_int digit) div 16 then None
       else chunk_size_loop bs (value * 16 + of_int digit) True)"

definition parse_chunk_size :: "u8 list \<Rightarrow> u64 option" where
  "parse_chunk_size line =
    (case chunk_size_loop line 0 False of
       None \<Rightarrow> None
     | Some (value, digits, rest) \<Rightarrow>
         if \<not> digits then None
         else if rest \<noteq> [] \<and> hd rest = SEMICOLON
                 \<and> list_ex (\<lambda>v. v = 0x7f \<or> (v < 0x20 \<and> v \<noteq> TAB)) (tl rest)
         then None
         else Some value)"

definition valid_trailer_field :: "u8 list \<Rightarrow> bool" where
  "valid_trailer_field line =
    (let len = length line;
         colon = skip_while (\<lambda>b. b \<noteq> COLON) line 0 len in
     if colon = 0 \<or> colon = len then False
     else if \<not> list_all is_tchar_chunked (take colon line) then False
     else if list_ex (\<lambda>v. v = 0x7f \<or> (v < 0x20 \<and> v \<noteq> SP \<and> v \<noteq> TAB)) (drop (colon + 1) line)
     then False
     else True)"

section \<open>The decoder\<close>

definition ck_http_chunked_init :: "ck_http_chunked_decoder \<Rightarrow> ck_http_chunked_decoder" where
  "ck_http_chunked_init decoder = decoder\<lparr>decoder_state := CK_HTTP_CHUNKED_SIZE,
     decoder_chunk_remaining := 0, decoder_total_decoded := 0, decoder_line := [],
     decoder_trailer_bytes := 0, decoder_trailer_count := 0\<rparr>"

fun chunked_feed_loop :: "ck_http_chunked_decoder \<Rightarrow> u8 list \<Rightarrow> nat \<Rightarrow> chunked_out" where
  "chunked_feed_loop decoder [] position = (CK_HTTP_CHUNKED_INCOMPLETE, position, None, 0, decoder)"
| "chunked_feed_loop decoder (value # source) position =
    (case decoder_state decoder of
       CK_HTTP_CHUNKED_SIZE \<Rightarrow>
         if value = CR then
           (case source of
              [] \<Rightarrow> (CK_HTTP_CHUNKED_INCOMPLETE, position, None, 0, decoder)
            | lf # source' \<Rightarrow>
                if lf \<noteq> LF then (CK_HTTP_CHUNKED_BAD_REQUEST, 0, None, 0, decoder)
                else
                  (case parse_chunk_size (decoder_line decoder) of
                     None \<Rightarrow> (CK_HTTP_CHUNKED_BAD_REQUEST, 0, None, 0, decoder)
                   | Some chunk_size \<Rightarrow>
                       chunked_feed_loop
                         (decoder\<lparr>decoder_chunk_remaining := chunk_size, decoder_line := [],
                            decoder_state := if chunk_size = 0 then CK_HTTP_CHUNKED_TRAILERS
                                             else CK_HTTP_CHUNKED_DATA_STATE\<rparr>)
                         source' (position + 2)))
         else if value = LF then (CK_HTTP_CHUNKED_BAD_REQUEST, 0, None, 0, decoder)
         else
           (case append_line_byte decoder value of
              None \<Rightarrow> (CK_HTTP_CHUNKED_TOO_LARGE, 0, None, 0, decoder)
            | Some decoder' \<Rightarrow> chunked_feed_loop decoder' source (position + 1))
     | CK_HTTP_CHUNKED_DATA_STATE \<Rightarrow>
         let available = length (value # source);
             n = (if decoder_chunk_remaining decoder < of_nat available
                     then unat (decoder_chunk_remaining decoder) else available) in
         if decoder_total_decoded decoder > CK_HTTP_CHUNKED_MAX_BODY
            \<or> of_nat n > CK_HTTP_CHUNKED_MAX_BODY - decoder_total_decoded decoder
         then (CK_HTTP_CHUNKED_TOO_LARGE, 0, None, 0, decoder)
         else
           let remaining = decoder_chunk_remaining decoder - of_nat n in
           (CK_HTTP_CHUNKED_DATA, position + n, Some position, n,
            decoder\<lparr>decoder_chunk_remaining := remaining,
              decoder_total_decoded := decoder_total_decoded decoder + of_nat n,
              decoder_state := if remaining = 0 then CK_HTTP_CHUNKED_DATA_CRLF
                               else CK_HTTP_CHUNKED_DATA_STATE\<rparr>)
     | CK_HTTP_CHUNKED_DATA_CRLF \<Rightarrow>
         (case source of
            [] \<Rightarrow> (CK_HTTP_CHUNKED_INCOMPLETE, position, None, 0, decoder)
          | lf # source' \<Rightarrow>
              if value \<noteq> CR \<or> lf \<noteq> LF then (CK_HTTP_CHUNKED_BAD_REQUEST, 0, None, 0, decoder)
              else chunked_feed_loop (decoder\<lparr>decoder_state := CK_HTTP_CHUNKED_SIZE\<rparr>)
                     source' (position + 2))
     | CK_HTTP_CHUNKED_TRAILERS \<Rightarrow>
         if decoder_trailer_bytes decoder \<ge> CK_HTTP_CHUNKED_MAX_TRAILER_BYTES
         then (CK_HTTP_CHUNKED_TOO_LARGE, 0, None, 0, decoder)
         else if value = CR then
           (case source of
              [] \<Rightarrow> (CK_HTTP_CHUNKED_INCOMPLETE, position, None, 0, decoder)
            | lf # source' \<Rightarrow>
                if lf \<noteq> LF
                then (CK_HTTP_CHUNKED_BAD_REQUEST, 0, None, 0,
                       decoder\<lparr>decoder_trailer_bytes := decoder_trailer_bytes decoder + 1\<rparr>)
                else
                  let decoder' = decoder\<lparr>decoder_trailer_bytes := decoder_trailer_bytes decoder + 2\<rparr> in
                  if decoder_line decoder' = []
                  then (CK_HTTP_CHUNKED_COMPLETE, position + 2, None, 0,
                         decoder'\<lparr>decoder_state := CK_HTTP_CHUNKED_DONE\<rparr>)
                  else if decoder_trailer_count decoder' \<ge> CK_HTTP_CHUNKED_MAX_TRAILERS
                          \<or> \<not> valid_trailer_field (decoder_line decoder')
                  then (CK_HTTP_CHUNKED_BAD_REQUEST, 0, None, 0, decoder')
                  else chunked_feed_loop
                         (decoder'\<lparr>decoder_trailer_count := decoder_trailer_count decoder' + 1,
                            decoder_line := []\<rparr>)
                         source' (position + 2))
         else
           let decoder' = decoder\<lparr>decoder_trailer_bytes := decoder_trailer_bytes decoder + 1\<rparr> in
           if value = LF then (CK_HTTP_CHUNKED_BAD_REQUEST, 0, None, 0, decoder')
           else
             (case append_line_byte decoder' value of
                None \<Rightarrow> (CK_HTTP_CHUNKED_TOO_LARGE, 0, None, 0, decoder')
              | Some decoder'' \<Rightarrow> chunked_feed_loop decoder'' source (position + 1))
     | _ \<Rightarrow> (CK_HTTP_CHUNKED_BAD_REQUEST, 0, None, 0, decoder))"

definition ck_http_chunked_feed :: "bool \<Rightarrow> ck_http_chunked_decoder \<Rightarrow> u8 list \<Rightarrow> chunked_out" where
  "ck_http_chunked_feed null_arg decoder data =
    (if null_arg then (CK_HTTP_CHUNKED_BAD_REQUEST, 0, None, 0, decoder)
     else if decoder_state decoder = CK_HTTP_CHUNKED_DONE
     then (CK_HTTP_CHUNKED_COMPLETE, 0, None, 0, decoder)
     else chunked_feed_loop decoder data 0)"

definition ck_http_chunked_get_state :: "ck_http_chunked_decoder option \<Rightarrow> ck_http_chunked_state" where
  "ck_http_chunked_get_state decoder =
    (case decoder of None \<Rightarrow> CK_HTTP_CHUNKED_STATE_INVALID | Some d \<Rightarrow> decoder_state d)"

definition ck_http_chunked_total_decoded :: "ck_http_chunked_decoder option \<Rightarrow> u64" where
  "ck_http_chunked_total_decoded decoder =
    (case decoder of None \<Rightarrow> 0 | Some d \<Rightarrow> decoder_total_decoded d)"

section \<open>Chunk sizes\<close>

definition is_hex :: "u8 \<Rightarrow> bool" where
  "is_hex b \<longleftrightarrow> 0 \<le> hex_value b"

definition hex_value_from :: "nat \<Rightarrow> u8 list \<Rightarrow> nat" where
  "hex_value_from v ds = foldl (\<lambda>v d. v * 16 + nat (hex_value d)) v ds"

lemma hex_value_from_simps [simp]:
  "hex_value_from v [] = v"
  "hex_value_from v (d # ds) = hex_value_from (v * 16 + nat (hex_value d)) ds"
  by (simp_all add: hex_value_from_def)

lemma hex_value_from_ge: "v \<le> hex_value_from v ds"
proof (induction ds arbitrary: v)
  case (Cons d ds)
  have "v \<le> v * 16 + nat (hex_value d)" by simp
  also have "\<dots> \<le> hex_value_from (v * 16 + nat (hex_value d)) ds" by (rule Cons.IH)
  finally show ?case by simp
qed simp

lemma hex_value_less: "hex_value b < 16"
proof -
  have sub: "uint (b - lo) = uint b - uint lo" if "lo \<le> b" for lo :: u8
    using that by (simp add: uint_minus_simple_alt)
  have le: "uint b \<le> uint hi" if "b \<le> hi" for hi :: u8
    using that by (simp add: word_le_def)
  show ?thesis
    using sub [of 48] le [of 57] sub [of 65] le [of 70] sub [of 97] le [of 102]
    by (auto simp: hex_value_def)
qed

lemma hex_digit_word:
  assumes "is_hex b"
  shows "unat (of_int (hex_value b) :: u64) = nat (hex_value b)"
proof -
  have "of_int (hex_value b) = (of_nat (nat (hex_value b)) :: u64)"
    using assms by (simp add: is_hex_def)
  moreover have "nat (hex_value b) < 2 ^ 64" using hex_value_less [of b] by simp
  ultimately show ?thesis by (simp add: unat_of_nat)
qed

lemma chunk_size_loop_value:
  "chunk_size_loop line r digits =
    (let ds = takeWhile (\<lambda>b. b \<noteq> SEMICOLON) line in
     if list_all is_hex ds \<and> hex_value_from (unat r) ds < 2 ^ 64
     then Some (of_nat (hex_value_from (unat r) ds), digits \<or> ds \<noteq> [],
                dropWhile (\<lambda>b. b \<noteq> SEMICOLON) line)
     else None)"
proof (induction line arbitrary: r digits)
  case Nil
  show ?case using unat_u64_less [of r] by simp
next
  case (Cons b line)
  let ?d = "of_int (hex_value b) :: u64"
  show ?case
  proof (cases "b = SEMICOLON \<or> \<not> is_hex b")
    case True
    then show ?thesis using unat_u64_less [of r] by (auto simp: is_hex_def)
  next
    case False
    then have d: "unat ?d = nat (hex_value b)" by (simp add: hex_digit_word)
    moreover have "nat (hex_value b) < 16" using hex_value_less [of b] False by (simp add: is_hex_def)
    ultimately have guard: "r > (- 1 - ?d) div 16 \<longleftrightarrow> 2 ^ 64 \<le> unat r * 16 + nat (hex_value b)"
      using uint64_step_guard [of ?d 16 r] by simp
    show ?thesis
    proof (cases "2 ^ 64 \<le> unat r * 16 + nat (hex_value b)")
      case ovf: True
      have "\<not> hex_value_from (unat r * 16 + nat (hex_value b)) ds < 2 ^ 64" for ds
        using hex_value_from_ge [of "unat r * 16 + nat (hex_value b)" ds] ovf by simp
      with ovf guard False show ?thesis by (simp add: is_hex_def Let_def)
    next
      case fits: False
      then have "unat (r * 16 + ?d) = unat r * 16 + nat (hex_value b)"
        using uint64_step_value [of r 16 ?d] d by simp
      moreover have "\<not> (- 1 - ?d) div 16 < r" using guard fits by blast
      ultimately show ?thesis
        using False Cons.IH [of "r * 16 + ?d" True] by (simp add: is_hex_def Let_def)
    qed
  qed
qed

definition chunk_ext_ok :: "u8 list \<Rightarrow> bool" where
  "chunk_ext_ok ext \<longleftrightarrow> list_all (\<lambda>v. v \<noteq> 0x7f \<and> (0x20 \<le> v \<or> v = TAB)) (tl ext)"

lemma parse_chunk_size_value:
  "parse_chunk_size line =
    (let ds = takeWhile (\<lambda>b. b \<noteq> SEMICOLON) line; ext = dropWhile (\<lambda>b. b \<noteq> SEMICOLON) line in
     if ds \<noteq> [] \<and> list_all is_hex ds \<and> hex_value_from 0 ds < 2 ^ 64 \<and> chunk_ext_ok ext
     then Some (of_nat (hex_value_from 0 ds)) else None)"
proof -
  let ?ext = "dropWhile (\<lambda>b. b \<noteq> SEMICOLON) line"
  have "?ext \<noteq> [] \<Longrightarrow> hd ?ext = SEMICOLON"
    using hd_dropWhile [of "\<lambda>b. b \<noteq> SEMICOLON" line] by blast
  moreover have "list_ex (\<lambda>v. v = 0x7f \<or> (v < 0x20 \<and> v \<noteq> TAB)) (tl ?ext) \<longleftrightarrow> \<not> chunk_ext_ok ?ext"
    by (auto simp: chunk_ext_ok_def list_all_iff list_ex_iff not_le)
  moreover have "?ext = [] \<Longrightarrow> chunk_ext_ok ?ext"
    by (simp only: chunk_ext_ok_def list.sel list.pred_inject)
  ultimately have "(?ext \<noteq> [] \<and> hd ?ext = SEMICOLON
        \<and> list_ex (\<lambda>v. v = 0x7f \<or> (v < 0x20 \<and> v \<noteq> TAB)) (tl ?ext)) \<longleftrightarrow> \<not> chunk_ext_ok ?ext"
    by blast
  then show ?thesis
    unfolding parse_chunk_size_def chunk_size_loop_value Let_def by simp
qed

section \<open>A byte-at-a-time reference decoder\<close>

text \<open>
  The reference passes over the input once and moves body data one byte at a time.  It returns
  the result, the decoded body, the input that is left and the final decoder.
\<close>

type_synonym chunked_decoded = "(ck_http_chunked_result, u8, u8, ck_http_chunked_decoder) decoded"

definition end_of_size_line :: "u64 \<Rightarrow> ck_http_chunked_decoder \<Rightarrow> ck_http_chunked_decoder" where
  "end_of_size_line n d = d\<lparr>decoder_chunk_remaining := n, decoder_line := [],
     decoder_state := if n = 0 then CK_HTTP_CHUNKED_TRAILERS else CK_HTTP_CHUNKED_DATA_STATE\<rparr>"

definition take_data :: "nat \<Rightarrow> ck_http_chunked_decoder \<Rightarrow> ck_http_chunked_decoder" where
  "take_data n d =
    (let remaining = decoder_chunk_remaining d - of_nat n in
     d\<lparr>decoder_chunk_remaining := remaining,
       decoder_total_decoded := decoder_total_decoded d + of_nat n,
       decoder_state := if remaining = 0 then CK_HTTP_CHUNKED_DATA_CRLF else CK_HTTP_CHUNKED_DATA_STATE\<rparr>)"

definition count_trailer :: "nat \<Rightarrow> ck_http_chunked_decoder \<Rightarrow> ck_http_chunked_decoder" where
  "count_trailer n d = d\<lparr>decoder_trailer_bytes := decoder_trailer_bytes d + n\<rparr>"

fun chunked_ref :: "ck_http_chunked_decoder \<Rightarrow> u8 list \<Rightarrow> chunked_decoded" where
  "chunked_ref d [] =
    (if decoder_state d = CK_HTTP_CHUNKED_DONE then CK_HTTP_CHUNKED_COMPLETE
     else CK_HTTP_CHUNKED_INCOMPLETE, [], [], d)"
| "chunked_ref d (v # xs) =
    (case decoder_state d of
       CK_HTTP_CHUNKED_SIZE \<Rightarrow>
         if v = CR then
           (case xs of
              [] \<Rightarrow> (CK_HTTP_CHUNKED_INCOMPLETE, [], v # xs, d)
            | lf # xs' \<Rightarrow>
                if lf \<noteq> LF then (CK_HTTP_CHUNKED_BAD_REQUEST, [], v # xs, d)
                else (case parse_chunk_size (decoder_line d) of
                        None \<Rightarrow> (CK_HTTP_CHUNKED_BAD_REQUEST, [], v # xs, d)
                      | Some n \<Rightarrow> chunked_ref (end_of_size_line n d) xs'))
         else if v = LF then (CK_HTTP_CHUNKED_BAD_REQUEST, [], v # xs, d)
         else (case append_line_byte d v of
                 None \<Rightarrow> (CK_HTTP_CHUNKED_TOO_LARGE, [], v # xs, d)
               | Some d' \<Rightarrow> chunked_ref d' xs)
     | CK_HTTP_CHUNKED_DATA_STATE \<Rightarrow> prepend_body [v] (chunked_ref (take_data 1 d) xs)
     | CK_HTTP_CHUNKED_DATA_CRLF \<Rightarrow>
         (case xs of
            [] \<Rightarrow> (CK_HTTP_CHUNKED_INCOMPLETE, [], v # xs, d)
          | lf # xs' \<Rightarrow>
              if v \<noteq> CR \<or> lf \<noteq> LF then (CK_HTTP_CHUNKED_BAD_REQUEST, [], v # xs, d)
              else chunked_ref (d\<lparr>decoder_state := CK_HTTP_CHUNKED_SIZE\<rparr>) xs')
     | CK_HTTP_CHUNKED_TRAILERS \<Rightarrow>
         if decoder_trailer_bytes d \<ge> CK_HTTP_CHUNKED_MAX_TRAILER_BYTES
         then (CK_HTTP_CHUNKED_TOO_LARGE, [], v # xs, d)
         else if v = CR then
           (case xs of
              [] \<Rightarrow> (CK_HTTP_CHUNKED_INCOMPLETE, [], v # xs, d)
            | lf # xs' \<Rightarrow>
                if lf \<noteq> LF then (CK_HTTP_CHUNKED_BAD_REQUEST, [], v # xs, count_trailer 1 d)
                else if decoder_line d = []
                then (CK_HTTP_CHUNKED_COMPLETE, [], xs',
                       (count_trailer 2 d)\<lparr>decoder_state := CK_HTTP_CHUNKED_DONE\<rparr>)
                else if decoder_trailer_count d \<ge> CK_HTTP_CHUNKED_MAX_TRAILERS
                        \<or> \<not> valid_trailer_field (decoder_line d)
                then (CK_HTTP_CHUNKED_BAD_REQUEST, [], v # xs, count_trailer 2 d)
                else chunked_ref ((count_trailer 2 d)\<lparr>decoder_trailer_count := decoder_trailer_count d + 1,
                                    decoder_line := []\<rparr>) xs')
         else if v = LF then (CK_HTTP_CHUNKED_BAD_REQUEST, [], v # xs, count_trailer 1 d)
         else (case append_line_byte (count_trailer 1 d) v of
                 None \<Rightarrow> (CK_HTTP_CHUNKED_TOO_LARGE, [], v # xs, count_trailer 1 d)
               | Some d' \<Rightarrow> chunked_ref d' xs)
     | CK_HTTP_CHUNKED_DONE \<Rightarrow> (CK_HTTP_CHUNKED_COMPLETE, [], v # xs, d)
     | CK_HTTP_CHUNKED_STATE_INVALID \<Rightarrow> (CK_HTTP_CHUNKED_BAD_REQUEST, [], v # xs, d))"

declare resume_tuple [simp]

lemmas chunked_ref_step = chunked_ref.simps(2)
declare chunked_ref.simps(2) [simp del]

text \<open>A lone CR, or one byte of the CRLF behind a chunk, waits for the next byte.\<close>

lemma chunked_ref_wait:
  assumes "decoder_state d = CK_HTTP_CHUNKED_DATA_CRLF
    \<or> v = CR \<and> (decoder_state d = CK_HTTP_CHUNKED_SIZE
        \<or> decoder_state d = CK_HTTP_CHUNKED_TRAILERS
          \<and> decoder_trailer_bytes d < CK_HTTP_CHUNKED_MAX_TRAILER_BYTES)"
  shows "chunked_ref d [v] = (CK_HTTP_CHUNKED_INCOMPLETE, [], [v], d)"
  using assms by (auto simp: chunked_ref_step)

text \<open>Decoding may stop after any prefix and resume: fragmentation does not matter.\<close>

lemma chunked_ref_append:
  "chunked_ref d (a @ b) = resume chunked_ref CK_HTTP_CHUNKED_INCOMPLETE (chunked_ref d a) b"
proof (induction d a rule: chunked_ref.induct)
  case (1 d)
  then show ?case by (cases b) (auto simp: chunked_ref_step)
next
  case (2 d v xs)
  show ?case
  proof (cases "decoder_state d")
    case CK_HTTP_CHUNKED_SIZE
    show ?thesis
    proof (cases "v = CR")
      case True
      with CK_HTTP_CHUNKED_SIZE 2(1) show ?thesis
        by (cases xs) (auto simp: chunked_ref_wait chunked_ref_step [of d _ "_ # _"] split: option.split)
    next
      case False
      with CK_HTTP_CHUNKED_SIZE 2(2) show ?thesis
        by (auto simp: chunked_ref_step [of d v] split: option.split)
    qed
  next
    case CK_HTTP_CHUNKED_DATA_STATE
    with 2 show ?thesis by (simp add: chunked_ref_step [of d v])
  next
    case CK_HTTP_CHUNKED_DATA_CRLF
    with 2(4) show ?thesis
      by (cases xs) (auto simp: chunked_ref_wait chunked_ref_step [of d _ "_ # _"])
  next
    case CK_HTTP_CHUNKED_TRAILERS
    show ?thesis
    proof (cases "decoder_trailer_bytes d < CK_HTTP_CHUNKED_MAX_TRAILER_BYTES \<and> v = CR")
      case True
      with CK_HTTP_CHUNKED_TRAILERS 2(5) show ?thesis
        by (cases xs) (auto simp: chunked_ref_wait chunked_ref_step [of d _ "_ # _"])
    next
      case False
      with CK_HTTP_CHUNKED_TRAILERS 2(6) show ?thesis
        by (auto simp: chunked_ref_step [of d v] split: option.split)
    qed
  qed (simp_all add: chunked_ref_step)
qed

section \<open>The decoder refines the reference\<close>

definition chunked_wf :: "ck_http_chunked_decoder \<Rightarrow> bool" where
  "chunked_wf d \<longleftrightarrow>
     decoder_state d \<noteq> CK_HTTP_CHUNKED_STATE_INVALID
   \<and> (decoder_state d = CK_HTTP_CHUNKED_DATA_STATE \<longrightarrow> decoder_chunk_remaining d \<noteq> 0)
   \<and> length (decoder_line d) < CK_HTTP_CHUNKED_MAX_LINE
   \<and> decoder_trailer_bytes d \<le> CK_HTTP_CHUNKED_MAX_TRAILER_BYTES + 1
   \<and> decoder_trailer_count d \<le> CK_HTTP_CHUNKED_MAX_TRAILERS"

definition feed_ok :: "ck_http_chunked_decoder \<Rightarrow> u8 list \<Rightarrow> nat \<Rightarrow> chunked_out \<Rightarrow> bool" where
  "feed_ok d xs p out = (case out of (r, c, bd, bl, d') \<Rightarrow>
     chunked_wf d' \<and> decoder_total_decoded d' = decoder_total_decoded d + of_nat bl \<and>
     (case r of
        CK_HTTP_CHUNKED_DATA \<Rightarrow>
          (\<exists>off. bd = Some off \<and> p \<le> off \<and> 0 < bl \<and> c = off + bl \<and> c \<le> p + length xs
            \<and> chunked_ref d xs
                = prepend_body (take bl (drop (off - p) xs)) (chunked_ref d' (drop (c - p) xs)))
      | CK_HTTP_CHUNKED_BAD_REQUEST \<Rightarrow>
          c = 0 \<and> bd = None \<and> bl = 0 \<and> (\<exists>rest. chunked_ref d xs = (r, [], rest, d'))
      | CK_HTTP_CHUNKED_TOO_LARGE \<Rightarrow>
          c = 0 \<and> bd = None \<and> bl = 0 \<and> (\<exists>rest. chunked_ref d xs = (r, [], rest, d'))
      | _ \<Rightarrow>
          p \<le> c \<and> c \<le> p + length xs \<and> bd = None \<and> bl = 0
          \<and> chunked_ref d xs = (r, [], drop (c - p) xs, d')))"

lemma take_data_Suc:
  "take_data m (take_data (Suc 0) d) = take_data (Suc m) d"
  by (simp add: take_data_def Let_def algebra_simps)

lemma take_data_1_state:
  assumes "Suc n < unat (decoder_chunk_remaining d)"
  shows "decoder_state (take_data (Suc 0) d) = CK_HTTP_CHUNKED_DATA_STATE"
proof -
  have "decoder_chunk_remaining d \<noteq> 1" using assms by auto
  then show ?thesis by (simp add: take_data_def Let_def)
qed

lemma unat_take_data_1:
  assumes "decoder_chunk_remaining d \<noteq> 0"
  shows "unat (decoder_chunk_remaining (take_data (Suc 0) d)) = unat (decoder_chunk_remaining d) - 1"
  using assms by (simp add: take_data_def Let_def unat_minus_one)

text \<open>Moving \<open>n\<close> bytes at once is moving one byte \<open>n\<close> times.\<close>

lemma chunked_ref_data:
  assumes "decoder_state d = CK_HTTP_CHUNKED_DATA_STATE"
    and "0 < n" and "n \<le> length xs" and "n \<le> unat (decoder_chunk_remaining d)"
  shows "chunked_ref d xs = prepend_body (take n xs) (chunked_ref (take_data n d) (drop n xs))"
  using assms
proof (induction n arbitrary: d xs)
  case (Suc n)
  then obtain v ys where xs: "xs = v # ys" by (cases xs) auto
  have step: "chunked_ref d xs = prepend_body [v] (chunked_ref (take_data (Suc 0) d) ys)"
    using Suc.prems(1) by (simp add: xs chunked_ref_step)
  show ?case
  proof (cases "n = 0")
    case True
    with step show ?thesis by (simp add: xs)
  next
    case False
    have rem: "decoder_chunk_remaining d \<noteq> 0" using Suc.prems(4) by auto
    have "decoder_state (take_data (Suc 0) d) = CK_HTTP_CHUNKED_DATA_STATE"
      using False Suc.prems(4) by (intro take_data_1_state [of 0]) simp
    then have "chunked_ref (take_data (Suc 0) d) ys
        = prepend_body (take n ys) (chunked_ref (take_data (Suc n) d) (drop n ys))"
      using Suc.IH [of "take_data (Suc 0) d" ys] Suc.prems(3,4) False rem
      by (simp add: xs unat_take_data_1 take_data_Suc)
    with step show ?thesis by (simp add: xs)
  qed
qed simp

lemma feed_ok_shift:
  assumes "feed_ok d' xs' (p + k) out" and "k \<le> length xs" and "xs' = drop k xs"
    and "chunked_ref d xs = chunked_ref d' xs'"
    and "decoder_total_decoded d' = decoder_total_decoded d"
  shows "feed_ok d xs p out"
proof -
  obtain r c bd bl e where out: "out = (r, c, bd, bl, e)" by (cases out)
  show ?thesis
    using assms unfolding out feed_ok_def
    by (cases r) (auto simp: add.commute le_diff_conv Nat.le_diff_conv2)
qed

lemma feed_ok_data:
  assumes "chunked_wf d" and "decoder_state d = CK_HTTP_CHUNKED_DATA_STATE" and "xs \<noteq> []"
    and "unat (decoder_total_decoded d) + length xs < 2 ^ 64"
    and n: "n = (if decoder_chunk_remaining d < of_nat (length xs)
                 then unat (decoder_chunk_remaining d) else length xs)"
  shows "feed_ok d xs p (CK_HTTP_CHUNKED_DATA, p + n, Some p, n, take_data n d)"
    and "\<not> of_nat n > CK_HTTP_CHUNKED_MAX_BODY - decoder_total_decoded d"
    and "chunked_wf (take_data n d)"
proof -
  have len: "unat (of_nat (length xs) :: u64) = length xs" using assms(4) by simp
  have rem: "decoder_chunk_remaining d \<noteq> 0" using assms(1,2) by (simp add: chunked_wf_def)
  then have pos: "0 < n" using n assms(3) by (auto simp: unat_gt_0)
  have le: "n \<le> length xs" "n \<le> unat (decoder_chunk_remaining d)"
    using n len by (auto simp: word_less_nat_alt)
  show wf: "chunked_wf (take_data n d)"
    using assms(1) by (simp add: chunked_wf_def take_data_def Let_def)
  have "decoder_total_decoded (take_data n d) = decoder_total_decoded d + of_nat n"
    by (simp add: take_data_def Let_def)
  with wf show "feed_ok d xs p (CK_HTTP_CHUNKED_DATA, p + n, Some p, n, take_data n d)"
    using pos le chunked_ref_data [OF assms(2) pos le] by (simp add: feed_ok_def)
  have small: "n < 2 ^ 64" using le(1) assms(4) by simp
  have max: "unat (- 1 :: u64) = 2 ^ 64 - 1"
    by (simp add: unsigned_minus_1_eq_mask mask_eq_exp_minus_1)
  have "unat (- 1 - decoder_total_decoded d) = 2 ^ 64 - 1 - unat (decoder_total_decoded d)"
    by (simp add: unat_sub word_order.extremum max)
  then show "\<not> of_nat n > CK_HTTP_CHUNKED_MAX_BODY - decoder_total_decoded d"
    using assms(4) le(1) small by (simp add: word_less_nat_alt chunked_limits)
qed

lemma append_line_byte_Some:
  assumes "append_line_byte d v = Some d'" and "chunked_wf d"
  shows "chunked_wf d'" and "decoder_state d' = decoder_state d"
    and "decoder_total_decoded d' = decoder_total_decoded d"
  using assms by (auto simp: append_line_byte_def chunked_wf_def chunked_limits split: if_splits)

lemma chunked_wf_updates:
  assumes "chunked_wf d"
  shows "chunked_wf (end_of_size_line n d)"
    and "chunked_wf (d\<lparr>decoder_state := CK_HTTP_CHUNKED_SIZE\<rparr>)"
    and "decoder_trailer_bytes d < CK_HTTP_CHUNKED_MAX_TRAILER_BYTES \<Longrightarrow> k \<le> 2 \<Longrightarrow>
      chunked_wf (count_trailer k d)"
    and "chunked_wf (d\<lparr>decoder_state := CK_HTTP_CHUNKED_DONE\<rparr>)"
    and "decoder_trailer_bytes d < CK_HTTP_CHUNKED_MAX_TRAILER_BYTES \<Longrightarrow>
      \<not> CK_HTTP_CHUNKED_MAX_TRAILERS \<le> decoder_trailer_count d \<Longrightarrow>
      chunked_wf ((count_trailer 2 d)\<lparr>decoder_trailer_count := Suc (decoder_trailer_count d),
        decoder_line := []\<rparr>)"
  using assms by (auto simp: chunked_wf_def end_of_size_line_def count_trailer_def chunked_limits)

lemma decoder_updates [simp]:
  "decoder_total_decoded (end_of_size_line n d) = decoder_total_decoded d"
  "decoder_total_decoded (count_trailer k d) = decoder_total_decoded d"
  "decoder_state (count_trailer k d) = decoder_state d"
  "decoder_line (count_trailer k d) = decoder_line d"
  "decoder_trailer_count (count_trailer k d) = decoder_trailer_count d"
  "decoder_trailer_bytes (count_trailer k d) = decoder_trailer_bytes d + k"
  "decoder_state (end_of_size_line n d) \<noteq> CK_HTTP_CHUNKED_DONE"
  by (simp_all add: end_of_size_line_def count_trailer_def)

text \<open>One pass of the loop of \<open>ck_http_chunked_feed\<close>, over the named decoder updates.\<close>

lemma chunked_feed_loop_step:
  "chunked_feed_loop d (v # xs) p =
    (case decoder_state d of
       CK_HTTP_CHUNKED_SIZE \<Rightarrow>
         if v = CR then
           (case xs of
              [] \<Rightarrow> (CK_HTTP_CHUNKED_INCOMPLETE, p, None, 0, d)
            | lf # xs' \<Rightarrow>
                if lf \<noteq> LF then (CK_HTTP_CHUNKED_BAD_REQUEST, 0, None, 0, d)
                else (case parse_chunk_size (decoder_line d) of
                        None \<Rightarrow> (CK_HTTP_CHUNKED_BAD_REQUEST, 0, None, 0, d)
                      | Some n \<Rightarrow> chunked_feed_loop (end_of_size_line n d) xs' (p + 2)))
         else if v = LF then (CK_HTTP_CHUNKED_BAD_REQUEST, 0, None, 0, d)
         else (case append_line_byte d v of
                 None \<Rightarrow> (CK_HTTP_CHUNKED_TOO_LARGE, 0, None, 0, d)
               | Some d' \<Rightarrow> chunked_feed_loop d' xs (p + 1))
     | CK_HTTP_CHUNKED_DATA_STATE \<Rightarrow>
         let n = (if decoder_chunk_remaining d < of_nat (length (v # xs))
                  then unat (decoder_chunk_remaining d) else length (v # xs)) in
         if of_nat n > CK_HTTP_CHUNKED_MAX_BODY - decoder_total_decoded d
         then (CK_HTTP_CHUNKED_TOO_LARGE, 0, None, 0, d)
         else (CK_HTTP_CHUNKED_DATA, p + n, Some p, n, take_data n d)
     | CK_HTTP_CHUNKED_DATA_CRLF \<Rightarrow>
         (case xs of
            [] \<Rightarrow> (CK_HTTP_CHUNKED_INCOMPLETE, p, None, 0, d)
          | lf # xs' \<Rightarrow>
              if v \<noteq> CR \<or> lf \<noteq> LF then (CK_HTTP_CHUNKED_BAD_REQUEST, 0, None, 0, d)
              else chunked_feed_loop (d\<lparr>decoder_state := CK_HTTP_CHUNKED_SIZE\<rparr>) xs' (p + 2))
     | CK_HTTP_CHUNKED_TRAILERS \<Rightarrow>
         if decoder_trailer_bytes d \<ge> CK_HTTP_CHUNKED_MAX_TRAILER_BYTES
         then (CK_HTTP_CHUNKED_TOO_LARGE, 0, None, 0, d)
         else if v = CR then
           (case xs of
              [] \<Rightarrow> (CK_HTTP_CHUNKED_INCOMPLETE, p, None, 0, d)
            | lf # xs' \<Rightarrow>
                if lf \<noteq> LF then (CK_HTTP_CHUNKED_BAD_REQUEST, 0, None, 0, count_trailer 1 d)
                else if decoder_line d = []
                then (CK_HTTP_CHUNKED_COMPLETE, p + 2, None, 0,
                       (count_trailer 2 d)\<lparr>decoder_state := CK_HTTP_CHUNKED_DONE\<rparr>)
                else if decoder_trailer_count d \<ge> CK_HTTP_CHUNKED_MAX_TRAILERS
                        \<or> \<not> valid_trailer_field (decoder_line d)
                then (CK_HTTP_CHUNKED_BAD_REQUEST, 0, None, 0, count_trailer 2 d)
                else chunked_feed_loop
                       ((count_trailer 2 d)\<lparr>decoder_trailer_count := decoder_trailer_count d + 1,
                          decoder_line := []\<rparr>) xs' (p + 2))
         else if v = LF then (CK_HTTP_CHUNKED_BAD_REQUEST, 0, None, 0, count_trailer 1 d)
         else (case append_line_byte (count_trailer 1 d) v of
                 None \<Rightarrow> (CK_HTTP_CHUNKED_TOO_LARGE, 0, None, 0, count_trailer 1 d)
               | Some d' \<Rightarrow> chunked_feed_loop d' xs (p + 1))
     | _ \<Rightarrow> (CK_HTTP_CHUNKED_BAD_REQUEST, 0, None, 0, d))"
proof -
  have nless: "\<not> CK_HTTP_CHUNKED_MAX_BODY < w" for w
    by (simp add: chunked_limits not_less word_order.extremum)
  show ?thesis
    unfolding chunked_feed_loop.simps end_of_size_line_def take_data_def count_trailer_def Let_def
    by (cases "decoder_state d") (simp_all add: nless split: list.split)
qed

declare chunked_feed_loop.simps(2) [simp del]

lemma feed_ok_stop:
  "chunked_wf d' \<Longrightarrow> decoder_total_decoded d' = decoder_total_decoded d \<Longrightarrow> r \<noteq> CK_HTTP_CHUNKED_DATA \<Longrightarrow> r \<in> {CK_HTTP_CHUNKED_BAD_REQUEST, CK_HTTP_CHUNKED_TOO_LARGE} \<Longrightarrow>
   chunked_ref d xs = (r, [], rest, d') \<Longrightarrow> feed_ok d xs p (r, 0, None, 0, d')"
  "chunked_wf d' \<Longrightarrow> decoder_total_decoded d' = decoder_total_decoded d \<Longrightarrow> r \<in> {CK_HTTP_CHUNKED_INCOMPLETE, CK_HTTP_CHUNKED_COMPLETE} \<Longrightarrow> k \<le> length xs \<Longrightarrow>
   chunked_ref d xs = (r, [], drop k xs, d') \<Longrightarrow> feed_ok d xs p (r, p + k, None, 0, d')"
  by (auto simp: feed_ok_def)

lemma feed_ok_wait:
  "chunked_wf d \<Longrightarrow> chunked_ref d xs = (CK_HTTP_CHUNKED_INCOMPLETE, [], xs, d) \<Longrightarrow>
   feed_ok d xs p (CK_HTTP_CHUNKED_INCOMPLETE, p, None, 0, d)"
  using feed_ok_stop(2) [where d = d and d' = d and r = CK_HTTP_CHUNKED_INCOMPLETE and k = 0 and xs = xs and p = p] by simp

lemma feed_ok_complete:
  "chunked_wf d' \<Longrightarrow> decoder_total_decoded d' = decoder_total_decoded d \<Longrightarrow> chunked_ref d (v # lf # xs) = (CK_HTTP_CHUNKED_COMPLETE, [], xs, d') \<Longrightarrow>
   feed_ok d (v # lf # xs) p (CK_HTTP_CHUNKED_COMPLETE, Suc (Suc p), None, 0, d')"
  using feed_ok_stop(2) [where d = d and d' = d' and r = CK_HTTP_CHUNKED_COMPLETE and k = 2
    and xs = "v # lf # xs" and p = p] by simp

lemma chunked_feed_loop_ok:
  assumes "chunked_wf d" and "decoder_state d \<noteq> CK_HTTP_CHUNKED_DONE"
    and "unat (decoder_total_decoded d) + length xs < 2 ^ 64"
  shows "feed_ok d xs p (chunked_feed_loop d xs p)"
  using assms
proof (induction "length xs" arbitrary: d xs p rule: less_induct)
  case less
  note IH = less.hyps and wf = less.prems(1) and len = less.prems(3)
  show ?case
  proof (cases xs)
    case Nil
    with less.prems show ?thesis by (auto simp: feed_ok_def)
  next
    case (Cons v ys)
    have one: "feed_ok d xs p (chunked_feed_loop e ys (Suc p))"
      if "chunked_wf e" "decoder_state e \<noteq> CK_HTTP_CHUNKED_DONE"
        "decoder_total_decoded e = decoder_total_decoded d" "chunked_ref d xs = chunked_ref e ys" for e
      using that IH [of ys e "Suc p"] len
      by (intro feed_ok_shift [of e ys p 1 _ xs]) (simp_all add: Cons)
    have two: "feed_ok d (w # lf # zs) p (chunked_feed_loop e zs (Suc (Suc p)))"
      if "v # ys = w # lf # zs" "chunked_wf e" "decoder_state e \<noteq> CK_HTTP_CHUNKED_DONE"
        "decoder_total_decoded e = decoder_total_decoded d"
        "chunked_ref d (w # lf # zs) = chunked_ref e zs" for e w lf zs
      using that IH [of zs e "Suc (Suc p)"] len
      by (intro feed_ok_shift [of e zs p 2 _ "w # lf # zs"]) (simp_all add: Cons)
    show ?thesis
    proof (cases "decoder_state d")
      case CK_HTTP_CHUNKED_SIZE
      show ?thesis
      proof (cases "v = CR")
        case True
        with CK_HTTP_CHUNKED_SIZE wf show ?thesis
          by (cases ys)
            (auto simp: Cons chunked_feed_loop_step chunked_ref_step chunked_wf_updates
              intro!: feed_ok_stop feed_ok_wait two split: option.split)
      next
        case False
        with CK_HTTP_CHUNKED_SIZE wf one [unfolded Cons] show ?thesis
          by (auto simp: Cons chunked_feed_loop_step chunked_ref_step append_line_byte_Some
              intro!: feed_ok_stop split: option.split)
      qed
    next
      case CK_HTTP_CHUNKED_DATA_STATE
      have "xs \<noteq> []" by (simp add: Cons)
      with feed_ok_data [OF wf CK_HTTP_CHUNKED_DATA_STATE _ len refl] CK_HTTP_CHUNKED_DATA_STATE
      show ?thesis by (simp only: Cons chunked_feed_loop_step ck_http_chunked_state.case Let_def) simp
    next
      case CK_HTTP_CHUNKED_DATA_CRLF
      with wf show ?thesis
        by (cases ys)
          (auto simp: Cons chunked_feed_loop_step chunked_ref_step chunked_wf_updates
            intro!: feed_ok_stop feed_ok_wait two)
    next
      case CK_HTTP_CHUNKED_TRAILERS
      show ?thesis
      proof (cases "decoder_trailer_bytes d < CK_HTTP_CHUNKED_MAX_TRAILER_BYTES \<and> v = CR")
        case True
        with CK_HTTP_CHUNKED_TRAILERS wf show ?thesis
          by (cases ys)
            (auto simp: Cons chunked_feed_loop_step chunked_ref_step chunked_wf_updates
              intro!: feed_ok_stop feed_ok_wait feed_ok_complete two)
      next
        case False
        show ?thesis
        proof (cases "append_line_byte (count_trailer (Suc 0) d) v")
          case None
          with CK_HTTP_CHUNKED_TRAILERS wf False show ?thesis
            by (auto simp: Cons chunked_feed_loop_step chunked_ref_step chunked_wf_updates
                intro!: feed_ok_stop)
        next
          case (Some e)
          have "feed_ok d xs p (chunked_feed_loop e ys (Suc p))"
            if "decoder_trailer_bytes d < CK_HTTP_CHUNKED_MAX_TRAILER_BYTES" "v \<noteq> CR" "v \<noteq> LF"
            using one [of e] that CK_HTTP_CHUNKED_TRAILERS wf append_line_byte_Some [OF Some]
            by (simp add: Cons chunked_ref_step Some chunked_wf_updates)
          with CK_HTTP_CHUNKED_TRAILERS wf False Some show ?thesis
            by (auto simp: Cons chunked_feed_loop_step chunked_ref_step chunked_wf_updates
                intro!: feed_ok_stop)
        qed
      qed
    qed (use less.prems in \<open>auto simp: chunked_wf_def\<close>)
  qed
qed

lemma ck_http_chunked_feed_ok:
  assumes "chunked_wf d" and "unat (decoder_total_decoded d) + length xs < 2 ^ 64"
  shows "feed_ok d xs 0 (ck_http_chunked_feed False d xs)"
proof (cases "decoder_state d = CK_HTTP_CHUNKED_DONE")
  case True
  then have "chunked_ref d xs = (CK_HTTP_CHUNKED_COMPLETE, [], xs, d)"
    by (cases xs) (simp_all add: chunked_ref_step)
  with True assms(1) show ?thesis by (simp add: ck_http_chunked_feed_def feed_ok_def)
next
  case False
  with assms show ?thesis by (simp add: ck_http_chunked_feed_def chunked_feed_loop_ok)
qed

text \<open>
  The way a caller drains one input buffer: feed, take the reported span, drop the consumed
  bytes, feed again, until the decoder reports something other than body data.  The guard
  \<open>0 < c \<le> length xs\<close> makes the recursion total; \<open>ck_http_chunked_feed_ok\<close> shows that it never
  fails.
\<close>

function chunked_run :: "ck_http_chunked_decoder \<Rightarrow> u8 list \<Rightarrow> chunked_decoded" where
  "chunked_run d xs =
    (case ck_http_chunked_feed False d xs of
       (r, c, bd, bl, d') \<Rightarrow>
         (case bd of
            Some off \<Rightarrow>
              if 0 < c \<and> c \<le> length xs
              then prepend_body (take bl (drop off xs)) (chunked_run d' (drop c xs))
              else (r, [], drop c xs, d')
          | None \<Rightarrow> (r, [], drop c xs, d')))"
  by pat_completeness auto
termination
  by (relation "measure (\<lambda>(d, xs). length xs)") auto

declare chunked_run.simps [simp del]

definition chunked_failed :: "ck_http_chunked_result \<Rightarrow> bool" where
  "chunked_failed r \<longleftrightarrow> r = CK_HTTP_CHUNKED_BAD_REQUEST \<or> r = CK_HTTP_CHUNKED_TOO_LARGE"

lemma chunked_failed_simps [simp]:
  "\<not> chunked_failed CK_HTTP_CHUNKED_INCOMPLETE" "\<not> chunked_failed CK_HTTP_CHUNKED_DATA"
  "\<not> chunked_failed CK_HTTP_CHUNKED_COMPLETE" "chunked_failed CK_HTTP_CHUNKED_BAD_REQUEST"
  "chunked_failed CK_HTTP_CHUNKED_TOO_LARGE"
  by (simp_all add: chunked_failed_def)

declare outcome_tuple [simp]

abbreviation chunked_outcome :: "chunked_decoded \<Rightarrow> chunked_decoded" where
  "chunked_outcome \<equiv> outcome chunked_failed"

lemma unat_add_less:
  fixes t :: u64
  assumes "unat t + n < 2 ^ 64"
  shows "unat (t + of_nat n) = unat t + n"
proof -
  have "t + of_nat n = of_nat (unat t + n)" by simp
  then show ?thesis using assms by (simp only: unat_of_nat) simp
qed

lemma chunked_run_ok:
  assumes "chunked_wf d" and "unat (decoder_total_decoded d) + length xs < 2 ^ 64"
    and "chunked_run d xs = (r, body, rest, e)"
  shows "chunked_outcome (r, body, rest, e) = chunked_outcome (chunked_ref d xs)" and "chunked_wf e"
    and "length body + length rest \<le> length xs"
    and "decoder_total_decoded e = decoder_total_decoded d + of_nat (length body)"
proof -
  have "chunked_outcome (r, body, rest, e) = chunked_outcome (chunked_ref d xs) \<and> chunked_wf e
      \<and> length body + length rest \<le> length xs
      \<and> decoder_total_decoded e = decoder_total_decoded d + of_nat (length body)"
    using assms
  proof (induction "length xs" arbitrary: d xs body rule: less_induct)
    case less
    obtain r' c bd bl d' where feed: "ck_http_chunked_feed False d xs = (r', c, bd, bl, d')"
      by (cases "ck_http_chunked_feed False d xs")
    note ok = ck_http_chunked_feed_ok [OF less.prems(1,2), unfolded feed]
    show ?case
    proof (cases r')
      case CK_HTTP_CHUNKED_DATA
      with ok obtain off where off: "bd = Some off" "0 < bl" "c = off + bl" "c \<le> length xs"
        and tot: "decoder_total_decoded d' = decoder_total_decoded d + of_nat bl"
        and ref: "chunked_ref d xs = prepend_body (take bl (drop off xs)) (chunked_ref d' (drop c xs))"
        and wf: "chunked_wf d'"
        by (auto simp: feed_ok_def)
      have run: "chunked_run d xs = prepend_body (take bl (drop off xs)) (chunked_run d' (drop c xs))"
        using off by (subst chunked_run.simps) (simp add: feed)
      then obtain body' where body': "chunked_run d' (drop c xs) = (r, body', rest, e)"
          "body = take bl (drop off xs) @ body'"
        using less.prems(3) prepend_body_eq by metis
      have "unat (decoder_total_decoded d') = unat (decoder_total_decoded d) + bl"
        unfolding tot using off less.prems(2) by (intro unat_add_less) simp
      then have "unat (decoder_total_decoded d') + length (drop c xs) < 2 ^ 64"
        using off less.prems(2) by simp
      from less.hyps [OF _ wf this body'(1)] off
      have "chunked_outcome (r, body', rest, e) = chunked_outcome (chunked_ref d' (drop c xs))" "chunked_wf e"
        "length body' + length rest \<le> length (drop c xs)"
        "decoder_total_decoded e = decoder_total_decoded d' + of_nat (length body')" by auto
      then show ?thesis
        using ref off body'(2) tot
        using outcome_prepend [of chunked_failed "take bl (drop off xs)" "(r, body', rest, e)"]
        by (simp add: algebra_simps)
    qed (use ok less.prems(3) in \<open>auto simp: chunked_run.simps [of d xs] feed feed_ok_def\<close>)
  qed
  then show "chunked_outcome (r, body, rest, e) = chunked_outcome (chunked_ref d xs)" and "chunked_wf e"
    and "length body + length rest \<le> length xs"
    and "decoder_total_decoded e = decoder_total_decoded d + of_nat (length body)" by simp_all
qed

lemma chunked_run_outcome:
  "chunked_wf d \<Longrightarrow> unat (decoder_total_decoded d) + length xs < 2 ^ 64 \<Longrightarrow>
   chunked_outcome (chunked_run d xs) = chunked_outcome (chunked_ref d xs)"
  using chunked_run_ok(1) by (cases "chunked_run d xs") (metis (no_types))

section \<open>Fragmented input\<close>

abbreviation chunked_stream ::
  "ck_http_chunked_decoder \<Rightarrow> u8 list \<Rightarrow> u8 list list \<Rightarrow> chunked_decoded" where
  "chunked_stream \<equiv> stream chunked_run CK_HTTP_CHUNKED_INCOMPLETE"

definition chunked_ok :: "ck_http_chunked_decoder \<Rightarrow> nat \<Rightarrow> bool" where
  "chunked_ok d n \<longleftrightarrow> chunked_wf d \<and> unat (decoder_total_decoded d) + n < 2 ^ 64"

interpretation chunked_decoder:
  resumable chunked_run chunked_ref CK_HTTP_CHUNKED_INCOMPLETE chunked_failed chunked_ok
proof
  fix d e :: ck_http_chunked_decoder and xs body rest :: "u8 list" and n :: nat
  assume "chunked_ok d (length xs + n)" and "chunked_run d xs = (CK_HTTP_CHUNKED_INCOMPLETE, body, rest, e)"
  then show "chunked_ok e (length rest + n)"
    using chunked_run_ok(2-4) [of d xs CK_HTTP_CHUNKED_INCOMPLETE body rest e]
      unat_add_less [of "decoder_total_decoded d" "length body"]
    by (simp add: chunked_ok_def)
qed (auto simp: chunked_ok_def chunked_run_outcome chunked_ref_append)

lemma chunked_wf_init: "chunked_wf (ck_http_chunked_init d)"
  by (simp add: chunked_wf_def ck_http_chunked_init_def chunked_limits)

lemma init_total [simp]: "decoder_total_decoded (ck_http_chunked_init d) = 0"
  by (simp add: ck_http_chunked_init_def)

text \<open>C9: However the network fragments a chunked body, feeding the fragments in order (keeping
  the bytes a feed did not consume) decodes exactly what one feed sequence over the whole
  input decodes: same result, same body, same unread input, same final decoder.\<close>

theorem chunked_stream_fragmentation:
  assumes "length (concat fragments) < 2 ^ 64"
  shows "chunked_outcome (chunked_stream (ck_http_chunked_init d) [] fragments)
    = chunked_outcome (chunked_run (ck_http_chunked_init d) (concat fragments))"
proof -
  have "chunked_ref (ck_http_chunked_init d) [] =
      (CK_HTTP_CHUNKED_INCOMPLETE, [], [], ck_http_chunked_init d)"
    by (simp add: ck_http_chunked_init_def)
  then show ?thesis
    using chunked_decoder.stream_fragmentation [of "ck_http_chunked_init d" fragments] assms
    by (simp add: chunked_ok_def chunked_wf_init)
qed

text \<open>A feed of a well-formed decoder is memory safe and makes its promises: it never
  consumes more than it was given, a reported body span is non-empty, ends where the consumed
  input ends and is counted in \<open>total_decoded\<close>, errors consume nothing and report no span, and
  the decoder stays well-formed (line shorter than its array, trailer limits, a data state only
  with bytes outstanding).\<close>

theorem chunked_feed_safe:
  assumes "chunked_wf d" and "unat (decoder_total_decoded d) + length xs < 2 ^ 64"
    and "ck_http_chunked_feed False d xs = (r, c, bd, bl, d')"
  shows "c \<le> length xs \<and> chunked_wf d'
    \<and> decoder_total_decoded d' = decoder_total_decoded d + of_nat bl
    \<and> (if r = CK_HTTP_CHUNKED_DATA then 0 < bl \<and> bl \<le> c \<and> bd = Some (c - bl)
       else bl = 0 \<and> bd = None)
    \<and> (r \<in> {CK_HTTP_CHUNKED_BAD_REQUEST, CK_HTTP_CHUNKED_TOO_LARGE} \<longrightarrow> c = 0)"
  using ck_http_chunked_feed_ok [OF assms(1,2)] assms(3)
  by (cases r) (auto simp: feed_ok_def)

section \<open>Round trip with an encoder\<close>

text \<open>
  A chunk is a size line (size in hexadecimal, leading zeros and extensions allowed) and its
  data.  The specification of a valid body follows RFC 9112, section 7.1, with the limits of
  the decoder.
\<close>

definition plain_line :: "u8 list \<Rightarrow> bool" where
  "plain_line l \<longleftrightarrow> CR \<notin> set l \<and> LF \<notin> set l \<and> length l < CK_HTTP_CHUNKED_MAX_LINE"

definition chunk_ok :: "u8 list \<times> u8 list \<Rightarrow> bool" where
  "chunk_ok chunk = (case chunk of (l, bytes) \<Rightarrow>
     plain_line l \<and> bytes \<noteq> [] \<and> length bytes < 2 ^ 64
     \<and> parse_chunk_size l = Some (of_nat (length bytes)))"

definition encode_chunk :: "u8 list \<times> u8 list \<Rightarrow> u8 list" where
  "encode_chunk chunk = fst chunk @ [CR, LF] @ snd chunk @ [CR, LF]"

definition encode_body :: "(u8 list \<times> u8 list) list \<Rightarrow> u8 list \<Rightarrow> u8 list list \<Rightarrow> u8 list" where
  "encode_body chunks last_line trailers =
     concat (map encode_chunk chunks) @ last_line @ [CR, LF]
     @ concat (map (\<lambda>t. t @ [CR, LF]) trailers) @ [CR, LF]"

definition trailers_ok :: "u8 list list \<Rightarrow> bool" where
  "trailers_ok ts \<longleftrightarrow> list_all (\<lambda>t. plain_line t \<and> valid_trailer_field t) ts
     \<and> length ts \<le> CK_HTTP_CHUNKED_MAX_TRAILERS
     \<and> sum_list (map (\<lambda>t. length t + 2) ts) < CK_HTTP_CHUNKED_MAX_TRAILER_BYTES"

lemma chunked_ref_size_line:
  assumes "decoder_state d = CK_HTTP_CHUNKED_SIZE" and "CR \<notin> set l" and "LF \<notin> set l"
    and "length (decoder_line d) + length l < CK_HTTP_CHUNKED_MAX_LINE"
  shows "chunked_ref d (l @ xs) = chunked_ref (d\<lparr>decoder_line := decoder_line d @ l\<rparr>) xs"
  using assms
proof (induction l arbitrary: d)
  case (Cons v l)
  then have "append_line_byte d v = Some (d\<lparr>decoder_line := decoder_line d @ [v]\<rparr>)"
    by (simp add: append_line_byte_def)
  with Cons show ?case by (simp add: chunked_ref_step [of d v])
qed simp

lemma chunked_ref_size:
  assumes "decoder_state d = CK_HTTP_CHUNKED_SIZE" and "decoder_line d = []" and "plain_line l"
    and "parse_chunk_size l = Some n"
  shows "chunked_ref d (l @ CR # LF # xs) = chunked_ref (end_of_size_line n d) xs"
  using assms
  by (simp add: chunked_ref_size_line plain_line_def chunked_ref_step end_of_size_line_def)

text \<open>The decoder between two chunks.\<close>

definition at_size :: "ck_http_chunked_decoder \<Rightarrow> bool" where
  "at_size d \<longleftrightarrow> decoder_state d = CK_HTTP_CHUNKED_SIZE \<and> decoder_line d = []
     \<and> decoder_trailer_bytes d = 0 \<and> decoder_trailer_count d = 0"

lemma chunked_ref_chunk:
  assumes "at_size d" and "chunk_ok chunk"
  shows "\<exists>d'. at_size d' \<and>
    chunked_ref d (encode_chunk chunk @ xs) = prepend_body (snd chunk) (chunked_ref d' xs)"
proof -
  obtain l bytes where chunk: "chunk = (l, bytes)" by (cases chunk)
  let ?n = "of_nat (length bytes) :: u64"
  let ?e = "end_of_size_line ?n d"
  have ok: "plain_line l" "bytes \<noteq> []" "parse_chunk_size l = Some ?n"
    and n: "unat ?n = length bytes"
    using assms(2) by (auto simp: chunk_ok_def chunk)
  then have "?n \<noteq> 0" by (metis length_0_conv unat_0)
  then have e: "decoder_state ?e = CK_HTTP_CHUNKED_DATA_STATE" "decoder_chunk_remaining ?e = ?n"
    by (simp_all add: end_of_size_line_def)
  let ?d' = "(take_data (length bytes) ?e)\<lparr>decoder_state := CK_HTTP_CHUNKED_SIZE\<rparr>"
  have "chunked_ref d (encode_chunk chunk @ xs) = chunked_ref ?e (bytes @ CR # LF # xs)"
    using assms(1) ok by (simp add: encode_chunk_def chunk at_size_def chunked_ref_size)
  also have "\<dots> = prepend_body bytes (chunked_ref (take_data (length bytes) ?e) (CR # LF # xs))"
    using chunked_ref_data [OF e(1), of "length bytes" "bytes @ CR # LF # xs"] ok(2) e(2) n by simp
  also have "chunked_ref (take_data (length bytes) ?e) (CR # LF # xs) = chunked_ref ?d' xs"
    by (simp add: chunked_ref_step take_data_def e(2) Let_def)
  finally have "chunked_ref d (encode_chunk chunk @ xs) = prepend_body (snd chunk) (chunked_ref ?d' xs)"
    by (simp add: chunk)
  moreover have "at_size ?d'"
    using assms(1) by (simp add: at_size_def take_data_def end_of_size_line_def Let_def)
  ultimately show ?thesis by blast
qed

lemma chunked_ref_chunks:
  assumes "at_size d" and "list_all chunk_ok chunks"
  shows "\<exists>d'. at_size d' \<and> chunked_ref d (concat (map encode_chunk chunks) @ xs)
    = prepend_body (concat (map snd chunks)) (chunked_ref d' xs)"
  using assms
proof (induction chunks arbitrary: d)
  case Nil
  then show ?case by auto
next
  case (Cons chunk chunks)
  obtain d1 where d1: "at_size d1"
    "\<And>ys. chunked_ref d (encode_chunk chunk @ concat (map encode_chunk chunks) @ xs)
      = prepend_body (snd chunk) (chunked_ref d1 (concat (map encode_chunk chunks) @ xs))"
    using chunked_ref_chunk [of d chunk "concat (map encode_chunk chunks) @ xs"] Cons.prems by auto
  obtain d2 where "at_size d2" "chunked_ref d1 (concat (map encode_chunk chunks) @ xs)
      = prepend_body (concat (map snd chunks)) (chunked_ref d2 xs)"
    using Cons.IH [OF d1(1)] Cons.prems(2) by auto
  with d1(2) show ?case by auto
qed

lemma chunked_ref_trailer_line:
  assumes "decoder_state d = CK_HTTP_CHUNKED_TRAILERS" and "CR \<notin> set t" and "LF \<notin> set t"
    and "length (decoder_line d) + length t < CK_HTTP_CHUNKED_MAX_LINE"
    and "decoder_trailer_bytes d + length t \<le> CK_HTTP_CHUNKED_MAX_TRAILER_BYTES"
  shows "chunked_ref d (t @ xs) =
    chunked_ref (count_trailer (length t) (d\<lparr>decoder_line := decoder_line d @ t\<rparr>)) xs"
  using assms
proof (induction t arbitrary: d)
  case Nil
  then show ?case by (simp add: count_trailer_def)
next
  case (Cons v t)
  let ?e = "(count_trailer 1 d)\<lparr>decoder_line := decoder_line d @ [v]\<rparr>"
  have "append_line_byte (count_trailer 1 d) v = Some ?e"
    using Cons.prems(4) by (simp add: append_line_byte_def)
  then have "chunked_ref d ((v # t) @ xs) = chunked_ref ?e (t @ xs)"
    using Cons.prems by (simp add: chunked_ref_step [of d v])
  also have "\<dots> = chunked_ref (count_trailer (length t) (?e\<lparr>decoder_line := decoder_line ?e @ t\<rparr>)) xs"
    using Cons.prems by (intro Cons.IH) simp_all
  finally show ?case by (simp add: count_trailer_def)
qed

lemma chunked_ref_trailers:
  assumes "decoder_state d = CK_HTTP_CHUNKED_TRAILERS" and "decoder_line d = []"
    and "list_all (\<lambda>t. plain_line t \<and> valid_trailer_field t) ts"
    and "decoder_trailer_count d + length ts \<le> CK_HTTP_CHUNKED_MAX_TRAILERS"
    and "decoder_trailer_bytes d + sum_list (map (\<lambda>t. length t + 2) ts) < CK_HTTP_CHUNKED_MAX_TRAILER_BYTES"
  shows "\<exists>d'. decoder_state d' = CK_HTTP_CHUNKED_DONE \<and>
    chunked_ref d (concat (map (\<lambda>t. t @ [CR, LF]) ts) @ [CR, LF] @ xs)
      = (CK_HTTP_CHUNKED_COMPLETE, [], xs, d')"
  using assms
proof (induction ts arbitrary: d)
  case Nil
  then show ?case by (simp add: chunked_ref_step)
next
  case (Cons t ts)
  let ?rest = "concat (map (\<lambda>t. t @ [CR, LF]) ts) @ [CR, LF] @ xs"
  let ?e = "count_trailer (length t) (d\<lparr>decoder_line := t\<rparr>)"
  let ?f = "(count_trailer 2 ?e)\<lparr>decoder_trailer_count := decoder_trailer_count ?e + 1, decoder_line := []\<rparr>"
  have t: "plain_line t" "valid_trailer_field t" "t \<noteq> []"
    using Cons.prems(3) by (auto simp: valid_trailer_field_def skip_while.simps)
  then have "chunked_ref d (t @ CR # LF # ?rest) = chunked_ref ?e (CR # LF # ?rest)"
    using chunked_ref_trailer_line [of d t "CR # LF # ?rest"] Cons.prems by (simp add: plain_line_def)
  also have "\<dots> = chunked_ref ?f ?rest"
    using Cons.prems t by (simp add: chunked_ref_step [of ?e])
  finally have "chunked_ref d (t @ CR # LF # ?rest) = chunked_ref ?f ?rest" .
  moreover have "\<exists>d'. decoder_state d' = CK_HTTP_CHUNKED_DONE \<and>
      chunked_ref ?f ?rest = (CK_HTTP_CHUNKED_COMPLETE, [], xs, d')"
    using Cons.prems by (intro Cons.IH) simp_all
  ultimately show ?case by simp
qed

lemma chunked_ref_encode_body:
  assumes "list_all chunk_ok chunks" and "plain_line last_line" and "parse_chunk_size last_line = Some 0"
    and "trailers_ok trailers"
  shows "\<exists>d'. decoder_state d' = CK_HTTP_CHUNKED_DONE \<and>
    chunked_ref (ck_http_chunked_init d) (encode_body chunks last_line trailers @ rest)
      = (CK_HTTP_CHUNKED_COMPLETE, concat (map snd chunks), rest, d')"
proof -
  let ?i = "ck_http_chunked_init d" and ?input = "encode_body chunks last_line trailers @ rest"
  let ?tail = "concat (map (\<lambda>t. t @ [CR, LF]) trailers) @ [CR, LF] @ rest"
  have "at_size ?i" by (simp add: at_size_def ck_http_chunked_init_def)
  then obtain d1 where d1: "at_size d1" "chunked_ref ?i ?input
      = prepend_body (concat (map snd chunks)) (chunked_ref d1 (last_line @ CR # LF # ?tail))"
    using chunked_ref_chunks [OF _ assms(1), of ?i "last_line @ CR # LF # ?tail"]
    by (auto simp: encode_body_def)
  let ?e = "end_of_size_line 0 d1"
  have "chunked_ref d1 (last_line @ CR # LF # ?tail) = chunked_ref ?e ?tail"
    using d1(1) assms(2,3) by (intro chunked_ref_size) (simp_all add: at_size_def)
  moreover obtain d' where d': "decoder_state d' = CK_HTTP_CHUNKED_DONE"
    "chunked_ref ?e ?tail = (CK_HTTP_CHUNKED_COMPLETE, [], rest, d')"
    using chunked_ref_trailers [of ?e trailers rest] assms(4) d1(1)
    by (auto simp: trailers_ok_def end_of_size_line_def at_size_def)
  ultimately show ?thesis using d1(2) by auto
qed


text \<open>A decoder whose memory was used before.\<close>

definition stale_decoder :: ck_http_chunked_decoder where
  "stale_decoder = \<lparr>decoder_state = CK_HTTP_CHUNKED_DONE, decoder_chunk_remaining = 7,
     decoder_total_decoded = 5, decoder_line = [1, 2], decoder_trailer_bytes = 9, decoder_trailer_count = 3\<rparr>"


lemma chunked_feed_safe_witness:
  "3 \<le> length [51, CR, LF, 97, 98, 99 :: u8] \<and>
   (case ck_http_chunked_feed False (ck_http_chunked_init stale_decoder) [51, CR, LF, 97, 98, 99] of
      (r, c, bd, bl, d') \<Rightarrow> r = CK_HTTP_CHUNKED_DATA \<and> 0 < bl \<and> bl \<le> c \<and> bd = Some (c - bl) \<and> chunked_wf d')"
proof -
  let ?i = "ck_http_chunked_init stale_decoder" and ?xs = "[51, CR, LF, 97, 98, 99 :: u8]"
  obtain r c bd bl d' where out: "ck_http_chunked_feed False ?i ?xs = (r, c, bd, bl, d')"
    by (cases "ck_http_chunked_feed False ?i ?xs")
  have "fst (ck_http_chunked_feed False ?i ?xs) = CK_HTTP_CHUNKED_DATA" by code_simp
  moreover have "chunked_wf ?i" by code_simp
  moreover have "unat (decoder_total_decoded ?i) + length ?xs < 2 ^ 64" by code_simp
  ultimately show ?thesis using chunked_feed_safe [of ?i ?xs, OF _ _ out] out by simp
qed

lemma chunked_stream_fragmentation_witness:
  "chunked_outcome (chunked_stream (ck_http_chunked_init stale_decoder) [] [[51, CR], [LF, 97], [98, 99, CR]])
    = chunked_outcome (chunked_run (ck_http_chunked_init stale_decoder) (concat [[51, CR], [LF, 97], [98, 99, CR]]))"
  by (rule chunked_stream_fragmentation) code_simp

text \<open>The size of a chunk is accepted exactly when the line starts with at least one digit,
  all bytes up to an optional \<open>;\<close> are hexadecimal digits whose value fits in 64 bits, and the
  extension has no control character but TAB; the result is that value, never a wrapped one.\<close>

theorem parse_chunk_size_exact:
  "parse_chunk_size line =
    (let ds = takeWhile (\<lambda>b. b \<noteq> SEMICOLON) line; ext = dropWhile (\<lambda>b. b \<noteq> SEMICOLON) line in
     if ds \<noteq> [] \<and> list_all is_hex ds \<and> hex_value_from 0 ds < 2 ^ 64 \<and> chunk_ext_ok ext
     then Some (of_nat (hex_value_from 0 ds)) else None)"
  by (rule parse_chunk_size_value)

end
