(* ===== verification/Ck_Ring.thy ===== *)
theory Ck_Ring
  imports Ck_Prelude
begin

text \<open>
  Ring buffers and the queue contract.

  The program has two rings: the request-body byte FIFO (free-running 64-bit counters taken
  modulo the buffer size) and the completion queue (indices kept below the capacity).  This
  theory holds what they share: the view of a ring as a list, the effect of writing at the end
  and of reading from the front of that view, and the contract \<open>bounded_fifo\<close> that both rings
  are shown to satisfy and that clients rely on.
\<close>

section \<open>The contents of a ring\<close>

text \<open>The \<open>n\<close> items that start at position \<open>p\<close>, indices taken modulo the length of the array.\<close>

definition ring_view :: "'a list \<Rightarrow> nat \<Rightarrow> nat \<Rightarrow> 'a list" where
  "ring_view arr p n = map (\<lambda>i. arr ! ((p + i) mod length arr)) [0..<n]"

lemma length_ring_view [simp]: "length (ring_view arr p n) = n"
  by (simp add: ring_view_def)

lemma nth_ring_view [simp]: "i < n \<Longrightarrow> ring_view arr p n ! i = arr ! ((p + i) mod length arr)"
  by (simp add: ring_view_def)

lemma ring_view_0 [simp]: "ring_view arr p 0 = []"
  by (simp add: ring_view_def)

lemma ring_view_mod [simp]: "ring_view arr (p mod length arr) n = ring_view arr p n"
  by (rule nth_equalityI) (simp_all add: mod_add_left_eq)

lemma ring_view_mod_cong:
  "p mod length arr = q mod length arr \<Longrightarrow> ring_view arr p n = ring_view arr q n"
  by (metis ring_view_mod)

lemma ring_view_append: "ring_view arr p (m + n) = ring_view arr p m @ ring_view arr (p + m) n"
  by (rule nth_equalityI) (auto simp: nth_append add.assoc)

lemma take_ring_view: "m \<le> n \<Longrightarrow> take m (ring_view arr p n) = ring_view arr p m"
  by (rule nth_equalityI) simp_all

lemma drop_ring_view: "m \<le> n \<Longrightarrow> drop m (ring_view arr p n) = ring_view arr (p + m) (n - m)"
  by (rule nth_equalityI) (simp_all add: add.assoc)

text \<open>Distinct offsets below the length of the ring address distinct cells.\<close>

lemma ring_offset_inj:
  fixes n :: nat
  assumes "i < n" and "j < n" and "(p + i) mod n = (p + j) mod n"
  shows "i = j"
proof -
  have aux: "a = b" if "a \<le> b" "b < n" "(p + a) mod n = (p + b) mod n" for a b
  proof -
    have "n dvd (p + b) - (p + a)" using that by (subst mod_eq_dvd_iff_nat [symmetric]) simp_all
    then have "n dvd b - a" by simp
    then show ?thesis using that by (cases "b - a = 0") (auto dest: dvd_imp_le)
  qed
  show ?thesis using aux [of i j] aux [of j i] assms by (cases "i \<le> j") simp_all
qed

section \<open>Writing behind and reading from the front\<close>

text \<open>
  Both operations of the byte ring move a run of bytes with at most two \<open>memcpy\<close> calls: up to
  the physical end of the array, then from its start.
\<close>

definition ring_write :: "'a list \<Rightarrow> nat \<Rightarrow> 'a list \<Rightarrow> 'a list" where
  "ring_write arr p data =
    (let first = (if length arr - p mod length arr > length data then length data
                  else length arr - p mod length arr);
         arr' = memcpy_at arr (p mod length arr) (take first data) in
     if length data > first then memcpy_at arr' 0 (drop first data) else arr')"

definition ring_read :: "'a list \<Rightarrow> nat \<Rightarrow> nat \<Rightarrow> 'a list" where
  "ring_read arr p n =
    (let first = (if length arr - p mod length arr > n then n else length arr - p mod length arr) in
     take first (drop (p mod length arr) arr) @ (if n > first then take (n - first) arr else []))"

lemma mod_wrap:
  fixes n :: nat
  assumes "q < n" and "i < n"
  shows "(q + i) mod n = (if q + i < n then q + i else q + i - n)"
  using assms le_mod_geq [of n "q + i"] by (cases "q + i < n") simp_all

lemma ring_read_view:
  assumes "n \<le> length arr"
  shows "ring_read arr p n = ring_view arr p n"
proof (cases "arr = []")
  case True
  with assms show ?thesis by (simp add: ring_read_def)
next
  case False
  define N where "N = length arr"
  define q where "q = p mod N"
  have q: "q < N" using False by (simp add: q_def N_def)
  have cell: "(p + i) mod N = (if q + i < N then q + i else q + i - N)" if "i < n" for i
    using mod_wrap [OF q, of i] that assms unfolding q_def N_def by (simp add: mod_add_left_eq)
  have len: "length arr = N" by (simp add: N_def)
  have "ring_read arr p n = (if N - q > n then take n (drop q arr)
      else drop q arr @ take (n - (N - q)) arr)"
    unfolding ring_read_def Let_def len q_def [symmetric] by (auto simp: len)
  then show ?thesis
    using q assms cell by (intro nth_equalityI) (auto simp: len nth_append add.commute split: if_splits)
qed

lemma ring_write_cases:
  assumes "length data \<le> length arr" and "q = p mod length arr"
  shows "ring_write arr p data =
    (if q + length data \<le> length arr then memcpy_at arr q data
     else memcpy_at (memcpy_at arr q (take (length arr - q) data)) 0 (drop (length arr - q) data))"
  using assms by (auto simp: ring_write_def Let_def)

lemma length_ring_write [simp]:
  assumes "length data \<le> length arr"
  shows "length (ring_write arr p data) = length arr"
proof (cases "arr = []")
  case False
  define q where "q = p mod length arr"
  have "q < length arr" using False by (simp add: q_def)
  then show ?thesis using assms by (simp add: ring_write_cases [OF assms q_def])
qed (use assms in \<open>simp add: ring_write_def\<close>)

text \<open>A cell is either overwritten with the item of its offset, or kept.\<close>

lemma nth_ring_write:
  assumes "length data \<le> length arr" and "i < length arr"
  shows "ring_write arr p data ! ((p + i) mod length arr) =
    (if i < length data then data ! i else arr ! ((p + i) mod length arr))"
proof -
  define N where "N = length arr"
  define q where "q = p mod N"
  have len: "length arr = N" by (simp add: N_def)
  have q: "q < N" using assms(2) unfolding q_def N_def by (intro mod_less_divisor) linarith
  have cell: "(p + i) mod N = (if q + i < N then q + i else q + i - N)"
    using mod_wrap [OF q, of i] assms(2) unfolding q_def N_def by (simp add: mod_add_left_eq)
  show ?thesis
    unfolding ring_write_cases [OF assms(1) refl] len q_def [symmetric] cell
    using q assms by (auto simp: nth_memcpy_at len)
qed

text \<open>Writing behind the view appends to it and keeps it.\<close>

lemma ring_view_ring_write:
  assumes "n + length data \<le> length arr"
  shows "ring_view (ring_write arr (p + n) data) p (n + length data) = ring_view arr p n @ data"
proof (rule nth_equalityI)
  fix i assume "i < length (ring_view (ring_write arr (p + n) data) p (n + length data))"
  then have i: "i < n + length data" by simp
  let ?N = "length arr"
  let ?k = "if i < n then ?N - n + i else i - n"
  have cell: "(p + i) mod ?N = (p + n + ?k) mod ?N"
  proof (cases "i < n")
    case True
    then have "p + n + ?k = p + i + ?N" using assms by simp
    then show ?thesis by (simp only: mod_add_self2)
  qed simp
  have "ring_write arr (p + n) data ! ((p + n + ?k) mod ?N) =
      (if ?k < length data then data ! ?k else arr ! ((p + n + ?k) mod ?N))"
    using assms i by (intro nth_ring_write) (auto split: if_splits)
  then have at: "ring_write arr (p + n) data ! ((p + i) mod ?N) =
      (if ?k < length data then data ! ?k else arr ! ((p + i) mod ?N))"
    by (simp only: cell)
  have len: "length (ring_write arr (p + n) data) = ?N" using assms by simp
  have "i < n \<Longrightarrow> \<not> ?N - n + i < length data" and "\<not> i < n \<Longrightarrow> i - n < length data"
    using i assms by linarith+
  then show "ring_view (ring_write arr (p + n) data) p (n + length data) ! i =
      (ring_view arr p n @ data) ! i"
    using i by (cases "i < n") (simp_all add: nth_append len at)
qed simp

lemma ring_view_update:
  assumes "n < length arr"
  shows "ring_view (arr[(p + n) mod length arr := x]) p (Suc n) = ring_view arr p n @ [x]"
proof (rule nth_equalityI)
  fix i assume "i < length (ring_view (arr[(p + n) mod length arr := x]) p (Suc n))"
  then have i: "i < Suc n" by simp
  have pos: "0 < length arr" using assms by linarith
  have "(p + i) mod length arr = (p + n) mod length arr \<Longrightarrow> i = n"
    using ring_offset_inj [of i "length arr" n p] i assms by simp
  then show "ring_view (arr[(p + n) mod length arr := x]) p (Suc n) ! i = (ring_view arr p n @ [x]) ! i"
    using i pos by (auto simp: nth_append nth_list_update less_Suc_eq)
qed simp

section \<open>Free-running counters\<close>

text \<open>
  Head and tail of the byte ring are 64-bit counters that are never reset.  As the ring size
  divides \<open>2\<^sup>6\<^sup>4\<close>, their wrap-around is invisible.
\<close>

lemma unat_plus_mod:
  fixes w :: u64
  assumes "n dvd 2 ^ 64"
  shows "unat (w + of_nat k) mod n = (unat w + k) mod n"
proof -
  have "w + of_nat k = of_nat (unat w + k)" by simp
  then have "unat (w + of_nat k) = (unat w + k) mod 2 ^ 64"
    by (simp only: unat_of_nat) simp
  with assms show ?thesis by (simp add: mod_mod_cancel)
qed

lemma ring_view_counter:
  fixes w :: u64
  assumes "length arr dvd 2 ^ 64"
  shows "ring_view arr (unat (w + of_nat k)) n = ring_view arr (unat w + k) n"
  by (rule ring_view_mod_cong) (rule unat_plus_mod [OF assms])

lemma counter_used_add:
  fixes head tail :: u64
  assumes "unat (head - tail) + k < 2 ^ 64"
  shows "unat (head + of_nat k - tail) = unat (head - tail) + k"
proof -
  have "head + of_nat k - tail = of_nat (unat (head - tail) + k)" by simp
  then show ?thesis using assms by (simp only: unat_of_nat) simp
qed

lemma counter_used_sub:
  fixes head tail :: u64
  assumes "k \<le> unat (head - tail)"
  shows "unat (head - (tail + of_nat k)) = unat (head - tail) - k"
proof -
  have "unat (head - tail) - k < 2 ^ 64" using unat_u64_less [of "head - tail"] by simp
  moreover have "head - (tail + of_nat k) = of_nat (unat (head - tail) - k)"
    using assms by (simp add: of_nat_diff)
  ultimately show ?thesis by simp
qed

section \<open>The contract of a bounded queue\<close>

text \<open>
  What the two rings promise: the state stands for a list no longer than the capacity; a write
  is all or nothing and appends, and a write of an admissible size (any number of bytes, or one
  record) is accepted whenever the queue is open and has room; a
  read removes a prefix, of positive length when there is anything to read.
\<close>

locale bounded_fifo =
  fixes inv :: "'s \<Rightarrow> bool" and opened :: "'s \<Rightarrow> bool" and admits :: "'a list \<Rightarrow> bool" and contents :: "'s \<Rightarrow> 'a list" and cap :: nat
    and enqueue :: "'a list \<Rightarrow> 's \<Rightarrow> 'a list \<times> 's" and dequeue :: "nat \<Rightarrow> 's \<Rightarrow> 'a list \<times> 's"
  assumes bounded: "inv s \<Longrightarrow> length (contents s) \<le> cap"
    and enqueue_law: "inv s \<Longrightarrow> enqueue xs s = (acc, s') \<Longrightarrow>
      inv s' \<and> contents s' = contents s @ acc \<and> (acc = [] \<or> acc = xs)"
    and enqueue_room: "inv s \<Longrightarrow> opened s \<Longrightarrow> admits xs \<Longrightarrow> length (contents s) + length xs \<le> cap \<Longrightarrow>
      fst (enqueue xs s) = xs"
    and dequeue_law: "inv s \<Longrightarrow> dequeue n s = (out, s') \<Longrightarrow>
      inv s' \<and> contents s = out @ contents s' \<and> length out \<le> n"
    and dequeue_progress: "inv s \<Longrightarrow> 0 < n \<Longrightarrow> contents s \<noteq> [] \<Longrightarrow> fst (dequeue n s) \<noteq> []"

datatype 'a queue_op = Enqueue "'a list" | Dequeue nat

text \<open>An interleaving of a producer and a consumer: \<open>(accepted, delivered, final state)\<close>.\<close>

fun queue_run ::
  "('a list \<Rightarrow> 's \<Rightarrow> 'a list \<times> 's) \<Rightarrow> (nat \<Rightarrow> 's \<Rightarrow> 'a list \<times> 's) \<Rightarrow> 'a queue_op list \<Rightarrow> 's
   \<Rightarrow> 'a list \<times> 'a list \<times> 's" where
  "queue_run enq deq [] s = ([], [], s)"
| "queue_run enq deq (Enqueue xs # ops) s =
    (case enq xs s of (acc, s') \<Rightarrow>
     case queue_run enq deq ops s' of (accepted, delivered, t) \<Rightarrow> (acc @ accepted, delivered, t))"
| "queue_run enq deq (Dequeue n # ops) s =
    (case deq n s of (out, s') \<Rightarrow>
     case queue_run enq deq ops s' of (accepted, delivered, t) \<Rightarrow> (accepted, out @ delivered, t))"

context bounded_fifo
begin

lemma run_inv: "inv s \<Longrightarrow> queue_run enqueue dequeue ops s = (accepted, delivered, t) \<Longrightarrow> inv t"
proof (induction ops arbitrary: s accepted delivered)
  case (Cons op ops)
  then show ?case by (cases op) (auto split: prod.splits dest: enqueue_law dequeue_law)
qed simp

lemma run_order:
  assumes "inv s" and "queue_run enqueue dequeue ops s = (accepted, delivered, t)"
  shows "contents s @ accepted = delivered @ contents t"
  using assms
proof (induction ops arbitrary: s accepted delivered)
  case (Cons op ops)
  show ?case
  proof (cases op)
    case (Enqueue xs)
    obtain acc s' where e: "enqueue xs s = (acc, s')" by fastforce
    obtain accepted' where r: "queue_run enqueue dequeue ops s' = (accepted', delivered, t)"
        "accepted = acc @ accepted'"
      using Cons.prems(2) Enqueue e by (auto split: prod.splits)
    with Cons.IH [OF _ r(1)] enqueue_law [OF Cons.prems(1) e] show ?thesis by simp
  next
    case (Dequeue n)
    obtain out s' where d: "dequeue n s = (out, s')" by fastforce
    obtain delivered' where r: "queue_run enqueue dequeue ops s' = (accepted, delivered', t)"
        "delivered = out @ delivered'"
      using Cons.prems(2) Dequeue d by (auto split: prod.splits)
    with Cons.IH [OF _ r(1)] dequeue_law [OF Cons.prems(1) d] show ?thesis by simp
  qed
qed simp

text \<open>Reading once per item, at most \<open>n > 0\<close> at a time, empties the queue.\<close>

lemma drains:
  assumes "inv s" and "0 < n" and "length (contents s) \<le> k"
    and "queue_run enqueue dequeue (replicate k (Dequeue n)) s = (accepted, delivered, t)"
  shows "contents t = []" and "delivered = contents s"
proof -
  have "contents t = [] \<and> accepted = []"
    using assms
  proof (induction k arbitrary: s delivered)
    case (Suc k)
    obtain out s' where d: "dequeue n s = (out, s')" by fastforce
    obtain delivered' where r:
        "queue_run enqueue dequeue (replicate k (Dequeue n)) s' = (accepted, delivered', t)"
      using Suc.prems(4) d by (auto split: prod.splits)
    note law = dequeue_law [OF Suc.prems(1) d]
    have "length (contents s') \<le> k"
    proof (cases "contents s = []")
      case True
      with law show ?thesis by simp
    next
      case False
      with dequeue_progress [OF Suc.prems(1,2)] d have "0 < length out" by simp
      moreover have "length (contents s) = length out + length (contents s')"
        using law by simp
      ultimately show ?thesis using Suc.prems(3) by linarith
    qed
    with Suc.IH [OF _ Suc.prems(2) _ r] law show ?case by simp
  qed simp
  then show "contents t = []" and "delivered = contents s"
    using run_order [OF assms(1,4)] by simp_all
qed

end

end
