(* ===== verification/Ck_Http_Input.thy ===== *)
theory Ck_Http_Input
  imports Ck_Http_Parser Ck_Http_Chunked Ck_Ring
begin

text \<open>
  The input machine of one HTTP request, \<open>c/http/ck_http_input.[ch]\<close>: header parser, then body
  by content length or by chunks, with a two-phase hand-over of body spans (a span stays pending
  until it is acknowledged).

  A feed takes the address \<open>src\<close> of its data (an offset in the reader's buffer) and the bytes
  there.  Its result is \<open>(result, *consumed, *body_data, *body_length, *input)\<close> with
  \<open>*body_data\<close> an address, \<open>None\<close> for NULL.
\<close>

section \<open>Data\<close>

datatype ck_http_input_result =
    CK_HTTP_INPUT_INCOMPLETE
  | CK_HTTP_INPUT_BODY
  | CK_HTTP_INPUT_COMPLETE
  | CK_HTTP_INPUT_BAD_REQUEST
  | CK_HTTP_INPUT_TOO_LARGE
  | CK_HTTP_INPUT_EOF_INCOMPLETE

record ck_http_input =
  input_parser :: ck_http_parser
  input_chunked :: ck_http_chunked_decoder
  input_request :: ck_http_request
  input_content_length_remaining :: u64
  input_header_complete :: bool
  input_message_complete :: bool
  pending_body_data :: "nat option"
  pending_body_length :: nat
  pending_input_consumed :: nat
  pending_message_complete :: bool

type_synonym input_out =
  "ck_http_input_result \<times> nat \<times> nat option \<times> nat \<times> ck_http_input"

section \<open>Operations\<close>

text \<open>\<open>memset (input, 0, sizeof (*input))\<close>.\<close>

definition zero_input :: ck_http_input where
  "zero_input = \<lparr>input_parser = \<lparr>parser_buffer = [], parser_complete = False\<rparr>,
     input_chunked = \<lparr>decoder_state = CK_HTTP_CHUNKED_SIZE, decoder_chunk_remaining = 0,
       decoder_total_decoded = 0, decoder_line = [], decoder_trailer_bytes = 0, decoder_trailer_count = 0\<rparr>,
     input_request = zero_request, input_content_length_remaining = 0,
     input_header_complete = False, input_message_complete = False,
     pending_body_data = None, pending_body_length = 0, pending_input_consumed = 0,
     pending_message_complete = False\<rparr>"

definition ck_http_input_init :: "ck_http_input \<Rightarrow> ck_http_input" where
  "ck_http_input_init input =
    (let input1 = zero_input in
     input1\<lparr>input_parser := ck_http_parser_init (input_parser input1),
            input_chunked := ck_http_chunked_init (input_chunked input1)\<rparr>)"

fun map_chunked_result :: "ck_http_chunked_result \<Rightarrow> ck_http_input_result" where
  "map_chunked_result CK_HTTP_CHUNKED_INCOMPLETE = CK_HTTP_INPUT_INCOMPLETE"
| "map_chunked_result CK_HTTP_CHUNKED_DATA = CK_HTTP_INPUT_BODY"
| "map_chunked_result CK_HTTP_CHUNKED_COMPLETE = CK_HTTP_INPUT_COMPLETE"
| "map_chunked_result CK_HTTP_CHUNKED_TOO_LARGE = CK_HTTP_INPUT_TOO_LARGE"
| "map_chunked_result CK_HTTP_CHUNKED_BAD_REQUEST = CK_HTTP_INPUT_BAD_REQUEST"

text \<open>The block that follows a completed header: it starts the body or completes the message.\<close>

definition input_start_body :: "ck_http_input \<Rightarrow> ck_http_input" where
  "input_start_body input =
    (let input1 = input\<lparr>input_header_complete := True,
           input_content_length_remaining := request_content_length (input_request input)\<rparr>;
         input2 = (if request_body_mode (input_request input1) = CK_HTTP_BODY_CHUNKED
                   then input1\<lparr>input_chunked := ck_http_chunked_init (input_chunked input1)\<rparr>
                   else input1) in
     if request_body_mode (input_request input2) = CK_HTTP_BODY_NONE
        \<or> (request_body_mode (input_request input2) = CK_HTTP_BODY_CONTENT_LENGTH
           \<and> input_content_length_remaining input2 = 0)
     then input2\<lparr>input_message_complete := True\<rparr> else input2)"

text \<open>The body part of a feed; \<open>consumed\<close> bytes of \<open>data\<close> belong to the header.\<close>

definition input_feed_body :: "ck_http_input \<Rightarrow> nat \<Rightarrow> u8 list \<Rightarrow> nat \<Rightarrow> input_out" where
  "input_feed_body input src data consumed =
    (case request_body_mode (input_request input) of
       CK_HTTP_BODY_CONTENT_LENGTH \<Rightarrow>
         let remaining_input = length data - consumed;
             n = (if input_content_length_remaining input < of_nat remaining_input
                     then unat (input_content_length_remaining input) else remaining_input);
             input' = input\<lparr>pending_body_data := Some (src + consumed),
               pending_body_length := n, pending_input_consumed := n,
               pending_message_complete := (input_content_length_remaining input = of_nat n),
               input_content_length_remaining := input_content_length_remaining input - of_nat n\<rparr> in
         (if n \<noteq> 0 then CK_HTTP_INPUT_BODY else CK_HTTP_INPUT_INCOMPLETE,
          consumed, Some (src + consumed), n, input')
     | CK_HTTP_BODY_CHUNKED \<Rightarrow>
         (case ck_http_chunked_feed False (input_chunked input) (drop consumed data) of
            (chunk_result, chunk_consumed, chunk_data, body_length, chunked) \<Rightarrow>
              let body_data = map_option (\<lambda>off. src + consumed + off) chunk_data;
                  input1 = input\<lparr>input_chunked := chunked\<rparr> in
              if body_length \<noteq> 0 then
                (CK_HTTP_INPUT_BODY, consumed, body_data, body_length,
                 input1\<lparr>pending_body_data := body_data, pending_body_length := body_length,
                   pending_input_consumed := chunk_consumed,
                   pending_message_complete := (chunk_result = CK_HTTP_CHUNKED_COMPLETE)\<rparr>)
              else
                (map_chunked_result chunk_result, consumed + chunk_consumed, body_data, body_length,
                 if chunk_result = CK_HTTP_CHUNKED_COMPLETE
                 then input1\<lparr>input_message_complete := True\<rparr> else input1))
     | CK_HTTP_BODY_NONE \<Rightarrow> (CK_HTTP_INPUT_BAD_REQUEST, consumed, None, 0, input))"

definition ck_http_input_feed :: "bool \<Rightarrow> ck_http_input \<Rightarrow> nat \<Rightarrow> u8 list \<Rightarrow> input_out" where
  "ck_http_input_feed null_arg input src data =
    (if null_arg then (CK_HTTP_INPUT_BAD_REQUEST, 0, None, 0, input)
     else if pending_body_length input \<noteq> 0
     then (CK_HTTP_INPUT_BODY, 0, pending_body_data input, pending_body_length input, input)
     else if input_message_complete input then (CK_HTTP_INPUT_COMPLETE, 0, None, 0, input)
     else if \<not> input_header_complete input then
       (case ck_http_parser_feed False (input_parser input) data (input_request input) of
          (parse_result, header_consumed, parser, request) \<Rightarrow>
            let input1 = input\<lparr>input_parser := parser, input_request := request\<rparr> in
            (case parse_result of
               CK_HTTP_PARSE_INCOMPLETE \<Rightarrow> (CK_HTTP_INPUT_INCOMPLETE, header_consumed, None, 0, input1)
             | CK_HTTP_PARSE_HEADER_TOO_LARGE \<Rightarrow> (CK_HTTP_INPUT_TOO_LARGE, header_consumed, None, 0, input1)
             | CK_HTTP_PARSE_BAD_REQUEST \<Rightarrow> (CK_HTTP_INPUT_BAD_REQUEST, header_consumed, None, 0, input1)
             | CK_HTTP_PARSE_COMPLETE \<Rightarrow>
                 let input2 = input_start_body input1 in
                 if input_message_complete input2
                 then (CK_HTTP_INPUT_COMPLETE, header_consumed, None, 0, input2)
                 else input_feed_body input2 src data header_consumed))
     else input_feed_body input src data 0)"

definition ck_http_input_ack_body :: "bool \<Rightarrow> ck_http_input \<Rightarrow> (nat \<times> ck_http_input) option" where
  "ck_http_input_ack_body null_arg input =
    (if null_arg \<or> pending_body_length input = 0 then None
     else
       let input1 = (if pending_message_complete input
                     then input\<lparr>input_message_complete := True\<rparr> else input) in
       Some (pending_input_consumed input,
             input1\<lparr>pending_body_data := None, pending_body_length := 0,
               pending_input_consumed := 0, pending_message_complete := False\<rparr>))"

definition ck_http_input_eof :: "bool \<Rightarrow> ck_http_input \<Rightarrow> ck_http_input_result" where
  "ck_http_input_eof null_arg input =
    (if null_arg then CK_HTTP_INPUT_BAD_REQUEST
     else if input_message_complete input then CK_HTTP_INPUT_COMPLETE
     else CK_HTTP_INPUT_EOF_INCOMPLETE)"

definition ck_http_input_request :: "ck_http_input option \<Rightarrow> ck_http_request option" where
  "ck_http_input_request input =
    (case input of
       None \<Rightarrow> None
     | Some i \<Rightarrow> if \<not> input_header_complete i then None else Some (input_request i))"

definition ck_http_input_complete :: "ck_http_input option \<Rightarrow> bool" where
  "ck_http_input_complete input =
    (case input of None \<Rightarrow> False | Some i \<Rightarrow> input_message_complete i)"

definition ck_http_input_next_request :: "ck_http_input \<Rightarrow> ck_http_input" where
  "ck_http_input_next_request input =
    (let input1 = zero_input in
     input1\<lparr>input_parser := ck_http_parser_init (input_parser input1),
            input_chunked := ck_http_chunked_init (input_chunked input1)\<rparr>)"

section \<open>The machine as its caller drives it\<close>

text \<open>
  One round of the caller: feed, hand out the span, acknowledge it.  The result is
  \<open>(result, bytes handed out, input used up, machine)\<close>.  \<open>pending_body_data\<close> is dead while
  \<open>pending_body_length\<close> is 0, so it is normalised to \<open>None\<close> there.
\<close>

type_synonym received = "(ck_http_input_result, u8, u8, ck_http_input) decoded"

definition input_step :: "ck_http_input \<Rightarrow> u8 list \<Rightarrow> ck_http_input_result \<times> u8 list \<times> nat \<times> ck_http_input" where
  "input_step i xs =
    (case ck_http_input_feed False i 0 xs of
       (r, c, bd, bl, i') \<Rightarrow>
         (case ck_http_input_ack_body False i' of
            None \<Rightarrow> (r, [], c, i'\<lparr>pending_body_data := None\<rparr>)
          | Some (a, i'') \<Rightarrow> (r, take bl (drop (the bd) xs), c + a, i'')))"

function input_run :: "ck_http_input \<Rightarrow> u8 list \<Rightarrow> received" where
  "input_run i xs =
    (case input_step i xs of
       (r, bs, k, i') \<Rightarrow>
         if r = CK_HTTP_INPUT_BODY \<and> 0 < k \<and> k \<le> length xs
         then prepend_body bs (input_run i' (drop k xs))
         else (r, bs, drop k xs, i'))"
  by pat_completeness auto
termination
  by (relation "measure (\<lambda>(i, xs). length xs)") auto

declare input_run.simps [simp del]

definition input_failed :: "ck_http_input_result \<Rightarrow> bool" where
  "input_failed r \<longleftrightarrow> r = CK_HTTP_INPUT_BAD_REQUEST \<or> r = CK_HTTP_INPUT_TOO_LARGE"

lemma input_failed_simps [simp]:
  "\<not> input_failed CK_HTTP_INPUT_INCOMPLETE" "\<not> input_failed CK_HTTP_INPUT_BODY"
  "\<not> input_failed CK_HTTP_INPUT_COMPLETE" "input_failed CK_HTTP_INPUT_BAD_REQUEST"
  "input_failed CK_HTTP_INPUT_TOO_LARGE" "\<not> input_failed CK_HTTP_INPUT_EOF_INCOMPLETE"
  by (simp_all add: input_failed_def)

section \<open>A reference without spans and acknowledgements\<close>

definition body_ref :: "ck_http_input \<Rightarrow> u8 list \<Rightarrow> received" where
  "body_ref i xs =
    (case request_body_mode (input_request i) of
       CK_HTTP_BODY_CONTENT_LENGTH \<Rightarrow>
         let n = min (unat (input_content_length_remaining i)) (length xs);
             done = (n = unat (input_content_length_remaining i)) in
         (if done then CK_HTTP_INPUT_COMPLETE else CK_HTTP_INPUT_INCOMPLETE, take n xs, drop n xs,
          i\<lparr>input_content_length_remaining := input_content_length_remaining i - of_nat n,
            input_message_complete := done\<rparr>)
     | CK_HTTP_BODY_CHUNKED \<Rightarrow>
         (case chunked_ref (input_chunked i) xs of
            (r, body, rest, d) \<Rightarrow>
              (map_chunked_result r, body, rest,
               i\<lparr>input_chunked := d, input_message_complete := (r = CK_HTTP_CHUNKED_COMPLETE)\<rparr>))
     | CK_HTTP_BODY_NONE \<Rightarrow> (CK_HTTP_INPUT_BAD_REQUEST, [], xs, i))"

definition input_ref :: "ck_http_input \<Rightarrow> u8 list \<Rightarrow> received" where
  "input_ref i xs =
    (if input_message_complete i then (CK_HTTP_INPUT_COMPLETE, [], xs, i)
     else if input_header_complete i then body_ref i xs
     else
       (case ck_http_parser_feed False (input_parser i) xs (input_request i) of
          (parse_result, c, parser, request) \<Rightarrow>
            let i1 = i\<lparr>input_parser := parser, input_request := request\<rparr> in
            (case parse_result of
               CK_HTTP_PARSE_INCOMPLETE \<Rightarrow> (CK_HTTP_INPUT_INCOMPLETE, [], drop c xs, i1)
             | CK_HTTP_PARSE_HEADER_TOO_LARGE \<Rightarrow> (CK_HTTP_INPUT_TOO_LARGE, [], drop c xs, i1)
             | CK_HTTP_PARSE_BAD_REQUEST \<Rightarrow> (CK_HTTP_INPUT_BAD_REQUEST, [], drop c xs, i1)
             | CK_HTTP_PARSE_COMPLETE \<Rightarrow>
                 let i2 = input_start_body i1 in
                 if input_message_complete i2 then (CK_HTTP_INPUT_COMPLETE, [], drop c xs, i2)
                 else body_ref i2 (drop c xs))))"

text \<open>The machine between two rounds.\<close>

definition input_wf :: "ck_http_input \<Rightarrow> bool" where
  "input_wf i \<longleftrightarrow>
     pending_body_data i = None \<and> pending_body_length i = 0 \<and> pending_input_consumed i = 0
   \<and> \<not> pending_message_complete i
   \<and> chunked_wf (input_chunked i)
   \<and> (\<not> input_header_complete i \<longrightarrow> \<not> parser_complete (input_parser i) \<and> \<not> input_message_complete i
        \<and> decoder_total_decoded (input_chunked i) = 0)
   \<and> (input_header_complete i \<and> \<not> input_message_complete i \<longrightarrow>
        request_body_mode (input_request i) \<noteq> CK_HTTP_BODY_NONE
        \<and> (request_body_mode (input_request i) = CK_HTTP_BODY_CONTENT_LENGTH \<longrightarrow>
             input_content_length_remaining i \<noteq> 0))"

definition input_ok :: "ck_http_input \<Rightarrow> nat \<Rightarrow> bool" where
  "input_ok i n \<longleftrightarrow> input_wf i \<and> unat (decoder_total_decoded (input_chunked i)) + n < 2 ^ 64"

lemma input_run_complete:
  assumes "input_message_complete i" and "input_wf i"
  shows "input_run i xs = (CK_HTTP_INPUT_COMPLETE, [], xs, i)"
  using assms
  by (simp add: input_run.simps input_step_def ck_http_input_feed_def ck_http_input_ack_body_def input_wf_def)

section \<open>Rounds in the body\<close>

lemma input_step_content_length:
  assumes "input_wf i" and "input_header_complete i" and "\<not> input_message_complete i"
    and "request_body_mode (input_request i) = CK_HTTP_BODY_CONTENT_LENGTH" and "length xs < 2 ^ 64"
    and n: "n = min (unat (input_content_length_remaining i)) (length xs)"
  shows "input_step i xs =
    (if n \<noteq> 0 then CK_HTTP_INPUT_BODY else CK_HTTP_INPUT_INCOMPLETE, take n xs, n,
     i\<lparr>input_content_length_remaining := input_content_length_remaining i - of_nat n,
       input_message_complete := (n = unat (input_content_length_remaining i))\<rparr>)"
proof -
  let ?rem = "input_content_length_remaining i"
  have "(if ?rem < of_nat (length xs) then unat ?rem else length xs) = n"
    using assms(5) n by (simp add: word_less_nat_alt min_def)
  moreover have "?rem = of_nat n \<longleftrightarrow> n = unat ?rem"
    using unat_u64_less [of ?rem] n by (auto simp: word_unat_eq_iff)
  moreover have "?rem \<noteq> 0" using assms(1-4) by (simp add: input_wf_def)
  ultimately show ?thesis
    using assms(1-4)
    by (auto simp: input_step_def ck_http_input_feed_def input_feed_body_def Let_def
        ck_http_input_ack_body_def input_wf_def unat_eq_0)
qed

lemma input_step_chunked:
  assumes "input_wf i" and "input_header_complete i" and "\<not> input_message_complete i"
    and "request_body_mode (input_request i) = CK_HTTP_BODY_CHUNKED"
    and "unat (decoder_total_decoded (input_chunked i)) + length xs < 2 ^ 64"
    and feed: "ck_http_chunked_feed False (input_chunked i) xs = (r, c, bd, bl, d)"
  shows "input_step i xs = (map_chunked_result r, take bl (drop (the bd) xs), c,
     i\<lparr>input_chunked := d, input_message_complete := (r = CK_HTTP_CHUNKED_COMPLETE)\<rparr>)"
proof -
  have "chunked_wf (input_chunked i)" using assms(1) by (simp add: input_wf_def)
  from ck_http_chunked_feed_ok [OF this assms(5)] feed
  have "bl \<noteq> 0 \<longleftrightarrow> r = CK_HTTP_CHUNKED_DATA" "bl \<noteq> 0 \<Longrightarrow> \<exists>off. bd = Some off"
    by (cases r; auto simp: feed_ok_def)+
  then show ?thesis
    using assms(1-4)
    by (auto simp: input_step_def ck_http_input_feed_def input_feed_body_def feed
        ck_http_input_ack_body_def input_wf_def Let_def)
qed

lemma input_step_header:
  assumes "input_wf i" and "\<not> input_header_complete i"
    and "ck_http_parser_feed False (input_parser i) xs (input_request i) = (CK_HTTP_PARSE_COMPLETE, c, parser, request)"
    and i2: "i2 = input_start_body (i\<lparr>input_parser := parser, input_request := request\<rparr>)"
    and "\<not> input_message_complete i2" and "length xs < 2 ^ 64"
  shows "input_step i xs = (case input_step i2 (drop c xs) of (r, bs, k, i') \<Rightarrow> (r, bs, c + k, i'))"
proof -
  have i2_fields: "input_header_complete i2" "pending_body_length i2 = 0" "pending_input_consumed i2 = 0"
    using assms(1) by (simp_all add: i2 input_start_body_def Let_def input_wf_def)
  have "ck_http_input_feed False i 0 xs = input_feed_body i2 0 xs c"
    using assms by (simp add: ck_http_input_feed_def input_wf_def Let_def)
  moreover have "ck_http_input_feed False i2 0 (drop c xs) = input_feed_body i2 0 (drop c xs) 0"
    using i2_fields assms(5) by (simp add: ck_http_input_feed_def)
  ultimately have feeds: "ck_http_input_feed False i 0 xs = input_feed_body i2 0 xs c"
    "ck_http_input_feed False i2 0 (drop c xs) = input_feed_body i2 0 (drop c xs) 0" by auto
  show ?thesis
  proof (cases "request_body_mode (input_request i2)")
    case CK_HTTP_BODY_NONE
    then show ?thesis
      by (simp add: input_step_def feeds input_feed_body_def ck_http_input_ack_body_def i2_fields(2))
  next
    case CK_HTTP_BODY_CONTENT_LENGTH
    then show ?thesis
      by (simp add: input_step_def feeds input_feed_body_def ck_http_input_ack_body_def Let_def)
  next
    case CK_HTTP_BODY_CHUNKED
    then have "input_chunked i2 = ck_http_chunked_init (input_chunked i)"
      by (simp add: i2 input_start_body_def Let_def split: if_splits)
    then have chunked: "chunked_wf (input_chunked i2)" "decoder_total_decoded (input_chunked i2) = 0"
      by (simp_all add: chunked_wf_init)
    obtain r k bd bl d where feed:
        "ck_http_chunked_feed False (input_chunked i2) (drop c xs) = (r, k, bd, bl, d)"
      by (cases "ck_http_chunked_feed False (input_chunked i2) (drop c xs)")
    have "unat (decoder_total_decoded (input_chunked i2)) + length (drop c xs) < 2 ^ 64"
      using chunked(2) assms(6) by simp
    from ck_http_chunked_feed_ok [OF chunked(1) this] feed
    have "bl \<noteq> 0 \<Longrightarrow> \<exists>off. bd = Some off" by (cases r) (auto simp: feed_ok_def)
    with CK_HTTP_BODY_CHUNKED feed show ?thesis
      by (cases "bl = 0") (auto simp: input_step_def feeds input_feed_body_def ck_http_input_ack_body_def
          Let_def i2_fields(2) add.commute)
  qed
qed

section \<open>The machine agrees with the reference\<close>

lemma input_run_content_length:
  assumes "input_wf i" and "input_header_complete i" and "\<not> input_message_complete i"
    and "request_body_mode (input_request i) = CK_HTTP_BODY_CONTENT_LENGTH" and "length xs < 2 ^ 64"
  shows "input_run i xs = body_ref i xs"
proof -
  let ?rem = "input_content_length_remaining i"
  define n where "n = min (unat ?rem) (length xs)"
  let ?i' = "i\<lparr>input_content_length_remaining := ?rem - of_nat n,
               input_message_complete := (n = unat ?rem)\<rparr>"
  note step = input_step_content_length [OF assms n_def]
  have ref: "body_ref i xs = (if n = unat ?rem then CK_HTTP_INPUT_COMPLETE else CK_HTTP_INPUT_INCOMPLETE,
      take n xs, drop n xs, ?i')"
    using assms(4) by (simp add: body_ref_def n_def Let_def)
  have rem: "?rem \<noteq> 0" using assms(1-4) by (simp add: input_wf_def)
  show ?thesis
  proof (cases "n = 0")
    case True
    moreover have "0 < unat ?rem" using rem by (simp add: unat_gt_0)
    ultimately have "xs = []" "n \<noteq> unat ?rem" by (auto simp: n_def min_def split: if_splits)
    with True step ref show ?thesis by (simp add: input_run.simps)
  next
    case False
    have "n \<le> length xs" by (simp add: n_def)
    with False step have run: "input_run i xs = prepend_body (take n xs) (input_run ?i' (drop n xs))"
      by (simp add: input_run.simps [of i])
    show ?thesis
    proof (cases "n = unat ?rem")
      case True
      then have "input_wf ?i'" using assms(1,2) by (simp add: input_wf_def)
      with True ref run show ?thesis by (simp add: input_run_complete)
    next
      case less: False
      then have len: "n = length xs" and lt: "n < unat ?rem" by (auto simp: n_def)
      then have "unat (?rem - of_nat n) = unat ?rem - n"
        using counter_used_sub [of n ?rem 0] by simp
      then have "?rem - of_nat n \<noteq> 0" using lt by (metis diff_is_0_eq not_le unat_0)
      then have wf: "input_wf ?i'" and "input_content_length_remaining ?i' \<noteq> 0"
        using assms(1-4) less by (simp_all add: input_wf_def)
      then have "input_step ?i' [] = (CK_HTTP_INPUT_INCOMPLETE, [], 0, ?i')"
        using input_step_content_length [OF wf _ _ _ _ refl, of "[]"] assms(2-4) less
        by (simp add: unat_eq_0)
      then show ?thesis using ref run len less by (simp add: input_run.simps)
    qed
  qed
qed

lemma input_run_chunked:
  assumes "input_wf i" and "input_header_complete i" and "\<not> input_message_complete i"
    and "request_body_mode (input_request i) = CK_HTTP_BODY_CHUNKED"
    and "unat (decoder_total_decoded (input_chunked i)) + length xs < 2 ^ 64"
  shows "outcome input_failed (input_run i xs) = outcome input_failed (body_ref i xs)"
  using assms
proof (induction "length xs" arbitrary: i xs rule: less_induct)
  case less
  note wf = less.prems(1)
  let ?d = "input_chunked i"
  obtain r c bd bl d' where feed: "ck_http_chunked_feed False ?d xs = (r, c, bd, bl, d')"
    by (cases "ck_http_chunked_feed False ?d xs")
  have "chunked_wf ?d" using wf by (simp add: input_wf_def)
  note ok = ck_http_chunked_feed_ok [OF this less.prems(5), unfolded feed]
  note step = input_step_chunked [OF less.prems feed]
  let ?i' = "i\<lparr>input_chunked := d', input_message_complete := (r = CK_HTTP_CHUNKED_COMPLETE)\<rparr>"
  show ?case
  proof (cases "r = CK_HTTP_CHUNKED_DATA")
    case True
    with ok obtain off where off: "bd = Some off" "0 < bl" "c = off + bl" "c \<le> length xs"
      and tot: "decoder_total_decoded d' = decoder_total_decoded ?d + of_nat bl"
      and ref: "chunked_ref ?d xs = prepend_body (take bl (drop off xs)) (chunked_ref d' (drop c xs))"
      and wf': "chunked_wf d'"
      by (auto simp: feed_ok_def)
    have "unat (decoder_total_decoded d') = unat (decoder_total_decoded ?d) + bl"
      unfolding tot using off less.prems(5) by (intro unat_add_less) simp
    then have "unat (decoder_total_decoded (input_chunked ?i')) + length (drop c xs) < 2 ^ 64"
      using off less.prems(5) by simp
    moreover have "input_wf ?i'" using wf wf' less.prems(2-4) by (simp add: input_wf_def)
    ultimately have "outcome input_failed (input_run ?i' (drop c xs)) = outcome input_failed (body_ref ?i' (drop c xs))"
      using off True less.prems(2,4) by (intro less.hyps) simp_all
    moreover have "input_run i xs = prepend_body (take bl (drop off xs)) (input_run ?i' (drop c xs))"
      using step off True by (simp add: input_run.simps [of i])
    moreover have "body_ref i xs = prepend_body (take bl (drop off xs)) (body_ref ?i' (drop c xs))"
      using ref less.prems(4) by (simp add: body_ref_def prepend_body_def split: prod.split)
    ultimately show ?thesis by simp
  next
    case False
    with step ok less.prems(4) show ?thesis
      by (cases r) (auto simp: input_run.simps [of i] body_ref_def feed_ok_def)
  qed
qed

lemma input_run_body:
  assumes "input_wf i" and "input_header_complete i" and "\<not> input_message_complete i"
    and "unat (decoder_total_decoded (input_chunked i)) + length xs < 2 ^ 64"
  shows "outcome input_failed (input_run i xs) = outcome input_failed (body_ref i xs)"
proof (cases "request_body_mode (input_request i)")
  case CK_HTTP_BODY_NONE
  with assms show ?thesis by (simp add: input_wf_def)
next
  case CK_HTTP_BODY_CONTENT_LENGTH
  with assms show ?thesis by (simp add: input_run_content_length)
next
  case CK_HTTP_BODY_CHUNKED
  with assms show ?thesis by (simp add: input_run_chunked)
qed

lemma input_start_body_wf:
  fixes p :: ck_http_parser and q :: ck_http_request
  assumes "input_wf i" and "\<not> input_header_complete i"
  defines "i2 \<equiv> input_start_body (i\<lparr>input_parser := p, input_request := q\<rparr>)"
  shows "input_wf i2" and "input_header_complete i2"
    and "decoder_total_decoded (input_chunked i2) = 0"
  using assms(1,2) by (auto simp: i2_def input_start_body_def Let_def input_wf_def chunked_wf_init)

lemma input_step_progress:
  assumes "input_wf i" and "input_header_complete i" and "\<not> input_message_complete i"
    and "unat (decoder_total_decoded (input_chunked i)) + length xs < 2 ^ 64"
    and "input_step i xs = (CK_HTTP_INPUT_BODY, bs, k, i')"
  shows "0 < k \<and> k \<le> length xs"
proof (cases "request_body_mode (input_request i)")
  case CK_HTTP_BODY_NONE
  with assms show ?thesis by (simp add: input_wf_def)
next
  case CK_HTTP_BODY_CONTENT_LENGTH
  with assms input_step_content_length [OF assms(1-3) _ _ refl] show ?thesis by (auto split: if_splits)
next
  case CK_HTTP_BODY_CHUNKED
  obtain r c bd bl d where feed: "ck_http_chunked_feed False (input_chunked i) xs = (r, c, bd, bl, d)"
    by (cases "ck_http_chunked_feed False (input_chunked i) xs")
  have "chunked_wf (input_chunked i)" using assms(1) by (simp add: input_wf_def)
  note ok = ck_http_chunked_feed_ok [OF this assms(4), unfolded feed]
  show ?thesis
    using ok input_step_chunked [OF assms(1-3) CK_HTTP_BODY_CHUNKED assms(4) feed] assms(5)
    by (cases r) (auto simp: feed_ok_def)
qed

lemma input_run_ref:
  assumes "input_ok i (length xs)"
  shows "outcome input_failed (input_run i xs) = outcome input_failed (input_ref i xs)"
proof -
  have wf: "input_wf i" and len: "unat (decoder_total_decoded (input_chunked i)) + length xs < 2 ^ 64"
    using assms by (simp_all add: input_ok_def)
  consider "input_message_complete i" | "\<not> input_message_complete i" "input_header_complete i"
    | (header) "\<not> input_header_complete i" "\<not> input_message_complete i" by blast
  then show ?thesis
  proof cases
    case header
    obtain pr c parser request where feed:
        "ck_http_parser_feed False (input_parser i) xs (input_request i) = (pr, c, parser, request)"
      by (cases "ck_http_parser_feed False (input_parser i) xs (input_request i)")
    let ?i1 = "i\<lparr>input_parser := parser, input_request := request\<rparr>"
    let ?i2 = "input_start_body ?i1"
    show ?thesis
    proof (cases "pr = CK_HTTP_PARSE_COMPLETE")
      case True
      note start = input_start_body_wf [OF wf header(1), of request parser]
      show ?thesis
      proof (cases "input_message_complete ?i2")
        case complete: True
        have "pending_body_length ?i2 = 0" "pending_body_data ?i2 = None" using start(1) by (simp_all add: input_wf_def)
        then have "input_step i xs = (CK_HTTP_INPUT_COMPLETE, [], c, ?i2)"
          using wf header feed True complete
          by (simp add: input_step_def ck_http_input_feed_def ck_http_input_ack_body_def input_wf_def Let_def)
        then show ?thesis
          using header feed True complete by (simp add: input_run.simps [of i] input_ref_def Let_def)
      next
        case going: False
        have c: "c \<le> length xs"
          using feed wf header parser_feed_loop_consumed(1) [of "input_parser i" xs 0]
          by (fastforce simp: ck_http_parser_feed_def input_wf_def)
        have len2: "unat (decoder_total_decoded (input_chunked ?i2)) + length (drop c xs) < 2 ^ 64"
          using start(3) len by simp
        obtain r bs k i' where step2: "input_step ?i2 (drop c xs) = (r, bs, k, i')"
          by (cases "input_step ?i2 (drop c xs)")
        have step: "input_step i xs = (r, bs, c + k, i')"
          using input_step_header [OF wf header(1) feed [unfolded True] refl going] step2 len by simp
        have "outcome input_failed (input_run i xs) = outcome input_failed (input_run ?i2 (drop c xs))"
        proof (cases "r = CK_HTTP_INPUT_BODY")
          case True
          then have "0 < k" "k \<le> length (drop c xs)"
            using input_step_progress [OF start(1,2) going len2] step2 by auto
          moreover from this(2) have "c + k \<le> length xs" using c by simp
          ultimately show ?thesis
            using step step2 True c by (simp add: input_run.simps [of i] input_run.simps [of ?i2] add.commute)
        next
          case False
          then show ?thesis
            using step step2 by (simp add: input_run.simps [of i] input_run.simps [of ?i2] add.commute)
        qed
        then show ?thesis
          using input_run_body [OF start(1,2) going len2] feed True going header
          by (simp add: input_ref_def Let_def)
      qed
    next
      case False
      then show ?thesis
        using wf header feed
        by (cases pr) (simp_all add: input_run.simps [of i] input_ref_def input_step_def ck_http_input_feed_def
            ck_http_input_ack_body_def input_wf_def Let_def)
    qed
  qed (use wf len in \<open>simp_all add: input_run_complete input_run_body input_ref_def\<close>)
qed

section \<open>Resuming\<close>

abbreviation input_resume :: "received \<Rightarrow> u8 list \<Rightarrow> received" where
  "input_resume \<equiv> resume input_ref CK_HTTP_INPUT_INCOMPLETE"

lemma body_ref_append_content_length:
  assumes "input_header_complete i" and "request_body_mode (input_request i) = CK_HTTP_BODY_CONTENT_LENGTH"
  shows "body_ref i (a @ b) = input_resume (body_ref i a) b"
proof (cases "unat (input_content_length_remaining i) \<le> length a")
  case True
  with assms(2) show ?thesis by (simp add: body_ref_def Let_def min_def)
next
  case False
  let ?rem = "input_content_length_remaining i"
  let ?e = "i\<lparr>input_content_length_remaining := ?rem - of_nat (length a), input_message_complete := False\<rparr>"
  have rem: "unat (?rem - of_nat (length a)) = unat ?rem - length a"
    using False counter_used_sub [of "length a" ?rem 0] by simp
  have "body_ref i a = (CK_HTTP_INPUT_INCOMPLETE, a, [], ?e)"
    using False assms(2) by (simp add: body_ref_def Let_def min_def)
  moreover have "input_ref ?e b = body_ref ?e b" using assms(1) by (simp add: input_ref_def)
  moreover have "min (unat ?rem) (length a + length b) = length a + min (unat ?rem - length a) (length b)"
    using False by linarith
  ultimately show ?thesis
    using False assms(2) by (simp add: body_ref_def Let_def rem diff_diff_eq)
qed

lemma body_ref_append:
  assumes "input_header_complete i"
  shows "body_ref i (a @ b) = input_resume (body_ref i a) b"
proof (cases "request_body_mode (input_request i)")
  case CK_HTTP_BODY_NONE
  then show ?thesis by (simp add: body_ref_def)
next
  case CK_HTTP_BODY_CONTENT_LENGTH
  with assms show ?thesis by (rule body_ref_append_content_length)
next
  case CK_HTTP_BODY_CHUNKED
  obtain r body rest d where ref: "chunked_ref (input_chunked i) a = (r, body, rest, d)"
    by (cases "chunked_ref (input_chunked i) a")
  show ?thesis
  proof (cases "r = CK_HTTP_CHUNKED_INCOMPLETE")
    case True
    have "input_ref (i\<lparr>input_chunked := d, input_message_complete := False\<rparr>) (rest @ b)
        = body_ref (i\<lparr>input_chunked := d, input_message_complete := False\<rparr>) (rest @ b)"
      using assms by (simp add: input_ref_def)
    with True CK_HTTP_BODY_CHUNKED ref show ?thesis
      by (simp add: body_ref_def chunked_ref_append prepend_body_def split: prod.split)
  next
    case False
    then have "map_chunked_result r \<noteq> CK_HTTP_INPUT_INCOMPLETE" by (cases r) simp_all
    with False CK_HTTP_BODY_CHUNKED ref show ?thesis
      by (simp add: body_ref_def chunked_ref_append)
  qed
qed

lemma input_ref_append:
  "outcome input_failed (input_ref i (a @ b)) = outcome input_failed (input_resume (input_ref i a) b)"
proof -
  consider "input_message_complete i" | "\<not> input_message_complete i" "input_header_complete i"
    | (header) "\<not> input_header_complete i" "\<not> input_message_complete i" by blast
  then show ?thesis
  proof cases
    case header
    obtain pr c parser request where feed:
        "ck_http_parser_feed False (input_parser i) a (input_request i) = (pr, c, parser, request)"
      by (cases "ck_http_parser_feed False (input_parser i) a (input_request i)")
    let ?i1 = "i\<lparr>input_parser := parser, input_request := request\<rparr>"
    have c: "c \<le> length a" and inc: "pr = CK_HTTP_PARSE_INCOMPLETE \<Longrightarrow> c = length a"
      using feed parser_feed_loop_consumed [of "input_parser i" a 0]
      by (auto simp: ck_http_parser_feed_def split: if_splits)
    show ?thesis
    proof (cases pr)
      case CK_HTTP_PARSE_INCOMPLETE
      obtain pr' c' parser' request' where feed':
          "ck_http_parser_feed False parser b request = (pr', c', parser', request')"
        by (cases "ck_http_parser_feed False parser b request")
      show ?thesis
        using header feed feed' CK_HTTP_PARSE_INCOMPLETE inc
        by (cases pr') (simp_all add: input_ref_def parser_feed_append Let_def)
    next
      case CK_HTTP_PARSE_COMPLETE
      have "input_header_complete (input_start_body ?i1)" by (simp add: input_start_body_def Let_def)
      with header feed CK_HTTP_PARSE_COMPLETE c show ?thesis
        by (simp add: input_ref_def [of i] parser_feed_append Let_def body_ref_append)
    qed (use header feed c in \<open>simp_all add: input_ref_def [of i] parser_feed_append Let_def\<close>)
  qed (simp_all add: input_ref_def [of i] body_ref_append)
qed

text \<open>A machine that asks for more input is well-formed again.\<close>

lemma chunked_ref_incomplete_ok:
  assumes "chunked_ok d (length xs + n)" and "chunked_ref d xs = (CK_HTTP_CHUNKED_INCOMPLETE, body, rest, e)"
  shows "chunked_ok e (length rest + n)"
proof -
  have "chunked_ok d (length xs)" using assms(1) by (simp add: chunked_ok_def)
  then have "chunked_outcome (chunked_run d xs) = (CK_HTTP_CHUNKED_INCOMPLETE, body, rest, e)"
    using chunked_decoder.dec_ref [of d xs] assms(2) by simp
  then have "chunked_run d xs = (CK_HTTP_CHUNKED_INCOMPLETE, body, rest, e)"
    by (cases "chunked_run d xs") (auto split: if_splits)
  with assms(1) show ?thesis by (rule chunked_decoder.dec_ok)
qed

lemma body_ref_incomplete_ok:
  assumes "input_ok i (length xs + n)" and "input_header_complete i" and "\<not> input_message_complete i"
    and "body_ref i xs = (CK_HTTP_INPUT_INCOMPLETE, body, rest, e)"
  shows "input_ok e (length rest + n)"
proof (cases "request_body_mode (input_request i)")
  case CK_HTTP_BODY_NONE
  with assms show ?thesis by (simp add: body_ref_def)
next
  case CK_HTTP_BODY_CONTENT_LENGTH
  let ?rem = "input_content_length_remaining i"
  have e: "length xs < unat ?rem" "rest = []"
      "e = i\<lparr>input_content_length_remaining := ?rem - of_nat (length xs), input_message_complete := False\<rparr>"
    using assms(4) CK_HTTP_BODY_CONTENT_LENGTH by (auto simp: body_ref_def Let_def min_def split: if_splits)
  then have "unat (?rem - of_nat (length xs)) = unat ?rem - length xs"
    using counter_used_sub [of "length xs" ?rem 0] by simp
  then have "?rem - of_nat (length xs) \<noteq> 0" using e(1) by (metis diff_is_0_eq not_le unat_0)
  then show ?thesis
    using assms(1,2) e CK_HTTP_BODY_CONTENT_LENGTH by (simp add: input_ok_def input_wf_def)
next
  case CK_HTTP_BODY_CHUNKED
  obtain r d where ref: "chunked_ref (input_chunked i) xs = (r, body, rest, d)"
    and e: "e = i\<lparr>input_chunked := d, input_message_complete := (r = CK_HTTP_CHUNKED_COMPLETE)\<rparr>"
    and "map_chunked_result r = CK_HTTP_INPUT_INCOMPLETE"
    using assms(4) CK_HTTP_BODY_CHUNKED by (auto simp: body_ref_def split: prod.splits)
  then have r: "r = CK_HTTP_CHUNKED_INCOMPLETE" by (cases r) simp_all
  have "chunked_ok (input_chunked i) (length xs + n)"
    using assms(1) by (simp add: input_ok_def input_wf_def chunked_ok_def)
  then have "chunked_ok d (length rest + n)"
    using chunked_ref_incomplete_ok ref r by blast
  with assms(1,2) e r CK_HTTP_BODY_CHUNKED show ?thesis
    by (simp add: input_ok_def input_wf_def chunked_ok_def)
qed

lemma input_ref_incomplete_ok:
  assumes "input_ok i (length xs + n)" and "input_ref i xs = (CK_HTTP_INPUT_INCOMPLETE, body, rest, e)"
  shows "input_ok e (length rest + n)"
proof -
  have wf: "input_wf i" using assms(1) by (simp add: input_ok_def)
  consider "input_message_complete i" | "\<not> input_message_complete i" "input_header_complete i"
    | (header) "\<not> input_header_complete i" "\<not> input_message_complete i" by blast
  then show ?thesis
  proof cases
    case 1
    with assms show ?thesis by (simp add: input_ref_def)
  next
    case 2
    with assms show ?thesis by (simp add: input_ref_def body_ref_incomplete_ok)
  next
    case header
    obtain pr c parser request where feed:
        "ck_http_parser_feed False (input_parser i) xs (input_request i) = (pr, c, parser, request)"
      by (cases "ck_http_parser_feed False (input_parser i) xs (input_request i)")
    let ?i2 = "input_start_body (i\<lparr>input_parser := parser, input_request := request\<rparr>)"
    note start = input_start_body_wf [OF wf header(1), of request parser]
    have "pr = CK_HTTP_PARSE_INCOMPLETE \<Longrightarrow> \<not> parser_complete parser"
      using feed wf header parser_feed_loop_INCOMPLETE [of "input_parser i" xs 0]
      by (auto simp: ck_http_parser_feed_def input_wf_def)
    moreover have "input_ok ?i2 (length (drop c xs) + n)"
      using start(1,3) assms(1) header(1) wf by (auto simp: input_ok_def input_wf_def [of i])
    ultimately show ?thesis
      using assms header feed body_ref_incomplete_ok [of ?i2 "drop c xs" n body rest e] start(2)
      by (cases pr) (auto simp: input_ref_def Let_def input_ok_def input_wf_def split: if_splits)
  qed
qed

interpretation input_machine:
  resumable input_run input_ref CK_HTTP_INPUT_INCOMPLETE input_failed input_ok
proof
  fix i e :: ck_http_input and xs body rest :: "u8 list" and n :: nat
  assume ok: "input_ok i (length xs + n)" and run: "input_run i xs = (CK_HTTP_INPUT_INCOMPLETE, body, rest, e)"
  from ok have "input_ok i (length xs)" by (simp add: input_ok_def)
  then have "outcome input_failed (input_ref i xs) = (CK_HTTP_INPUT_INCOMPLETE, body, rest, e)"
    using input_run_ref [of i xs] run by simp
  then have "input_ref i xs = (CK_HTTP_INPUT_INCOMPLETE, body, rest, e)"
    by (cases "input_ref i xs") (auto split: if_splits)
  with ok show "input_ok e (length rest + n)" by (rule input_ref_incomplete_ok)
qed (auto simp: input_run_ref input_ref_append input_ok_def)

section \<open>Properties\<close>

lemma input_init_eq: "ck_http_input_init i = zero_input"
  by (simp add: ck_http_input_init_def zero_input_def ck_http_parser_init_def ck_http_chunked_init_def)

lemma input_init_ok: "n < 2 ^ 64 \<Longrightarrow> input_ok (ck_http_input_init i) n"
  by (simp add: input_init_eq input_ok_def input_wf_def zero_input_def chunked_wf_def chunked_limits)

lemma input_init_idle:
  "input_ref (ck_http_input_init i) [] = (CK_HTTP_INPUT_INCOMPLETE, [], [], ck_http_input_init i)"
  by (simp add: input_init_eq input_ref_def zero_input_def ck_http_parser_feed_def)

abbreviation input_stream :: "ck_http_input \<Rightarrow> u8 list \<Rightarrow> u8 list list \<Rightarrow> received" where
  "input_stream \<equiv> stream input_run CK_HTTP_INPUT_INCOMPLETE"

text \<open>
  C5. The input machine is independent of the fragmentation of the byte stream: header and body
  may be cut anywhere, inside a line, a chunk size or a CRLF; result, body, unread input and final
  machine are those of one buffer that holds everything.
\<close>

theorem input_stream_fragmentation:
  assumes "length (concat fragments) < 2 ^ 64"
  shows "outcome input_failed (input_stream (ck_http_input_init i) [] fragments)
    = outcome input_failed (input_run (ck_http_input_init i) (concat fragments))"
  by (rule input_machine.stream_fragmentation [OF input_init_ok [OF assms] input_init_idle])

text \<open>How the body of a request with a given head appears on the wire.\<close>

inductive on_wire :: "ck_http_request \<Rightarrow> u8 list \<Rightarrow> u8 list \<Rightarrow> bool" where
  no_body: "request_body_mode req = CK_HTTP_BODY_NONE \<Longrightarrow> on_wire req [] []"
| with_length: "request_body_mode req = CK_HTTP_BODY_CONTENT_LENGTH \<Longrightarrow>
    unat (request_content_length req) = length body \<Longrightarrow> on_wire req body body"
| in_chunks: "request_body_mode req = CK_HTTP_BODY_CHUNKED \<Longrightarrow> list_all chunk_ok chunks \<Longrightarrow>
    plain_line last_line \<Longrightarrow> parse_chunk_size last_line = Some 0 \<Longrightarrow> trailers_ok trailers \<Longrightarrow>
    on_wire req (concat (map snd chunks)) (encode_body chunks last_line trailers)"

text \<open>\<open>hdr\<close> is a header block that the parser accepts as \<open>req\<close>.\<close>

definition accepted_head :: "u8 list \<Rightarrow> ck_http_request \<Rightarrow> bool" where
  "accepted_head hdr req \<longleftrightarrow> header_block_end hdr = Some (length hdr)
     \<and> length hdr \<le> CK_HTTP_MAX_HEADER_BYTES
     \<and> parse_header_block hdr (length hdr) = (CK_HTTP_PARSE_COMPLETE, req)"

lemma header_block_end_append:
  assumes "header_block_end hdr = Some n"
  shows "header_block_end (hdr @ xs) = Some n"
  using assms by (simp add: header_block_end_Some)

lemma accepted_head_feed:
  assumes "accepted_head hdr req"
  shows "ck_http_parser_feed False \<lparr>parser_buffer = [], parser_complete = False\<rparr> (hdr @ xs) zero_request
    = (CK_HTTP_PARSE_COMPLETE, length hdr, \<lparr>parser_buffer = hdr, parser_complete = True\<rparr>, req)"
proof -
  have "no_blank_line []" by (simp add: no_blank_line_def ends_with_blank_line_def)
  from parser_feed_loop_spec [OF this, of "hdr @ xs" zero_request]
  have "parser_feed_loop \<lparr>parser_buffer = [], parser_complete = False\<rparr> (hdr @ xs) 0 zero_request
      = parser_feed_spec (hdr @ xs) zero_request" by simp
  with assms header_block_end_append [of hdr "length hdr" xs] show ?thesis
    by (simp add: ck_http_parser_feed_def accepted_head_def parser_feed_spec_def)
qed

lemma body_ref_on_wire:
  assumes "on_wire (input_request i) body wire"
    and "i = input_start_body j" and "\<not> input_message_complete i"
    and "\<not> input_message_complete j"
  shows "\<exists>e. input_message_complete e \<and> input_request e = input_request i
    \<and> body_ref i (wire @ rest) = (CK_HTTP_INPUT_COMPLETE, body, rest, e)"
  using assms(1)
proof cases
  case no_body
  with assms(2,3) show ?thesis by (simp add: input_start_body_def Let_def split: if_splits)
next
  case with_length
  moreover have "input_content_length_remaining i = request_content_length (input_request i)"
    by (simp add: assms(2) input_start_body_def Let_def)
  ultimately show ?thesis by (simp add: body_ref_def Let_def)
next
  case (in_chunks chunks last_line trailers)
  then have "input_chunked i = ck_http_chunked_init (input_chunked j)"
    by (simp add: assms(2) input_start_body_def Let_def split: if_splits)
  with chunked_ref_encode_body [OF in_chunks(4-7), of "input_chunked j" rest] in_chunks show ?thesis
    by (auto simp: body_ref_def)
qed

lemma input_delivers:
  assumes "accepted_head hdr req" and "on_wire req body wire" and "length (hdr @ wire @ rest) < 2 ^ 64"
  shows "\<exists>e. input_message_complete e \<and> input_request e = req
    \<and> input_run (ck_http_input_init i) (hdr @ wire @ rest) = (CK_HTTP_INPUT_COMPLETE, body, rest, e)"
proof -
  let ?j = "zero_input\<lparr>input_parser := \<lparr>parser_buffer = hdr, parser_complete = True\<rparr>, input_request := req\<rparr>"
  let ?i2 = "input_start_body ?j"
  have feed: "ck_http_parser_feed False (input_parser zero_input) (hdr @ wire @ rest) (input_request zero_input)
      = (CK_HTTP_PARSE_COMPLETE, length hdr, \<lparr>parser_buffer = hdr, parser_complete = True\<rparr>, req)"
    using accepted_head_feed [OF assms(1), of "wire @ rest"] by (simp add: zero_input_def)
  have req: "input_request ?i2 = req" by (simp add: input_start_body_def Let_def)
  have new: "\<not> input_message_complete zero_input" "\<not> input_header_complete zero_input"
    by (simp_all add: zero_input_def)
  have "\<exists>e. input_message_complete e \<and> input_request e = req
      \<and> input_ref zero_input (hdr @ wire @ rest) = (CK_HTTP_INPUT_COMPLETE, body, rest, e)"
  proof (cases "input_message_complete ?i2")
    case True
    have "request_body_mode req = CK_HTTP_BODY_NONE
        \<or> request_body_mode req = CK_HTTP_BODY_CONTENT_LENGTH \<and> request_content_length req = 0"
    proof (rule ccontr)
      assume "\<not> ?thesis"
      then have "input_message_complete ?i2 = input_message_complete zero_input"
        by (auto simp: input_start_body_def Let_def)
      with True new(1) show False by simp
    qed
    with assms(2) have "body = [] \<and> wire = []" by (auto elim: on_wire.cases)
    with True feed new req show ?thesis by (simp add: input_ref_def)
  next
    case False
    have "input_ref zero_input (hdr @ wire @ rest) = body_ref ?i2 (wire @ rest)"
      using False feed new by (simp add: input_ref_def Let_def)
    moreover have "on_wire (input_request ?i2) body wire" using assms(2) req by simp
    moreover have "\<not> input_message_complete ?j" using new(1) by simp
    ultimately show ?thesis using body_ref_on_wire [OF _ refl False] req by metis
  qed
  then obtain e where e: "input_message_complete e" "input_request e = req"
      "input_ref zero_input (hdr @ wire @ rest) = (CK_HTTP_INPUT_COMPLETE, body, rest, e)" by blast
  have "outcome input_failed (input_run zero_input (hdr @ wire @ rest)) = (CK_HTTP_INPUT_COMPLETE, body, rest, e)"
    using input_run_ref [OF input_init_ok [OF assms(3)]] e(3) by (simp add: input_init_eq)
  then have "input_run zero_input (hdr @ wire @ rest) = (CK_HTTP_INPUT_COMPLETE, body, rest, e)"
    by (cases "input_run zero_input (hdr @ wire @ rest)") (auto split: if_splits)
  with e(1,2) show ?thesis by (auto simp: input_init_eq)
qed

text \<open>
  C4. A message is delivered exactly, however it is fragmented: from an initialised machine, a
  header block that the parser accepts followed by its body in the announced framing (none,
  content length or chunks) completes with the parsed request and exactly the body bytes, and the
  bytes behind the message are left for the next request.
\<close>

theorem input_delivers_message:
  assumes "accepted_head hdr req" and "on_wire req body wire"
    and "concat fragments = hdr @ wire @ rest" and "length (hdr @ wire @ rest) < 2 ^ 64"
  shows "\<exists>e. input_message_complete e \<and> input_request e = req
    \<and> input_stream (ck_http_input_init i) [] fragments = (CK_HTTP_INPUT_COMPLETE, body, rest, e)"
proof -
  obtain e where e: "input_message_complete e" "input_request e = req"
      "input_run (ck_http_input_init i) (hdr @ wire @ rest) = (CK_HTTP_INPUT_COMPLETE, body, rest, e)"
    using input_delivers [OF assms(1,2,4)] by blast
  have "outcome input_failed (input_stream (ck_http_input_init i) [] fragments)
      = outcome input_failed (input_run (ck_http_input_init i) (concat fragments))"
    using assms(3,4) by (intro input_machine.stream_fragmentation input_init_ok input_init_idle) simp
  then have "outcome input_failed (input_stream (ck_http_input_init i) [] fragments)
      = (CK_HTTP_INPUT_COMPLETE, body, rest, e)"
    using assms(3) e(3) by simp
  then have "input_stream (ck_http_input_init i) [] fragments = (CK_HTTP_INPUT_COMPLETE, body, rest, e)"
    by (cases "input_stream (ck_http_input_init i) [] fragments") (auto split: if_splits)
  with e(1,2) show ?thesis by blast
qed

text \<open>A pipelined connection: complete a request, start the next one on the bytes that are left.\<close>

primrec input_session :: "nat \<Rightarrow> ck_http_input \<Rightarrow> u8 list \<Rightarrow> (ck_http_request \<times> u8 list) list \<times> u8 list" where
  "input_session 0 i xs = ([], xs)"
| "input_session (Suc n) i xs =
    (case input_run i xs of
       (r, body, rest, e) \<Rightarrow>
         if r = CK_HTTP_INPUT_COMPLETE then
           (case input_session n (ck_http_input_next_request e) rest of
              (requests, left) \<Rightarrow> ((input_request e, body) # requests, left))
         else ([], xs))"

type_synonym message = "u8 list \<times> ck_http_request \<times> u8 list \<times> u8 list"

fun message_ok :: "message \<Rightarrow> bool" where
  "message_ok (hdr, req, body, wire) \<longleftrightarrow> accepted_head hdr req \<and> on_wire req body wire"

fun message_bytes :: "message \<Rightarrow> u8 list" where
  "message_bytes (hdr, req, body, wire) = hdr @ wire"

fun message_request :: "message \<Rightarrow> ck_http_request \<times> u8 list" where
  "message_request (hdr, req, body, wire) = (req, body)"

text \<open>
  C3. Pipelined requests do not bleed into each other: on the concatenation of any number of
  valid messages the machine yields their requests and bodies, in order, and leaves exactly what
  follows the last one.
\<close>

theorem input_pipeline:
  assumes "list_all message_ok ms" and "length (concat (map message_bytes ms) @ rest) < 2 ^ 64"
  shows "input_session (length ms) (ck_http_input_init i) (concat (map message_bytes ms) @ rest)
    = (map message_request ms, rest)"
  using assms
proof (induction ms arbitrary: i)
  case (Cons m ms)
  obtain hdr req body wire where m: "m = (hdr, req, body, wire)" by (cases m)
  let ?more = "concat (map message_bytes ms) @ rest"
  have ok: "accepted_head hdr req" "on_wire req body wire" and len: "length (hdr @ wire @ ?more) < 2 ^ 64"
    using Cons.prems by (simp_all add: m)
  obtain e where "input_request e = req"
      "input_run (ck_http_input_init i) (hdr @ wire @ ?more) = (CK_HTTP_INPUT_COMPLETE, body, ?more, e)"
    using input_delivers [OF ok len] by blast
  moreover have "ck_http_input_next_request e = ck_http_input_init e"
    by (simp add: ck_http_input_next_request_def ck_http_input_init_def)
  moreover have "input_session (length ms) (ck_http_input_init e) ?more = (map message_request ms, rest)"
    using Cons.prems by (intro Cons.IH) simp_all
  ultimately show ?case by (simp add: m)
qed simp

section \<open>Witnesses\<close>

definition sample_head :: "u8 list" where
  "sample_head = bytes_of ''POST / HTTP/1.1'' @ [CR, LF] @ bytes_of ''Content-Length: 3'' @ [CR, LF, CR, LF]"

definition sample_request :: ck_http_request where
  "sample_request = snd (parse_header_block sample_head (length sample_head))"

lemma sample_accepted: "accepted_head sample_head sample_request"
proof -
  have "header_block_end sample_head = Some (length sample_head)" by code_simp
  moreover have "length sample_head \<le> CK_HTTP_MAX_HEADER_BYTES" by code_simp
  moreover have "fst (parse_header_block sample_head (length sample_head)) = CK_HTTP_PARSE_COMPLETE" by code_simp
  ultimately show ?thesis unfolding accepted_head_def sample_request_def by (metis prod.collapse)
qed

lemma sample_on_wire: "on_wire sample_request [CR, LF, 1] [CR, LF, 1]"
proof (rule with_length)
  show "request_body_mode sample_request = CK_HTTP_BODY_CONTENT_LENGTH" by code_simp
  show "unat (request_content_length sample_request) = length [CR, LF, 1 :: u8]" by code_simp
qed

theorem input_stream_fragmentation_witness:
  "outcome input_failed (input_stream (ck_http_input_init zero_input) [] [[71, 69], [84, 32], []])
    = outcome input_failed (input_run (ck_http_input_init zero_input) (concat [[71, 69], [84, 32], []]))"
  by (rule input_stream_fragmentation) code_simp

theorem input_delivers_message_witness:
  "\<exists>e. input_message_complete e \<and> input_request e = sample_request
    \<and> input_stream (ck_http_input_init zero_input) [] [sample_head @ [CR], [LF, 1, 71]]
      = (CK_HTTP_INPUT_COMPLETE, [CR, LF, 1], [71], e)"
proof (rule input_delivers_message [OF sample_accepted sample_on_wire])
  show "concat [sample_head @ [CR], [LF, 1, 71]] = sample_head @ [CR, LF, 1] @ [71]" by simp
  show "length (sample_head @ [CR, LF, 1] @ [71 :: u8]) < 2 ^ 64" by code_simp
qed

theorem input_pipeline_witness:
  "input_session (length [(sample_head, sample_request, [CR, LF, 1], [CR, LF, 1]),
       (sample_head, sample_request, [CR, LF, 1], [CR, LF, 1])]) (ck_http_input_init zero_input)
     (concat (map message_bytes [(sample_head, sample_request, [CR, LF, 1], [CR, LF, 1]),
       (sample_head, sample_request, [CR, LF, 1], [CR, LF, 1])]) @ [71])
    = (map message_request [(sample_head, sample_request, [CR, LF, 1], [CR, LF, 1]),
       (sample_head, sample_request, [CR, LF, 1], [CR, LF, 1])], [71])"
proof (rule input_pipeline)
  show "list_all message_ok [(sample_head, sample_request, [CR, LF, 1], [CR, LF, 1]),
       (sample_head, sample_request, [CR, LF, 1], [CR, LF, 1])]"
    by (simp add: sample_accepted sample_on_wire)
  have "length sample_head = 38" by code_simp
  then show "length (concat (map message_bytes [(sample_head, sample_request, [CR, LF, 1], [CR, LF, 1]),
       (sample_head, sample_request, [CR, LF, 1], [CR, LF, 1])]) @ [71 :: u8]) < 2 ^ 64"
    by simp
qed

end
