(* ===== verification/Ck_Http_Request_Body.thy ===== *)
theory Ck_Http_Request_Body
  imports Ck_Ring
begin

text \<open>
  The request-body FIFO between the event loop (producer) and the Java worker (consumer),
  \<open>c/http/ck_http_request_body.[ch]\<close>.

  Each operation is one atomic step here.  A write returns
  \<open>(result, *written, *body)\<close>; a read returns \<open>(result, bytes copied to data, *body)\<close>, with
  \<open>*read\<close> the number of these bytes.
\<close>

section \<open>Data\<close>

definition CK_HTTP_REQUEST_BODY_BUFFER_BYTES :: nat where
  "CK_HTTP_REQUEST_BODY_BUFFER_BYTES = 65536"

datatype ck_http_request_body_write_result =
    CK_HTTP_REQUEST_BODY_WRITE_OK
  | CK_HTTP_REQUEST_BODY_WRITE_WOULD_BLOCK
  | CK_HTTP_REQUEST_BODY_WRITE_CLOSED
  | CK_HTTP_REQUEST_BODY_WRITE_INVALID

datatype ck_http_request_body_read_result =
    CK_HTTP_REQUEST_BODY_READ_DATA
  | CK_HTTP_REQUEST_BODY_READ_WOULD_BLOCK
  | CK_HTTP_REQUEST_BODY_READ_EOF
  | CK_HTTP_REQUEST_BODY_READ_ERROR
  | CK_HTTP_REQUEST_BODY_READ_INVALID

record ck_http_request_body =
  body_head :: u64
  body_tail :: u64
  body_eof :: bool
  body_error :: bool
  body_buffer :: "u8 list"

section \<open>Operations\<close>

definition body_used :: "u64 \<Rightarrow> u64 \<Rightarrow> u64" where
  "body_used head tail = head - tail"

definition ck_http_request_body_init :: "ck_http_request_body \<Rightarrow> ck_http_request_body" where
  "ck_http_request_body_init body =
     body\<lparr>body_head := 0, body_tail := 0, body_eof := False, body_error := False\<rparr>"

definition ck_http_request_body_write ::
  "bool \<Rightarrow> ck_http_request_body \<Rightarrow> u8 list
   \<Rightarrow> ck_http_request_body_write_result \<times> nat \<times> ck_http_request_body" where
  "ck_http_request_body_write null_arg body data =
    (if null_arg then (CK_HTTP_REQUEST_BODY_WRITE_INVALID, 0, body)
     else if length data = 0 then (CK_HTTP_REQUEST_BODY_WRITE_OK, 0, body)
     else if body_eof body \<or> body_error body then (CK_HTTP_REQUEST_BODY_WRITE_CLOSED, 0, body)
     else
       let head = body_head body;
           used = body_used head (body_tail body) in
       if used > of_nat CK_HTTP_REQUEST_BODY_BUFFER_BYTES
       then (CK_HTTP_REQUEST_BODY_WRITE_INVALID, 0, body)
       else
         let available = CK_HTTP_REQUEST_BODY_BUFFER_BYTES - unat used in
         if available < length data then (CK_HTTP_REQUEST_BODY_WRITE_WOULD_BLOCK, 0, body)
         else (CK_HTTP_REQUEST_BODY_WRITE_OK, length data,
                body\<lparr>body_buffer := ring_write (body_buffer body) (unat head) data,
                     body_head := head + of_nat (length data)\<rparr>))"

definition ck_http_request_body_read ::
  "bool \<Rightarrow> ck_http_request_body \<Rightarrow> nat
   \<Rightarrow> ck_http_request_body_read_result \<times> u8 list \<times> ck_http_request_body" where
  "ck_http_request_body_read null_arg body capacity =
    (if null_arg then (CK_HTTP_REQUEST_BODY_READ_INVALID, [], body)
     else
       let tail = body_tail body;
           available = body_used (body_head body) tail in
       if available > of_nat CK_HTTP_REQUEST_BODY_BUFFER_BYTES
       then (CK_HTTP_REQUEST_BODY_READ_INVALID, [], body)
       else if available = 0 then
         (if body_error body then CK_HTTP_REQUEST_BODY_READ_ERROR
          else if body_eof body then CK_HTTP_REQUEST_BODY_READ_EOF
          else CK_HTTP_REQUEST_BODY_READ_WOULD_BLOCK, [], body)
       else if capacity = 0 then (CK_HTTP_REQUEST_BODY_READ_WOULD_BLOCK, [], body)
       else
         let len = (if unat available > capacity then capacity else unat available) in
         (CK_HTTP_REQUEST_BODY_READ_DATA, ring_read (body_buffer body) (unat tail) len,
          body\<lparr>body_tail := tail + of_nat len\<rparr>))"

definition ck_http_request_body_mark_eof :: "ck_http_request_body \<Rightarrow> ck_http_request_body" where
  "ck_http_request_body_mark_eof body = body\<lparr>body_eof := True\<rparr>"

definition ck_http_request_body_mark_error :: "ck_http_request_body \<Rightarrow> ck_http_request_body" where
  "ck_http_request_body_mark_error body = body\<lparr>body_error := True\<rparr>"

definition ck_http_request_body_available :: "ck_http_request_body option \<Rightarrow> nat" where
  "ck_http_request_body_available body =
    (case body of
       None \<Rightarrow> 0
     | Some b \<Rightarrow>
         let available = body_used (body_head b) (body_tail b) in
         if available > of_nat CK_HTTP_REQUEST_BODY_BUFFER_BYTES then 0 else unat available)"

definition ck_http_request_body_is_finished :: "ck_http_request_body option \<Rightarrow> bool" where
  "ck_http_request_body_is_finished body =
    (case body of
       None \<Rightarrow> False
     | Some b \<Rightarrow> body_eof b \<and> ck_http_request_body_available (Some b) = 0)"

section \<open>The list the FIFO stands for\<close>

definition body_bytes :: "ck_http_request_body \<Rightarrow> u8 list" where
  "body_bytes b = ring_view (body_buffer b) (unat (body_tail b)) (unat (body_head b - body_tail b))"

definition body_wf :: "ck_http_request_body \<Rightarrow> bool" where
  "body_wf b \<longleftrightarrow> length (body_buffer b) = CK_HTTP_REQUEST_BODY_BUFFER_BYTES
     \<and> unat (body_head b - body_tail b) \<le> CK_HTTP_REQUEST_BODY_BUFFER_BYTES"

lemma body_used_word:
  "(body_head b - body_tail b > of_nat CK_HTTP_REQUEST_BODY_BUFFER_BYTES) \<longleftrightarrow>
   unat (body_head b - body_tail b) > CK_HTTP_REQUEST_BODY_BUFFER_BYTES"
  by (simp add: word_less_nat_alt CK_HTTP_REQUEST_BODY_BUFFER_BYTES_def)

lemma body_ring_dvd:
  assumes "body_wf b"
  shows "length (body_buffer b) dvd 2 ^ 64"
proof -
  have "length (body_buffer b) = 2 ^ 16"
    using assms by (simp add: body_wf_def CK_HTTP_REQUEST_BODY_BUFFER_BYTES_def)
  then show ?thesis by (simp only: le_imp_power_dvd)
qed

lemma length_body_bytes: "length (body_bytes b) = unat (body_head b - body_tail b)"
  by (simp add: body_bytes_def)

lemma body_bytes_eq_Nil: "body_bytes b = [] \<longleftrightarrow> body_head b - body_tail b = 0"
  by (metis length_0_conv length_body_bytes unat_eq_zero)

text \<open>What the producer's ring write does to the list.\<close>

lemma body_bytes_ring_write:
  assumes "body_wf b" and "length (body_bytes b) + length data \<le> CK_HTTP_REQUEST_BODY_BUFFER_BYTES"
  defines "b' \<equiv> b\<lparr>body_buffer := ring_write (body_buffer b) (unat (body_head b)) data,
                   body_head := body_head b + of_nat (length data)\<rparr>"
  shows "body_wf b'" and "body_bytes b' = body_bytes b @ data"
proof -
  let ?arr = "body_buffer b" and ?t = "body_tail b" and ?n = "unat (body_head b - body_tail b)"
  have len: "length ?arr = CK_HTTP_REQUEST_BODY_BUFFER_BYTES" and n: "?n + length data \<le> length ?arr"
    using assms(1,2) by (auto simp: body_wf_def length_body_bytes)
  have "?n + length data < 2 ^ 64" using n len by (simp add: CK_HTTP_REQUEST_BODY_BUFFER_BYTES_def)
  then have used: "unat (body_head b + of_nat (length data) - ?t) = ?n + length data"
    by (rule counter_used_add)
  have "unat (body_head b) mod length ?arr = (unat ?t + ?n) mod length ?arr"
    using unat_plus_mod [OF body_ring_dvd [OF assms(1)], of ?t ?n] by simp
  then have "ring_write ?arr (unat (body_head b)) data = ring_write ?arr (unat ?t + ?n) data"
    by (simp add: ring_write_def)
  with used show "body_bytes b' = body_bytes b @ data"
    unfolding body_bytes_def b'_def using ring_view_ring_write [OF n, of "unat ?t"] by simp
  show "body_wf b'"
    using len n used by (simp add: body_wf_def b'_def)
qed

text \<open>What the consumer's tail update does to the list.\<close>

lemma body_bytes_tail:
  assumes "body_wf b" and "n \<le> length (body_bytes b)"
  defines "b' \<equiv> b\<lparr>body_tail := body_tail b + of_nat n\<rparr>"
  shows "body_wf b'" and "body_bytes b' = drop n (body_bytes b)"
proof -
  have used: "unat (body_head b - (body_tail b + of_nat n)) = unat (body_head b - body_tail b) - n"
    using assms(2) by (intro counter_used_sub) (simp add: length_body_bytes)
  show "body_wf b'" using assms(1) used by (auto simp: body_wf_def b'_def)
  show "body_bytes b' = drop n (body_bytes b)"
    using assms(2) used ring_view_counter [OF body_ring_dvd [OF assms(1)], of "body_tail b" n]
    by (simp add: body_bytes_def b'_def drop_ring_view length_body_bytes)
qed

section \<open>The operations on the list\<close>

lemma body_write_unfold:
  assumes "body_wf b"
  shows "ck_http_request_body_write False b data =
    (if data = [] then (CK_HTTP_REQUEST_BODY_WRITE_OK, 0, b)
     else if body_eof b \<or> body_error b then (CK_HTTP_REQUEST_BODY_WRITE_CLOSED, 0, b)
     else if CK_HTTP_REQUEST_BODY_BUFFER_BYTES < length (body_bytes b) + length data
     then (CK_HTTP_REQUEST_BODY_WRITE_WOULD_BLOCK, 0, b)
     else (CK_HTTP_REQUEST_BODY_WRITE_OK, length data,
            b\<lparr>body_buffer := ring_write (body_buffer b) (unat (body_head b)) data,
              body_head := body_head b + of_nat (length data)\<rparr>))"
proof -
  have "unat (body_head b - body_tail b) \<le> CK_HTTP_REQUEST_BODY_BUFFER_BYTES"
    using assms by (simp add: body_wf_def)
  then show ?thesis
    unfolding ck_http_request_body_write_def Let_def body_used_def body_used_word length_body_bytes
    by auto
qed

lemma body_read_unfold:
  assumes "body_wf b"
  shows "ck_http_request_body_read False b capacity =
    (if body_bytes b = [] then
       (if body_error b then CK_HTTP_REQUEST_BODY_READ_ERROR
        else if body_eof b then CK_HTTP_REQUEST_BODY_READ_EOF
        else CK_HTTP_REQUEST_BODY_READ_WOULD_BLOCK, [], b)
     else if capacity = 0 then (CK_HTTP_REQUEST_BODY_READ_WOULD_BLOCK, [], b)
     else (CK_HTTP_REQUEST_BODY_READ_DATA, take capacity (body_bytes b),
            b\<lparr>body_tail := body_tail b + of_nat (min capacity (length (body_bytes b)))\<rparr>))"
proof -
  let ?n = "unat (body_head b - body_tail b)"
  have n: "?n \<le> CK_HTTP_REQUEST_BODY_BUFFER_BYTES" "length (body_buffer b) = CK_HTTP_REQUEST_BODY_BUFFER_BYTES"
    using assms by (simp_all add: body_wf_def)
  have min: "(if ?n > capacity then capacity else ?n) = min capacity ?n" by (simp add: min_def)
  have "ring_read (body_buffer b) (unat (body_tail b)) (min capacity ?n) = take (min capacity ?n) (body_bytes b)"
    using n by (simp add: ring_read_view body_bytes_def take_ring_view)
  also have "\<dots> = take capacity (body_bytes b)"
    by (simp add: length_body_bytes min_def)
  finally have read: "ring_read (body_buffer b) (unat (body_tail b)) (min capacity ?n) = \<dots>" .
  have "\<not> ?n > CK_HTTP_REQUEST_BODY_BUFFER_BYTES" using n(1) by simp
  then show ?thesis
    unfolding ck_http_request_body_read_def Let_def body_used_def body_used_word min read
    by (simp add: body_bytes_eq_Nil length_body_bytes)
qed

definition body_enqueue :: "u8 list \<Rightarrow> ck_http_request_body \<Rightarrow> u8 list \<times> ck_http_request_body" where
  "body_enqueue data b =
    (case ck_http_request_body_write False b data of (r, written, b') \<Rightarrow> (take written data, b'))"

definition body_dequeue :: "nat \<Rightarrow> ck_http_request_body \<Rightarrow> u8 list \<times> ck_http_request_body" where
  "body_dequeue capacity b =
    (case ck_http_request_body_read False b capacity of (r, bytes, b') \<Rightarrow> (bytes, b'))"

interpretation body_fifo:
  bounded_fifo body_wf "\<lambda>b. \<not> body_eof b \<and> \<not> body_error b" "\<lambda>_. True" body_bytes
    CK_HTTP_REQUEST_BODY_BUFFER_BYTES body_enqueue body_dequeue
proof
  fix s :: ck_http_request_body
  assume wf: "body_wf s"
  show "length (body_bytes s) \<le> CK_HTTP_REQUEST_BODY_BUFFER_BYTES"
    using wf by (simp add: body_wf_def length_body_bytes)
  show "body_wf s' \<and> body_bytes s' = body_bytes s @ acc \<and> (acc = [] \<or> acc = xs)"
    if "body_enqueue xs s = (acc, s')" for xs acc s'
    using that wf body_bytes_ring_write [OF wf, of xs]
    by (auto simp: body_enqueue_def body_write_unfold split: if_splits)
  show "fst (body_enqueue xs s) = xs"
    if "\<not> body_eof s \<and> \<not> body_error s"
      "length (body_bytes s) + length xs \<le> CK_HTTP_REQUEST_BODY_BUFFER_BYTES" for xs
    using that wf by (simp add: body_enqueue_def body_write_unfold)
  show "body_wf s' \<and> body_bytes s = out @ body_bytes s' \<and> length out \<le> n"
    if "body_dequeue n s = (out, s')" for n out s'
    using that wf body_bytes_tail [OF wf, of "min n (length (body_bytes s))"]
    by (auto simp: body_dequeue_def body_read_unfold min_def split: if_splits)
  show "fst (body_dequeue n s) \<noteq> []" if "0 < n" "body_bytes s \<noteq> []" for n
    using that wf by (simp add: body_dequeue_def body_read_unfold)
qed

section \<open>Properties\<close>

text \<open>
  A write refines appending to a bounded list, on every branch: an empty write succeeds, a
  closed queue rejects, a write that does not fit is refused as a whole, and any other write
  appends all its bytes.  The counters may wrap around; the invariant is kept.
\<close>

theorem body_write_refines:
  assumes "body_wf b"
  shows "case ck_http_request_body_write False b data of (r, written, b') \<Rightarrow>
     body_wf b' \<and> body_bytes b' = body_bytes b @ take written data
     \<and> body_eof b' = body_eof b \<and> body_error b' = body_error b
     \<and> (r, written) =
         (if data = [] then (CK_HTTP_REQUEST_BODY_WRITE_OK, 0)
          else if body_eof b \<or> body_error b then (CK_HTTP_REQUEST_BODY_WRITE_CLOSED, 0)
          else if length (body_bytes b) + length data \<le> CK_HTTP_REQUEST_BODY_BUFFER_BYTES
          then (CK_HTTP_REQUEST_BODY_WRITE_OK, length data)
          else (CK_HTTP_REQUEST_BODY_WRITE_WOULD_BLOCK, 0))"
  using assms body_bytes_ring_write [OF assms, of data]
  by (simp add: body_write_unfold not_le)

text \<open>
  A read refines taking a prefix: it delivers the oldest bytes, as many as the caller has
  room for; end of file and error are reported only when every byte has been delivered, an error
  before an end of file.
\<close>

theorem body_read_refines:
  assumes "body_wf b"
  shows "case ck_http_request_body_read False b capacity of (r, bytes, b') \<Rightarrow>
     body_wf b' \<and> body_bytes b = bytes @ body_bytes b' \<and> bytes = take capacity (body_bytes b)
     \<and> body_eof b' = body_eof b \<and> body_error b' = body_error b
     \<and> r = (if body_bytes b = [] then
              (if body_error b then CK_HTTP_REQUEST_BODY_READ_ERROR
               else if body_eof b then CK_HTTP_REQUEST_BODY_READ_EOF
               else CK_HTTP_REQUEST_BODY_READ_WOULD_BLOCK)
            else if capacity = 0 then CK_HTTP_REQUEST_BODY_READ_WOULD_BLOCK
            else CK_HTTP_REQUEST_BODY_READ_DATA)"
  using assms body_bytes_tail [OF assms, of "min capacity (length (body_bytes b))"]
  by (auto simp: body_read_unfold min_def)

text \<open>
  C11. Whatever the order of writes and reads, from an initialised queue the bytes delivered,
  followed by the bytes still queued, are the bytes accepted: nothing is lost, duplicated or
  reordered, however often the ring and its counters wrap.
\<close>

theorem body_fifo_order:
  assumes "length (body_buffer b) = CK_HTTP_REQUEST_BODY_BUFFER_BYTES"
    and "queue_run body_enqueue body_dequeue ops (ck_http_request_body_init b) = (accepted, delivered, b')"
  shows "delivered @ body_bytes b' = accepted \<and> body_wf b'"
proof -
  have wf: "body_wf (ck_http_request_body_init b)" and empty: "body_bytes (ck_http_request_body_init b) = []"
    using assms(1) by (simp_all add: body_wf_def ck_http_request_body_init_def body_bytes_def)
  show ?thesis
    using body_fifo.run_order [OF wf assms(2)] body_fifo.run_inv [OF wf assms(2)] empty by simp
qed

text \<open>A queue whose head counter has wrapped around while the tail has not.\<close>

definition wrapped_body :: ck_http_request_body where
  "wrapped_body = \<lparr>body_head = 1, body_tail = - 1, body_eof = False, body_error = False,
     body_buffer = replicate 65536 5\<rparr>"

lemma wrapped_body_wf: "body_wf wrapped_body"
  by (simp add: body_wf_def wrapped_body_def CK_HTTP_REQUEST_BODY_BUFFER_BYTES_def)

lemma wrapped_body_length: "length (body_bytes wrapped_body) = 2"
  by (simp add: length_body_bytes wrapped_body_def)

theorem body_write_refines_witness:
  "case ck_http_request_body_write False wrapped_body [7, 8] of (r, written, b') \<Rightarrow>
     body_bytes b' = body_bytes wrapped_body @ [7, 8] \<and> r = CK_HTTP_REQUEST_BODY_WRITE_OK"
  using body_write_refines [OF wrapped_body_wf, of "[7, 8]"] wrapped_body_length
  by (auto simp: wrapped_body_def CK_HTTP_REQUEST_BODY_BUFFER_BYTES_def split: prod.splits)

theorem body_read_refines_witness:
  "case ck_http_request_body_read False wrapped_body 1 of (r, bytes, b') \<Rightarrow>
     length bytes = 1 \<and> body_bytes wrapped_body = bytes @ body_bytes b' \<and> r = CK_HTTP_REQUEST_BODY_READ_DATA"
proof -
  have "body_bytes wrapped_body \<noteq> []" "length (take 1 (body_bytes wrapped_body)) = 1"
    using wrapped_body_length by auto
  then show ?thesis
    using body_read_refines [OF wrapped_body_wf, of 1] by (fastforce split: prod.splits)
qed

theorem body_fifo_order_witness:
  "\<exists>accepted delivered b'.
     queue_run body_enqueue body_dequeue [Enqueue [1, 2, 3], Dequeue 2, Enqueue [4]]
       (ck_http_request_body_init wrapped_body) = (accepted, delivered, b')
     \<and> delivered @ body_bytes b' = accepted \<and> body_wf b'"
proof -
  let ?run = "queue_run body_enqueue body_dequeue [Enqueue [1, 2, 3], Dequeue 2, Enqueue [4]]
       (ck_http_request_body_init wrapped_body)"
  obtain accepted delivered b' where run: "?run = (accepted, delivered, b')" by (cases ?run)
  moreover have "length (body_buffer wrapped_body) = CK_HTTP_REQUEST_BODY_BUFFER_BYTES"
    by (simp add: wrapped_body_def CK_HTTP_REQUEST_BODY_BUFFER_BYTES_def)
  ultimately show ?thesis using body_fifo_order by blast
qed

end
