(* ===== verification/Ck_Http_Reader.thy ===== *)
theory Ck_Http_Reader
  imports Ck_Http_Input Ck_Http_Request_Body
begin

text \<open>
  The connection reader, \<open>c/http/ck_http_connection_reader.[ch]\<close>: it moves bytes from the socket
  into a 64 KiB buffer, feeds the input machine under a read and a processing budget, and hands
  body spans to a sink (by default the request-body FIFO).

  \<open>reader_buffer\<close> is the used prefix \<open>buffer[0 .. end)\<close>, so \<open>end\<close> is its length.  The body
  queue the reader points to is part of the reader's state.  The socket is the list of
  what \<open>recv\<close> will see: bytes that arrive, errors, the peer's shutdown; an exhausted list means
  that nothing has arrived yet (EAGAIN).  A body sink is a function on its context.
\<close>

section \<open>The socket\<close>

datatype errno = EAGAIN | EINTR | Eother nat

datatype socket_event = Arrived "u8 list" | Peer_closed | Recv_error errno

datatype recv_result = Received "u8 list" | Closed | Failed errno

text \<open>\<open>ck_socket_recv_nonblocking\<close>, that is \<open>recv\<close> with \<open>MSG_DONTWAIT\<close>; a request for no bytes
  returns 0.\<close>

fun recv :: "nat \<Rightarrow> socket_event list \<Rightarrow> recv_result \<times> socket_event list" where
  "recv len [] = (Failed EAGAIN, [])"
| "recv len (Arrived bs # es) =
    (if bs = [] then recv len es
     else if len = 0 then (Closed, Arrived bs # es)
     else (Received (take len bs), if length bs \<le> len then es else Arrived (drop len bs) # es))"
| "recv len (Peer_closed # es) = (Closed, Peer_closed # es)"
| "recv len (Recv_error e # es) = (Failed e, es)"

fun socket_bytes :: "socket_event list \<Rightarrow> u8 list" where
  "socket_bytes [] = []"
| "socket_bytes (Arrived bs # es) = bs @ socket_bytes es"
| "socket_bytes (_ # es) = socket_bytes es"

section \<open>Data\<close>

definition CK_HTTP_CONNECTION_READ_BUFFER_BYTES :: nat where
  "CK_HTTP_CONNECTION_READ_BUFFER_BYTES = 65536"
definition CK_HTTP_CONNECTION_READ_BUDGET_BYTES :: nat where
  "CK_HTTP_CONNECTION_READ_BUDGET_BYTES = 32768"
definition CK_HTTP_CONNECTION_PROCESS_BUDGET_BYTES :: nat where
  "CK_HTTP_CONNECTION_PROCESS_BUDGET_BYTES = 32768"
definition CK_HTTP_BODY_SINK_WOULD_BLOCK :: int where
  "CK_HTTP_BODY_SINK_WOULD_BLOCK = 2"

lemmas reader_limits = CK_HTTP_CONNECTION_READ_BUFFER_BYTES_def
  CK_HTTP_CONNECTION_READ_BUDGET_BYTES_def CK_HTTP_CONNECTION_PROCESS_BUDGET_BYTES_def
  CK_HTTP_BODY_SINK_WOULD_BLOCK_def

datatype ck_http_connection_read_result =
    CK_HTTP_CONNECTION_READ_INCOMPLETE
  | CK_HTTP_CONNECTION_READ_REQUEST_COMPLETE
  | CK_HTTP_CONNECTION_READ_BAD_REQUEST
  | CK_HTTP_CONNECTION_READ_TOO_LARGE
  | CK_HTTP_CONNECTION_READ_EOF_INCOMPLETE
  | CK_HTTP_CONNECTION_READ_IO_ERROR
  | CK_HTTP_CONNECTION_READ_SINK_ERROR
  | CK_HTTP_CONNECTION_READ_BODY_BACKPRESSURE

type_synonym 'c ck_http_body_sink_fn = "'c \<Rightarrow> u8 list \<Rightarrow> int \<times> 'c"

record ck_http_connection_reader =
  reader_input :: ck_http_input
  reader_body_queue :: "ck_http_request_body option"
  reader_buffer :: "u8 list"
  reader_begin :: nat

section \<open>Operations\<close>

definition write_body_queue :: "ck_http_request_body ck_http_body_sink_fn" where
  "write_body_queue queue data =
    (case ck_http_request_body_write False queue data of
       (result, written, queue') \<Rightarrow>
         (if result = CK_HTTP_REQUEST_BODY_WRITE_WOULD_BLOCK
             \<or> (result = CK_HTTP_REQUEST_BODY_WRITE_OK \<and> written \<noteq> length data)
          then CK_HTTP_BODY_SINK_WOULD_BLOCK
          else if result = CK_HTTP_REQUEST_BODY_WRITE_OK then 0 else 1, queue'))"

fun map_input_result :: "ck_http_input_result \<Rightarrow> ck_http_connection_read_result" where
  "map_input_result CK_HTTP_INPUT_INCOMPLETE = CK_HTTP_CONNECTION_READ_INCOMPLETE"
| "map_input_result CK_HTTP_INPUT_BODY = CK_HTTP_CONNECTION_READ_INCOMPLETE"
| "map_input_result CK_HTTP_INPUT_COMPLETE = CK_HTTP_CONNECTION_READ_REQUEST_COMPLETE"
| "map_input_result CK_HTTP_INPUT_TOO_LARGE = CK_HTTP_CONNECTION_READ_TOO_LARGE"
| "map_input_result CK_HTTP_INPUT_EOF_INCOMPLETE = CK_HTTP_CONNECTION_READ_EOF_INCOMPLETE"
| "map_input_result CK_HTTP_INPUT_BAD_REQUEST = CK_HTTP_CONNECTION_READ_BAD_REQUEST"

definition ck_http_connection_reader_init :: "ck_http_connection_reader \<Rightarrow> ck_http_connection_reader" where
  "ck_http_connection_reader_init reader =
     reader\<lparr>reader_input := ck_http_input_init (reader_input reader), reader_begin := 0,
       reader_buffer := [], reader_body_queue := None\<rparr>"

definition ck_http_connection_reader_attach_body_queue ::
  "ck_http_connection_reader \<Rightarrow> ck_http_request_body option \<Rightarrow> ck_http_connection_reader" where
  "ck_http_connection_reader_attach_body_queue reader body_queue =
     reader\<lparr>reader_body_queue := body_queue\<rparr>"

text \<open>
  Handing a span to the effective sink: the caller's sink, or the body queue, or none.  The
  result is \<open>None\<close> if there is no sink, otherwise the sink's return value; queue and context are
  updated by whichever sink ran.
\<close>

definition run_sink ::
  "'c ck_http_body_sink_fn option \<Rightarrow> ck_http_connection_reader \<Rightarrow> 'c \<Rightarrow> u8 list
   \<Rightarrow> int option \<times> ck_http_connection_reader \<times> 'c" where
  "run_sink body_sink reader ctx bytes =
    (case body_sink of
       Some sink \<Rightarrow> (case sink ctx bytes of (result, ctx') \<Rightarrow> (Some result, reader, ctx'))
     | None \<Rightarrow>
         (case reader_body_queue reader of
            Some queue \<Rightarrow>
              (case write_body_queue queue bytes of
                 (result, queue') \<Rightarrow> (Some result, reader\<lparr>reader_body_queue := Some queue'\<rparr>, ctx))
          | None \<Rightarrow> (None, reader, ctx)))"

text \<open>
  One pass of the inner loop of \<open>ck_http_connection_reader_drive\<close> up to the point where
  \<open>consumed\<close> is final: \<open>Inl r\<close> is an early \<open>return r\<close>, \<open>Inr (input_result, consumed)\<close> goes on.
\<close>

definition reader_feed ::
  "'c ck_http_body_sink_fn option \<Rightarrow> ck_http_connection_reader \<Rightarrow> 'c \<Rightarrow> nat
   \<Rightarrow> (ck_http_connection_read_result + ck_http_input_result \<times> nat) \<times> ck_http_connection_reader \<times> 'c" where
  "reader_feed body_sink reader ctx process_budget =
    (let available = length (reader_buffer reader) - reader_begin reader;
         feed_length = (if available < process_budget then available else process_budget) in
     case ck_http_input_feed False (reader_input reader) (reader_begin reader)
            (take feed_length (drop (reader_begin reader) (reader_buffer reader))) of
       (input_result, consumed, body_data, body_length, input) \<Rightarrow>
         let reader1 = reader\<lparr>reader_input := input\<rparr> in
         if consumed > feed_length then (Inl CK_HTTP_CONNECTION_READ_IO_ERROR, reader1, ctx)
         else if body_length \<noteq> 0 then
           (case run_sink body_sink reader1 ctx
                   (take body_length (drop (the body_data) (reader_buffer reader1))) of
              (None, reader2, ctx') \<Rightarrow> (Inl CK_HTTP_CONNECTION_READ_SINK_ERROR, reader2, ctx')
            | (Some sink_result, reader2, ctx') \<Rightarrow>
                if sink_result = CK_HTTP_BODY_SINK_WOULD_BLOCK
                then (Inl CK_HTTP_CONNECTION_READ_BODY_BACKPRESSURE, reader2, ctx')
                else if sink_result \<noteq> 0 then (Inl CK_HTTP_CONNECTION_READ_SINK_ERROR, reader2, ctx')
                else
                  (case ck_http_input_ack_body False (reader_input reader2) of
                     None \<Rightarrow> (Inl CK_HTTP_CONNECTION_READ_IO_ERROR, reader2, ctx')
                   | Some (body_consumed, input') \<Rightarrow>
                       let reader3 = reader2\<lparr>reader_input := input'\<rparr> in
                       if body_consumed > feed_length - consumed
                       then (Inl CK_HTTP_CONNECTION_READ_IO_ERROR, reader3, ctx')
                       else (Inr (input_result, consumed + body_consumed), reader3, ctx')))
         else (Inr (input_result, consumed), reader1, ctx))"

text \<open>
  The inner loop \<open>while (reader->begin < reader->end)\<close>: \<open>Some r\<close> is a return from the drive,
  \<open>None\<close> the end of the loop.
\<close>

lemma run_sink_frame:
  "run_sink sink reader ctx bs = (res, reader', ctx') \<Longrightarrow>
   reader_buffer reader' = reader_buffer reader \<and> reader_begin reader' = reader_begin reader
   \<and> reader_input reader' = reader_input reader"
  by (auto simp: run_sink_def split: option.splits prod.splits)

lemma reader_feed_frame:
  assumes "reader_feed sink reader ctx budget = (res, reader', ctx')"
  shows "reader_buffer reader' = reader_buffer reader \<and> reader_begin reader' = reader_begin reader"
  using assms
  by (auto simp: reader_feed_def Let_def split: prod.splits option.splits if_splits dest!: run_sink_frame)

function reader_process ::
  "'c ck_http_body_sink_fn option \<Rightarrow> ck_http_connection_reader \<Rightarrow> 'c \<Rightarrow> nat
   \<Rightarrow> ck_http_connection_read_result option \<times> ck_http_connection_reader \<times> 'c \<times> nat" where
  "reader_process body_sink reader ctx process_budget =
    (if reader_begin reader < length (reader_buffer reader) then
       if process_budget = 0 then (Some CK_HTTP_CONNECTION_READ_INCOMPLETE, reader, ctx, process_budget)
       else
         case reader_feed body_sink reader ctx process_budget of
           (Inl r, reader1, ctx') \<Rightarrow> (Some r, reader1, ctx', process_budget)
         | (Inr (input_result, consumed), reader1, ctx') \<Rightarrow>
             let reader2 = reader1\<lparr>reader_begin := reader_begin reader1 + consumed\<rparr>;
                 process_budget' = process_budget - consumed in
             if ck_http_input_complete (Some (reader_input reader2)) then
               (Some CK_HTTP_CONNECTION_READ_REQUEST_COMPLETE,
                reader2\<lparr>reader_body_queue :=
                  map_option ck_http_request_body_mark_eof (reader_body_queue reader2)\<rparr>,
                ctx', process_budget')
             else
               let read_result = map_input_result input_result in
               if read_result = CK_HTTP_CONNECTION_READ_REQUEST_COMPLETE
                  \<or> read_result = CK_HTTP_CONNECTION_READ_BAD_REQUEST
                  \<or> read_result = CK_HTTP_CONNECTION_READ_TOO_LARGE
                  \<or> input_result = CK_HTTP_INPUT_EOF_INCOMPLETE
               then (Some read_result, reader2, ctx', process_budget')
               else if reader_begin reader2 = length (reader_buffer reader2) \<or> consumed = 0
               then (None, reader2, ctx', process_budget')
               else reader_process body_sink reader2 ctx' process_budget'
     else (None, reader, ctx, process_budget))"
  by pat_completeness auto
termination
  by (relation "measure (\<lambda>(s, reader, c, b). length (reader_buffer reader) - reader_begin reader)")
    (auto dest!: reader_feed_frame [OF sym])

declare reader_process.simps [simp del]

text \<open>
  The outer loop \<open>for (;;)\<close>.  The result is \<open>(result, reader, sink context, socket)\<close>.
\<close>

definition reader_compact :: "ck_http_connection_reader \<Rightarrow> ck_http_connection_reader" where
  "reader_compact reader =
     reader\<lparr>reader_buffer := drop (reader_begin reader) (reader_buffer reader), reader_begin := 0\<rparr>"

lemma recv_Received:
  "recv len es = (Received bs, es') \<Longrightarrow>
   bs \<noteq> [] \<and> length bs \<le> len \<and> length es' \<le> length es \<and> socket_bytes es = bs @ socket_bytes es'"
  by (induction len es rule: recv.induct) (auto split: if_splits)

lemma recv_Failed:
  "recv len es = (Failed e, es') \<Longrightarrow> e \<noteq> EAGAIN \<Longrightarrow> length es' < length es"
  by (induction len es rule: recv.induct) (auto split: if_splits)

lemma recv_bytes: "recv len es = (Failed e, es') \<Longrightarrow> socket_bytes es' = socket_bytes es"
  "recv len es = (Closed, es') \<Longrightarrow> socket_bytes es' = socket_bytes es"
  by (induction len es rule: recv.induct) (auto split: if_splits)

lemma drive_measure:
  "recv len es = (Received bs, es') \<Longrightarrow> 0 < rb \<Longrightarrow> rb - length bs + length es' < rb + length es"
  by (drule recv_Received) (cases bs, auto)

function reader_drive_loop ::
  "'c ck_http_body_sink_fn option \<Rightarrow> ck_http_connection_reader \<Rightarrow> 'c \<Rightarrow> socket_event list \<Rightarrow> nat \<Rightarrow> nat
   \<Rightarrow> ck_http_connection_read_result \<times> ck_http_connection_reader \<times> 'c \<times> socket_event list" where
  "reader_drive_loop body_sink reader ctx socket read_budget process_budget =
    (case reader_process body_sink reader ctx process_budget of
       (Some r, reader1, ctx1, _) \<Rightarrow> (r, reader1, ctx1, socket)
     | (None, reader1, ctx1, process_budget1) \<Rightarrow>
         if reader_begin reader1 < length (reader_buffer reader1) \<and> process_budget1 = 0
         then (CK_HTTP_CONNECTION_READ_INCOMPLETE, reader1, ctx1, socket)
         else if length (reader_buffer reader1) = CK_HTTP_CONNECTION_READ_BUFFER_BYTES
                 \<and> reader_begin reader1 = 0
         then (CK_HTTP_CONNECTION_READ_TOO_LARGE, reader1, ctx1, socket)
         else
           let reader2 = (if length (reader_buffer reader1) = CK_HTTP_CONNECTION_READ_BUFFER_BYTES
                          then reader_compact reader1 else reader1) in
           if read_budget = 0 then (CK_HTTP_CONNECTION_READ_INCOMPLETE, reader2, ctx1, socket)
           else
             let available = CK_HTTP_CONNECTION_READ_BUFFER_BYTES - length (reader_buffer reader2);
                 receive_length = (if available < read_budget then available else read_budget) in
             (case recv receive_length socket of
                (Received bytes, socket1) \<Rightarrow>
                  reader_drive_loop body_sink
                    (reader2\<lparr>reader_buffer := reader_buffer reader2 @ bytes\<rparr>) ctx1 socket1
                    (read_budget - length bytes) process_budget1
              | (Closed, socket1) \<Rightarrow>
                  let eof_result = ck_http_input_eof False (reader_input reader2) in
                  (map_input_result eof_result,
                   if eof_result = CK_HTTP_INPUT_EOF_INCOMPLETE
                   then reader2\<lparr>reader_body_queue :=
                          map_option ck_http_request_body_mark_error (reader_body_queue reader2)\<rparr>
                   else reader2, ctx1, socket1)
              | (Failed e, socket1) \<Rightarrow>
                  if e = EAGAIN then (CK_HTTP_CONNECTION_READ_INCOMPLETE, reader2, ctx1, socket1)
                  else if e = EINTR
                  then reader_drive_loop body_sink reader2 ctx1 socket1 read_budget process_budget1
                  else (CK_HTTP_CONNECTION_READ_IO_ERROR, reader2, ctx1, socket1)))"
  by pat_completeness auto
termination
proof (relation "measure (\<lambda>(s, reader, c, socket, rb, pb). rb + length socket)", goal_cases)
  case 1
  then show ?case by simp
next
  case 2
  then show ?case by (fastforce dest!: sym [of "(Received _, _)"] intro: drive_measure)
next
  case 3
  then show ?case by (auto dest!: recv_Failed [OF sym])
qed

declare reader_drive_loop.simps [simp del]

definition ck_http_connection_reader_drive ::
  "bool \<Rightarrow> 'c ck_http_body_sink_fn option \<Rightarrow> ck_http_connection_reader \<Rightarrow> 'c \<Rightarrow> socket_event list
   \<Rightarrow> ck_http_connection_read_result \<times> ck_http_connection_reader \<times> 'c \<times> socket_event list" where
  "ck_http_connection_reader_drive null_arg body_sink reader ctx socket =
    (if null_arg then (CK_HTTP_CONNECTION_READ_IO_ERROR, reader, ctx, socket)
     else reader_drive_loop body_sink reader ctx socket
            CK_HTTP_CONNECTION_READ_BUDGET_BYTES CK_HTTP_CONNECTION_PROCESS_BUDGET_BYTES)"

definition ck_http_connection_reader_next_request ::
  "ck_http_connection_reader \<Rightarrow> ck_http_connection_reader option" where
  "ck_http_connection_reader_next_request reader =
    (if \<not> ck_http_input_complete (Some (reader_input reader)) then None
     else Some (reader\<lparr>reader_buffer := drop (reader_begin reader) (reader_buffer reader),
       reader_begin := 0, reader_input := ck_http_input_next_request (reader_input reader),
       reader_body_queue := map_option ck_http_request_body_init (reader_body_queue reader)\<rparr>))"

definition ck_http_connection_reader_request ::
  "ck_http_connection_reader option \<Rightarrow> ck_http_request option" where
  "ck_http_connection_reader_request reader =
    (case reader of None \<Rightarrow> None | Some r \<Rightarrow> ck_http_input_request (Some (reader_input r)))"

definition ck_http_connection_reader_buffered_bytes :: "ck_http_connection_reader option \<Rightarrow> nat" where
  "ck_http_connection_reader_buffered_bytes reader =
    (case reader of
       None \<Rightarrow> 0
     | Some r \<Rightarrow>
         if length (reader_buffer r) < reader_begin r then 0
         else length (reader_buffer r) - reader_begin r)"

section \<open>A feed at an address\<close>

text \<open>The machine after the acknowledgement of what is pending.\<close>

definition acked :: "ck_http_input \<Rightarrow> ck_http_input" where
  "acked i = (if pending_message_complete i then i\<lparr>input_message_complete := True\<rparr> else i)
     \<lparr>pending_body_data := None, pending_body_length := 0, pending_input_consumed := 0,
      pending_message_complete := False\<rparr>"

definition nothing_pending :: "ck_http_input \<Rightarrow> bool" where
  "nothing_pending i \<longleftrightarrow> pending_body_length i = 0 \<and> pending_input_consumed i = 0 \<and> \<not> pending_message_complete i"

lemma ack_acked:
  "pending_body_length i \<noteq> 0 \<Longrightarrow> ck_http_input_ack_body False i = Some (pending_input_consumed i, acked i)"
  by (simp add: ck_http_input_ack_body_def acked_def Let_def)

lemma acked_nothing_pending:
  "nothing_pending i \<Longrightarrow> acked i = i\<lparr>pending_body_data := None\<rparr>"
  by (simp add: acked_def nothing_pending_def)

lemma acked_wf: "input_wf i \<Longrightarrow> acked i = i \<and> nothing_pending i"
  by (simp add: acked_def input_wf_def nothing_pending_def)

text \<open>
  What a feed at address \<open>src\<close> that starts with nothing pending leaves behind, compared with a
  round of the machine: \<open>c\<close> bytes are reported as consumed, \<open>k\<close> will be used up once the span is
  acknowledged.
\<close>

definition fed ::
  "nat \<Rightarrow> u8 list \<Rightarrow> nat \<Rightarrow> ck_http_input_result \<times> u8 list \<times> nat \<times> ck_http_input \<Rightarrow> input_out \<Rightarrow> bool" where
  "fed src xs base step out =
    (case step of (r, bs, k, e) \<Rightarrow> case out of (r', c, bd, bl, i') \<Rightarrow>
       r' = r \<and> e = acked i' \<and> pending_body_length i' = bl
     \<and> base + k = c + pending_input_consumed i' \<and> base + k \<le> length xs
     \<and> (if bl = 0 then bs = [] \<and> nothing_pending i' \<and> r \<noteq> CK_HTTP_INPUT_BODY
        else r = CK_HTTP_INPUT_BODY \<and> c = base \<and> pending_body_data i' = bd
           \<and> input_header_complete i' \<and> \<not> input_message_complete i'
           \<and> (\<exists>off \<ge> base. bd = Some (src + off) \<and> off + bl = base + k \<and> bs = take bl (drop off xs))))"

lemma feed_body_content_length:
  assumes "input_wf (acked i)" and "input_header_complete i" and "\<not> input_message_complete i"
    and "nothing_pending i" and "request_body_mode (input_request i) = CK_HTTP_BODY_CONTENT_LENGTH"
    and "length xs < 2 ^ 64" and "base \<le> length xs"
  shows "fed src xs base (input_step (acked i) (drop base xs)) (input_feed_body i src xs base)"
proof -
  let ?rem = "input_content_length_remaining i"
  define n where "n = min (unat ?rem) (length (drop base xs))"
  have acked: "acked i = i\<lparr>pending_body_data := None\<rparr>" using assms(4) by (rule acked_nothing_pending)
  have take: "(if ?rem < of_nat (length xs - base) then unat ?rem else length xs - base) = n"
    using assms(6) by (simp add: n_def word_less_nat_alt min_def)
  have eq: "?rem = of_nat n \<longleftrightarrow> n = unat ?rem"
    using unat_u64_less [of ?rem] by (auto simp: word_unat_eq_iff n_def)
  have "?rem \<noteq> 0" using assms(1-5) acked by (simp add: input_wf_def)
  then have "0 < unat ?rem" by (simp add: unat_gt_0)
  moreover have "input_step (acked i) (drop base xs) =
      (if n \<noteq> 0 then CK_HTTP_INPUT_BODY else CK_HTTP_INPUT_INCOMPLETE, take n (drop base xs), n,
       (acked i)\<lparr>input_content_length_remaining := ?rem - of_nat n, input_message_complete := (n = unat ?rem)\<rparr>)"
    using input_step_content_length [OF assms(1), of "drop base xs" n] assms(2,3,5,6)
    by (simp add: acked n_def)
  moreover have "n \<le> length xs - base" by (simp add: n_def)
  ultimately show ?thesis
    using assms(2-5,7) take eq
    by (auto simp: fed_def input_feed_body_def Let_def acked acked_def nothing_pending_def)
qed

lemma feed_body_chunked:
  assumes "input_wf (acked i)" and "input_header_complete i" and "\<not> input_message_complete i"
    and "nothing_pending i" and "request_body_mode (input_request i) = CK_HTTP_BODY_CHUNKED"
    and "unat (decoder_total_decoded (input_chunked i)) + length (drop base xs) < 2 ^ 64" and "base \<le> length xs"
  shows "fed src xs base (input_step (acked i) (drop base xs)) (input_feed_body i src xs base)"
proof -
  have acked: "acked i = i\<lparr>pending_body_data := None\<rparr>" using assms(4) by (rule acked_nothing_pending)
  obtain r c bd bl d where feed: "ck_http_chunked_feed False (input_chunked i) (drop base xs) = (r, c, bd, bl, d)"
    by (cases "ck_http_chunked_feed False (input_chunked i) (drop base xs)")
  have step: "input_step (acked i) (drop base xs) =
      (map_chunked_result r, take bl (drop (the bd) (drop base xs)), c,
       (acked i)\<lparr>input_chunked := d, input_message_complete := (r = CK_HTTP_CHUNKED_COMPLETE)\<rparr>)"
    using input_step_chunked [OF assms(1), of "drop base xs"] assms(2,3,5,6) feed by (simp add: acked)
  have "chunked_wf (input_chunked i)" using assms(1) by (simp add: acked input_wf_def)
  note ok = ck_http_chunked_feed_ok [OF this assms(6), unfolded feed]
  show ?thesis
  proof (cases "r = CK_HTTP_CHUNKED_DATA")
    case True
    with ok obtain off where off: "bd = Some off" "0 < bl" "c = off + bl" "c \<le> length (drop base xs)"
      by (auto simp: feed_ok_def)
    with True step feed assms(2-5,7) show ?thesis
      by (auto simp: fed_def input_feed_body_def acked acked_def nothing_pending_def Let_def add.commute
          intro!: exI [of _ "base + off"])
  next
    case False
    with ok have "bl = 0" "c \<le> length (drop base xs)" by (cases r; auto simp: feed_ok_def)+
    moreover have "map_chunked_result r \<noteq> CK_HTTP_INPUT_BODY" using False by (cases r) simp_all
    ultimately show ?thesis
      using False step feed assms(2-5,7)
      by (auto simp: fed_def input_feed_body_def acked acked_def nothing_pending_def Let_def)
  qed
qed

lemma feed_body_fed:
  assumes "input_ok (acked i) (length (drop base xs))" and "input_header_complete i"
    and "\<not> input_message_complete i" and "nothing_pending i" and "base \<le> length xs" and "length xs < 2 ^ 64"
  shows "fed src xs base (input_step (acked i) (drop base xs)) (input_feed_body i src xs base)"
proof -
  have acked: "acked i = i\<lparr>pending_body_data := None\<rparr>" using assms(4) by (rule acked_nothing_pending)
  have wf: "input_wf (acked i)" using assms(1) by (simp add: input_ok_def)
  have len: "unat (decoder_total_decoded (input_chunked i)) + length (drop base xs) < 2 ^ 64"
    using assms(1) by (simp add: input_ok_def acked)
  show ?thesis
  proof (cases "request_body_mode (input_request i)")
    case CK_HTTP_BODY_NONE
    with wf assms(2,3) show ?thesis by (simp add: acked input_wf_def)
  next
    case CK_HTTP_BODY_CONTENT_LENGTH
    with feed_body_content_length [OF wf assms(2-4)] assms(5,6) show ?thesis by simp
  next
    case CK_HTTP_BODY_CHUNKED
    with feed_body_chunked [OF wf assms(2-4)] len assms(5) show ?thesis by simp
  qed
qed

text \<open>The whole feed; the bytes of the header are reported separately from those of the span.\<close>

lemma input_feed_fed:
  assumes "input_ok (acked i) (length xs)" and "nothing_pending i"
  shows "\<exists>base step. fed src xs base step (ck_http_input_feed False i src xs)
    \<and> input_step (acked i) xs = (case step of (r, bs, k, e) \<Rightarrow> (r, bs, base + k, e))
    \<and> (input_header_complete i \<longrightarrow> base = 0)"
proof -
  have acked: "acked i = i\<lparr>pending_body_data := None\<rparr>" using assms(2) by (rule acked_nothing_pending)
  have wf: "input_wf (acked i)" and len: "length xs < 2 ^ 64"
    using assms(1) by (simp_all add: input_ok_def)
  have np: "pending_body_length i = 0" using assms(2) by (simp add: nothing_pending_def)
  consider "input_message_complete i" | (body) "\<not> input_message_complete i" "input_header_complete i"
    | (header) "\<not> input_header_complete i" "\<not> input_message_complete i" by blast
  then show ?thesis
  proof cases
    case 1
    with assms(2) show ?thesis
      by (intro exI [of _ 0] exI [of _ "(CK_HTTP_INPUT_COMPLETE, [], 0, acked i)"])
        (simp add: fed_def ck_http_input_feed_def input_step_def acked nothing_pending_def
          ck_http_input_ack_body_def)
  next
    case body
    with feed_body_fed [of i 0 xs src] assms len np show ?thesis
      by (intro exI [of _ 0] exI [of _ "input_step (acked i) xs"])
        (simp add: ck_http_input_feed_def split: prod.split)
  next
    case header
    obtain pr c parser request where feed:
        "ck_http_parser_feed False (input_parser i) xs (input_request i) = (pr, c, parser, request)"
      by (cases "ck_http_parser_feed False (input_parser i) xs (input_request i)")
    have c: "c \<le> length xs"
      using feed parser_feed_loop_consumed(1) [of "input_parser i" xs 0]
      by (fastforce simp: ck_http_parser_feed_def split: if_splits)
    let ?i1 = "i\<lparr>input_parser := parser, input_request := request\<rparr>"
    let ?i2 = "input_start_body ?i1"
    have np1: "nothing_pending ?i1" "nothing_pending ?i2"
      using assms(2) by (simp_all add: nothing_pending_def input_start_body_def Let_def)
    note acked1 = acked_nothing_pending [OF np1(1)] acked_nothing_pending [OF np1(2)]
    have start: "?i2\<lparr>pending_body_data := None\<rparr> =
        input_start_body ((acked i)\<lparr>input_parser := parser, input_request := request\<rparr>)"
      by (simp add: acked input_start_body_def Let_def)
    show ?thesis
    proof (cases "pr = CK_HTTP_PARSE_COMPLETE \<and> \<not> input_message_complete ?i2")
      case True
      have wf2: "input_wf (acked ?i2)" "decoder_total_decoded (input_chunked (acked ?i2)) = 0"
        using input_start_body_wf [OF wf, of request parser] header unfolding acked1 start by (simp_all add: acked)
      have fed: "fed src xs c (input_step (acked ?i2) (drop c xs)) (input_feed_body ?i2 src xs c)"
        using True wf2 c len np1(2)
        by (intro feed_body_fed) (simp_all add: input_ok_def input_start_body_def [of ?i1] Let_def)
      have "input_step (acked i) xs = (case input_step (acked ?i2) (drop c xs) of (r, bs, k, e) \<Rightarrow> (r, bs, c + k, e))"
        using input_step_header [OF wf _ _ start [folded acked1] _ len, of c] header feed True
        by (simp add: acked acked1)
      moreover have "ck_http_input_feed False i src xs = input_feed_body ?i2 src xs c"
        using header feed True np by (simp add: ck_http_input_feed_def Let_def)
      ultimately show ?thesis
        using fed header by (intro exI [of _ c] exI [of _ "input_step (acked ?i2) (drop c xs)"]) simp
    next
      case False
      then obtain r j where out: "ck_http_input_feed False i src xs = (r, c, None, 0, j)"
          "r \<noteq> CK_HTTP_INPUT_BODY" "nothing_pending j"
          "ck_http_input_feed False (acked i) 0 xs = (r, c, None, 0, j\<lparr>pending_body_data := None\<rparr>)"
        using header feed np np1
        by (cases pr) (auto simp: ck_http_input_feed_def acked Let_def start [unfolded acked, symmetric])
      then have "input_step (acked i) xs = (r, [], c, acked j)"
        by (simp add: input_step_def ck_http_input_ack_body_def nothing_pending_def acked_def)
      with out c header show ?thesis
        by (intro exI [of _ 0] exI [of _ "(r, [], c, acked j)"]) (simp add: fed_def nothing_pending_def)
    qed
  qed
qed

section \<open>What a round leaves for the rest of the stream\<close>

text \<open>What holds after a round, with \<open>n\<close> bytes still to come.\<close>

definition step_post ::
  "nat \<Rightarrow> u8 list \<Rightarrow> ck_http_input_result \<times> u8 list \<times> nat \<times> ck_http_input \<Rightarrow> bool" where
  "step_post n xs step = (case step of (r, bs, k, e) \<Rightarrow>
     input_ok e (length (drop k xs) + n)
   \<and> (r = CK_HTTP_INPUT_COMPLETE \<longrightarrow> input_message_complete e)
   \<and> (input_message_complete e \<longrightarrow> r = CK_HTTP_INPUT_COMPLETE \<or> r = CK_HTTP_INPUT_BODY)
   \<and> r \<noteq> CK_HTTP_INPUT_EOF_INCOMPLETE \<and> (r = CK_HTTP_INPUT_BODY \<longrightarrow> input_header_complete e))"

lemma body_step_post:
  assumes "input_ok i (length xs + n)" and "input_header_complete i" and "\<not> input_message_complete i"
  shows "step_post n xs (input_step i xs)"
proof -
  have wf: "input_wf i" and len: "unat (decoder_total_decoded (input_chunked i)) + length xs < 2 ^ 64"
    using assms(1) by (simp_all add: input_ok_def)
  show ?thesis
  proof (cases "request_body_mode (input_request i)")
    case CK_HTTP_BODY_NONE
    with wf assms(2,3) show ?thesis by (simp add: input_wf_def)
  next
    case CK_HTTP_BODY_CONTENT_LENGTH
    let ?rem = "input_content_length_remaining i"
    define k where "k = min (unat ?rem) (length xs)"
    have "0 < unat ?rem" using wf assms(2,3) CK_HTTP_BODY_CONTENT_LENGTH by (simp add: input_wf_def unat_gt_0)
    moreover have "k \<noteq> unat ?rem \<Longrightarrow> ?rem - of_nat k \<noteq> 0"
    proof
      assume "k \<noteq> unat ?rem" "?rem - of_nat k = 0"
      moreover have "unat (?rem - of_nat k) = unat ?rem - k"
        using counter_used_sub [of k ?rem 0] by (simp add: k_def)
      ultimately show False by (simp add: k_def)
    qed
    ultimately show ?thesis
      using wf assms(1,2) CK_HTTP_BODY_CONTENT_LENGTH len
        input_step_content_length [OF wf assms(2,3) CK_HTTP_BODY_CONTENT_LENGTH _ k_def]
      by (auto simp: step_post_def input_ok_def input_wf_def)
  next
    case CK_HTTP_BODY_CHUNKED
    obtain r c bd bl d where feed: "ck_http_chunked_feed False (input_chunked i) xs = (r, c, bd, bl, d)"
      by (cases "ck_http_chunked_feed False (input_chunked i) xs")
    have "chunked_wf (input_chunked i)" using wf by (simp add: input_wf_def)
    note ok = ck_http_chunked_feed_ok [OF this len, unfolded feed]
    note step = input_step_chunked [OF wf assms(2,3) CK_HTTP_BODY_CHUNKED len feed]
    have d: "chunked_wf d" "bl \<le> c" "c \<le> length xs"
      "decoder_total_decoded d = decoder_total_decoded (input_chunked i) + of_nat bl"
      using ok by (cases r; auto simp: feed_ok_def)+
    have "unat (decoder_total_decoded (input_chunked i) + of_nat bl)
        = unat (decoder_total_decoded (input_chunked i)) + bl"
      using d(2,3) len by (intro unat_add_less) simp
    then have "input_ok (i\<lparr>input_chunked := d, input_message_complete := b\<rparr>) (length (drop c xs) + n)" for b
      using wf assms(1,2) d CK_HTTP_BODY_CHUNKED by (simp add: input_ok_def input_wf_def)
    then show ?thesis using step assms(2) by (cases r) (simp_all add: step_post_def)
  qed
qed

lemma input_step_facts:
  assumes "input_ok i (length xs)" and "input_step i xs = (r, bs, k, e)"
  shows "k \<le> length xs" and "r \<noteq> CK_HTTP_INPUT_BODY \<Longrightarrow> bs = []" and "r = CK_HTTP_INPUT_BODY \<Longrightarrow> 0 < k"
proof -
  have wf: "acked i = i" "nothing_pending i"
    using acked_wf [of i] assms(1) by (simp_all add: input_ok_def)
  obtain base r' bs' k' e' where fed: "fed 0 xs base (r', bs', k', e') (ck_http_input_feed False i 0 xs)"
    and eq: "input_step i xs = (r', bs', base + k', e')"
    using input_feed_fed [of i xs 0] assms(1) wf by (auto split: prod.splits)
  with assms(2) show "k \<le> length xs" "r \<noteq> CK_HTTP_INPUT_BODY \<Longrightarrow> bs = []" "r = CK_HTTP_INPUT_BODY \<Longrightarrow> 0 < k"
    by (auto simp: fed_def split: prod.splits if_splits)
qed

lemma input_step_run:
  assumes "input_ok i (length xs)" and "input_step i xs = (r, bs, k, e)"
  shows "input_run i xs = (if r = CK_HTTP_INPUT_BODY then prepend_body bs (input_run e (drop k xs))
    else (r, [], drop k xs, e))"
  using input_step_facts [OF assms] assms(2) by (simp add: input_run.simps [of i])

lemma parser_feed_not_complete:
  assumes "parser_feed_loop p xs pos req = (r, c, p', req')" and "\<not> parser_complete p"
  shows "parser_complete p' \<longleftrightarrow> r = CK_HTTP_PARSE_COMPLETE"
  using assms
proof (induction p xs pos req rule: parser_feed_loop.induct)
  case (2 parser b source position request)
  then show ?case by (auto simp: Let_def split: if_splits prod.splits)
qed simp

lemma clear_pending_data [simp]: "pending_body_data i = None \<Longrightarrow> i\<lparr>pending_body_data := None\<rparr> = i"
  by (cases i) simp

lemma input_step_post:
  assumes "input_ok i (length xs + n)"
  shows "step_post n xs (input_step i xs)"
proof -
  have wf: "input_wf i" and np: "pending_body_length i = 0" "pending_body_data i = None"
    using assms by (simp_all add: input_ok_def input_wf_def)
  consider (complete) "input_message_complete i" | (body) "\<not> input_message_complete i" "input_header_complete i"
    | (header) "\<not> input_header_complete i" "\<not> input_message_complete i" by blast
  then show ?thesis
  proof cases
    case complete
    then show ?thesis
      using assms np by (simp add: step_post_def input_step_def ck_http_input_feed_def ck_http_input_ack_body_def)
  next
    case body
    with assms show ?thesis by (intro body_step_post)
  next
    case header
    obtain pr c parser request where feed:
        "ck_http_parser_feed False (input_parser i) xs (input_request i) = (pr, c, parser, request)"
      by (cases "ck_http_parser_feed False (input_parser i) xs (input_request i)")
    let ?i1 = "i\<lparr>input_parser := parser, input_request := request\<rparr>"
    let ?i2 = "input_start_body ?i1"
    note start = input_start_body_wf [OF wf header(1), of request parser]
    have np2: "pending_body_length ?i2 = 0" "pending_body_data ?i2 = None"
      using start(1) by (simp_all add: input_wf_def)
    have ok2: "input_ok ?i2 (length (drop c xs) + n)" using start(1,3) assms by (auto simp: input_ok_def)
    show ?thesis
    proof (cases "pr = CK_HTTP_PARSE_COMPLETE")
      case True
      show ?thesis
      proof (cases "input_message_complete ?i2")
        case complete: True
        then have "input_step i xs = (CK_HTTP_INPUT_COMPLETE, [], c, ?i2)"
          using header feed True np np2
          by (simp add: input_step_def ck_http_input_feed_def ck_http_input_ack_body_def Let_def)
        with complete ok2 show ?thesis by (simp add: step_post_def)
      next
        case going: False
        have "step_post n (drop c xs) (input_step ?i2 (drop c xs))"
          using ok2 start(2) going by (rule body_step_post)
        moreover have "input_step i xs = (case input_step ?i2 (drop c xs) of (r, bs, k, e) \<Rightarrow> (r, bs, c + k, e))"
          using input_step_header [OF wf header(1) feed [unfolded True] refl going] assms by (simp add: input_ok_def)
        ultimately show ?thesis by (auto simp: step_post_def add.commute split: prod.splits)
      qed
    next
      case False
      then have "\<not> parser_complete parser"
        using feed wf header parser_feed_not_complete [of "input_parser i" xs 0]
        by (fastforce simp: ck_http_parser_feed_def input_wf_def split: if_splits)
      then have "input_ok ?i1 (length (drop c xs) + n)"
        using wf assms header by (auto simp: input_ok_def input_wf_def)
      then show ?thesis
        using header feed False np
        by (cases pr) (simp_all add: step_post_def input_step_def ck_http_input_feed_def
            ck_http_input_ack_body_def Let_def)
    qed
  qed
qed

lemma input_step_ok:
  "input_ok i (length xs + n) \<Longrightarrow> input_step i xs = (r, bs, k, e) \<Longrightarrow> input_ok e (length (drop k xs) + n)"
  using input_step_post [of i xs n] by (simp add: step_post_def)

text \<open>A round and the rest of the stream give what the whole stream gives.\<close>

lemma input_step_future:
  assumes "input_ok i (length xs)" and "input_step i xs = (r, bs, k, e)"
  shows "r = CK_HTTP_INPUT_BODY \<or> r = CK_HTTP_INPUT_INCOMPLETE \<Longrightarrow>
      outcome input_failed (input_ref i (xs @ w)) = prepend_body bs (outcome input_failed (input_ref e (drop k xs @ w)))"
    and "r \<noteq> CK_HTTP_INPUT_BODY \<Longrightarrow> r \<noteq> CK_HTTP_INPUT_INCOMPLETE \<Longrightarrow>
      outcome input_failed (input_ref i (xs @ w)) = outcome input_failed (r, [], drop k xs @ w, e)"
proof -
  note run = input_step_run [OF assms]
  have same: "outcome input_failed (input_run i xs) = outcome input_failed (input_ref i xs)"
    using assms(1) by (rule input_run_ref)
  show "outcome input_failed (input_ref i (xs @ w)) = outcome input_failed (r, [], drop k xs @ w, e)"
    if "r \<noteq> CK_HTTP_INPUT_BODY" "r \<noteq> CK_HTTP_INPUT_INCOMPLETE"
    using input_machine.outcome_more [of r "[]" "drop k xs" e i xs w] same run that by simp
  show "outcome input_failed (input_ref i (xs @ w)) = prepend_body bs (outcome input_failed (input_ref e (drop k xs @ w)))"
    if "r = CK_HTTP_INPUT_BODY \<or> r = CK_HTTP_INPUT_INCOMPLETE"
  proof (cases "r = CK_HTTP_INPUT_INCOMPLETE")
    case True
    with input_machine.outcome_more [of r "[]" "drop k xs" e i xs w] same run
      input_step_facts(2) [OF assms] show ?thesis by simp
  next
    case False
    then have body: "r = CK_HTTP_INPUT_BODY" using that by simp
    obtain r1 b1 rest1 e1 where run1: "input_run e (drop k xs) = (r1, b1, rest1, e1)"
      by (cases "input_run e (drop k xs)")
    have "input_ok e (length (drop k xs))"
      using input_step_ok [of i xs 0 r bs k e] assms by simp
    then have "outcome input_failed (r1, b1, rest1, e1) = outcome input_failed (input_ref e (drop k xs))"
      using input_run_ref [of e "drop k xs"] run1 by simp
    from input_machine.outcome_more [OF this, of w]
      input_machine.outcome_more [of r1 "bs @ b1" rest1 e1 i xs w] same run run1 body
    show ?thesis by (simp add: outcome_tuple)
  qed
qed

end
