(* ===== verification/Ck_Http_Reader_Correct.thy ===== *)
theory Ck_Http_Reader_Correct
  imports Ck_Http_Reader
begin

text \<open>
  Correctness of the connection reader with its body queue attached: the invariant, what a pass of
  the inner loop and a whole drive do to the invariant and to the future of the byte stream, and
  the properties that follow.
\<close>

section \<open>The invariant of the reader\<close>

text \<open>
  A reader with its body queue attached, with at most \<open>n\<close> further bytes to come.  A pending span
  lies between \<open>begin\<close> and \<open>end\<close>; it is only there when the header is complete, so that a retry
  consumes exactly what the acknowledgement reports.  The queue is empty until the header is
  complete and open until the message is.
\<close>

definition unread :: "ck_http_connection_reader \<Rightarrow> u8 list" where
  "unread r = drop (reader_begin r + pending_input_consumed (reader_input r)) (reader_buffer r)"

definition pending_bytes :: "ck_http_connection_reader \<Rightarrow> u8 list" where
  "pending_bytes r = take (pending_body_length (reader_input r))
     (drop (the (pending_body_data (reader_input r))) (reader_buffer r))"

definition pending_ok :: "ck_http_connection_reader \<Rightarrow> bool" where
  "pending_ok r \<longleftrightarrow>
    (let i = reader_input r in
     if pending_body_length i = 0 then nothing_pending i
     else \<not> input_message_complete i \<and> input_header_complete i
        \<and> pending_input_consumed i \<le> CK_HTTP_CONNECTION_PROCESS_BUDGET_BYTES
        \<and> reader_begin r + pending_input_consumed i \<le> length (reader_buffer r)
        \<and> (\<exists>off \<ge> reader_begin r. pending_body_data i = Some off
             \<and> off + pending_body_length i = reader_begin r + pending_input_consumed i))"

definition queue_ok :: "ck_http_input \<Rightarrow> ck_http_request_body \<Rightarrow> bool" where
  "queue_ok i q \<longleftrightarrow> body_wf q
     \<and> (\<not> input_message_complete i \<longrightarrow> \<not> body_eof q \<and> \<not> body_error q)
     \<and> (\<not> input_header_complete i \<longrightarrow> body_bytes q = [])"

definition reader_wf :: "nat \<Rightarrow> ck_http_connection_reader \<Rightarrow> bool" where
  "reader_wf n r \<longleftrightarrow>
     reader_begin r \<le> length (reader_buffer r)
   \<and> length (reader_buffer r) \<le> CK_HTTP_CONNECTION_READ_BUFFER_BYTES
   \<and> input_ok (acked (reader_input r)) (length (unread r) + n)
   \<and> pending_ok r
   \<and> (\<exists>q. reader_body_queue r = Some q \<and> queue_ok (reader_input r) q)"

text \<open>What the reference makes of the reader's state and the bytes \<open>z\<close> that are still to come.\<close>

definition future :: "ck_http_connection_reader \<Rightarrow> u8 list \<Rightarrow> received" where
  "future r z = prepend_body (pending_bytes r)
     (outcome input_failed (input_ref (acked (reader_input r)) (unread r @ z)))"

abbreviation queued :: "ck_http_connection_reader \<Rightarrow> u8 list" where
  "queued r \<equiv> body_bytes (the (reader_body_queue r))"

lemma write_body_queue_open:
  assumes "body_wf q" and "\<not> body_eof q" and "\<not> body_error q" and "bs \<noteq> []"
    and "write_body_queue q bs = (result, q')"
  shows "body_wf q' \<and> \<not> body_eof q' \<and> \<not> body_error q'
    \<and> (if length (body_bytes q) + length bs \<le> CK_HTTP_REQUEST_BODY_BUFFER_BYTES
       then result = 0 \<and> body_bytes q' = body_bytes q @ bs
       else result = CK_HTTP_BODY_SINK_WOULD_BLOCK \<and> q' = q)"
  using assms body_bytes_ring_write [OF assms(1), of bs]
  by (auto simp: write_body_queue_def body_write_unfold split: if_splits)

lemma nothing_pending_simps:
  assumes "nothing_pending (reader_input r)"
  shows "unread r = drop (reader_begin r) (reader_buffer r)" and "pending_bytes r = []"
    and "pending_ok r"
  using assms by (simp_all add: unread_def pending_bytes_def nothing_pending_def pending_ok_def Let_def)

section \<open>One pass of the inner loop\<close>

definition feed_post ::
  "nat \<Rightarrow> ck_http_connection_reader \<Rightarrow> nat
   \<Rightarrow> (ck_http_connection_read_result + ck_http_input_result \<times> nat) \<times> ck_http_connection_reader \<Rightarrow> bool" where
  "feed_post n r budget out =
    (case out of
       (Inl err, r') \<Rightarrow> err = CK_HTTP_CONNECTION_READ_BODY_BACKPRESSURE \<and> reader_wf n r'
         \<and> queued r' = queued r \<and> (\<forall>z. future r' z = future r z)
     | (Inr (ir, consumed), r') \<Rightarrow>
         let r2 = r'\<lparr>reader_begin := reader_begin r' + consumed\<rparr> in
         consumed \<le> budget \<and> reader_wf n r2 \<and> nothing_pending (reader_input r2)
         \<and> (ir = CK_HTTP_INPUT_COMPLETE \<longrightarrow> input_message_complete (reader_input r2))
         \<and> (input_message_complete (reader_input r2) \<longrightarrow> ir = CK_HTTP_INPUT_COMPLETE \<or> ir = CK_HTTP_INPUT_BODY)
         \<and> ir \<noteq> CK_HTTP_INPUT_EOF_INCOMPLETE
         \<and> (\<exists>bs. queued r2 = queued r @ bs
              \<and> (if ir = CK_HTTP_INPUT_BODY \<or> ir = CK_HTTP_INPUT_INCOMPLETE
                 then \<forall>z. future r z = prepend_body bs (future r2 z)
                 else bs = [] \<and> (\<forall>z. future r z = outcome input_failed (ir, [], unread r2 @ z, acked (reader_input r2))))))"

lemma input_feed_mono:
  assumes "ck_http_input_feed False i src xs = (r, c, bd, bl, i')"
  shows "input_message_complete i \<Longrightarrow> input_message_complete i'"
    and "input_header_complete i \<Longrightarrow> input_header_complete i'"
  using assms
  by (auto simp: ck_http_input_feed_def input_feed_body_def Let_def
      split: if_splits prod.splits ck_http_parse_result.splits ck_http_body_mode.splits)

lemma reader_feed_pending:
  assumes "reader_wf n r" and "pending_body_length (reader_input r) \<noteq> 0"
    and "reader_feed None r ctx CK_HTTP_CONNECTION_PROCESS_BUDGET_BYTES = (res, r', ctx')"
  shows "feed_post n r CK_HTTP_CONNECTION_PROCESS_BUDGET_BYTES (res, r')"
proof -
  let ?i = "reader_input r" and ?budget = CK_HTTP_CONNECTION_PROCESS_BUDGET_BYTES
  obtain q where q: "reader_body_queue r = Some q" "queue_ok ?i q"
    using assms(1) by (auto simp: reader_wf_def)
  obtain off where pend: "\<not> input_message_complete ?i" "input_header_complete ?i"
      "pending_input_consumed ?i \<le> ?budget"
      "reader_begin r + pending_input_consumed ?i \<le> length (reader_buffer r)"
      "pending_body_data ?i = Some off"
      "off + pending_body_length ?i = reader_begin r + pending_input_consumed ?i"
    using assms(1,2) by (auto simp: reader_wf_def pending_ok_def Let_def)
  have feed: "ck_http_input_feed False ?i src xs = (CK_HTTP_INPUT_BODY, 0, Some off, pending_body_length ?i, ?i)" for src xs
    using assms(2) pend(5) by (simp add: ck_http_input_feed_def)
  have bytes: "take (pending_body_length ?i) (drop off (reader_buffer r)) = pending_bytes r" "pending_bytes r \<noteq> []"
    using assms(2) pend by (auto simp: pending_bytes_def)
  obtain result q' where w: "write_body_queue q (pending_bytes r) = (result, q')" by fastforce
  have opened: "body_wf q" "\<not> body_eof q" "\<not> body_error q" using q(2) pend(1) by (simp_all add: queue_ok_def)
  note wr = write_body_queue_open [OF opened bytes(2) w]
  have same: "r\<lparr>reader_input := ?i, reader_body_queue := Some q\<rparr> = r" using q(1) by simp
  let ?r2 = "r\<lparr>reader_input := acked ?i, reader_body_queue := Some q', reader_begin := reader_begin r + pending_input_consumed ?i\<rparr>"
  show ?thesis
  proof (cases "length (body_bytes q) + length (pending_bytes r) \<le> CK_HTTP_REQUEST_BODY_BUFFER_BYTES")
    case True
    with wr have res: "result = 0" "body_bytes q' = body_bytes q @ pending_bytes r" by simp_all
    have out: "res = Inr (CK_HTTP_INPUT_BODY, pending_input_consumed ?i)"
      "r' = r\<lparr>reader_input := acked ?i, reader_body_queue := Some q'\<rparr>"
      using assms(2,3) q(1) w res(1) pend(3,4) ack_acked [OF assms(2)]
      by (auto simp: reader_feed_def feed run_sink_def bytes(1) Let_def reader_limits split: if_splits)
    have np: "nothing_pending (acked ?i)" "acked (acked ?i) = acked ?i"
      by (simp_all add: nothing_pending_def acked_def)
    have "unread ?r2 = unread r" using np by (simp add: unread_def nothing_pending_def)
    moreover have "queue_ok (acked ?i) q'"
      using wr pend(2) by (simp add: queue_ok_def acked_def)
    ultimately have "reader_wf n ?r2"
      using assms(1) pend(4) np by (simp add: reader_wf_def nothing_pending_simps(3))
    moreover have "future r z = prepend_body (pending_bytes r) (future ?r2 z)" for z
      using np \<open>unread ?r2 = unread r\<close> by (simp add: future_def nothing_pending_simps)
    ultimately show ?thesis
      using out res(2) np(1) q(1) pend(3) by (simp add: feed_post_def)
  next
    case False
    with wr have res: "result = CK_HTTP_BODY_SINK_WOULD_BLOCK" "q' = q" by simp_all
    then have "res = Inl CK_HTTP_CONNECTION_READ_BODY_BACKPRESSURE" "r' = r"
      using assms(2,3) q(1) w same
      by (auto simp: reader_feed_def feed run_sink_def bytes(1) Let_def split: if_splits)
    with assms(1) show ?thesis by (simp add: feed_post_def)
  qed
qed

lemma reader_feed_fresh:
  assumes "reader_wf n r" and "nothing_pending (reader_input r)"
    and "budget \<le> CK_HTTP_CONNECTION_PROCESS_BUDGET_BYTES"
    and "reader_feed None r ctx budget = (res, r', ctx')"
  shows "feed_post n r budget (res, r')"
proof -
  let ?i = "reader_input r" and ?b = "reader_begin r" and ?buf = "reader_buffer r"
  define fl where "fl = (if length ?buf - ?b < budget then length ?buf - ?b else budget)"
  define xs where "xs = take fl (drop ?b ?buf)"
  define ys where "ys = drop fl (drop ?b ?buf)"
  have fl: "fl \<le> budget" "fl \<le> length ?buf - ?b" "length xs = fl" "?b + fl \<le> length ?buf"
    using assms(1) by (auto simp: fl_def xs_def reader_wf_def)
  have tail: "drop (?b + k) ?buf = drop k xs @ ys" if "k \<le> fl" for k
    using that fl by (simp add: xs_def ys_def drop_take add.commute)
      (metis append_take_drop_id drop_drop le_add_diff_inverse2)
  have unread: "unread r = xs @ ys"
    using tail [of 0] assms(2) by (simp add: nothing_pending_simps(1))
  have ok: "input_ok (acked ?i) (length xs + (length ys + n))"
    using assms(1) unread by (simp add: reader_wf_def add.assoc)
  then have ok_xs: "input_ok (acked ?i) (length xs)" by (simp add: input_ok_def)
  obtain q where q: "reader_body_queue r = Some q" "queue_ok ?i q"
    using assms(1) by (auto simp: reader_wf_def)
  obtain base rr bs k e c bd bl i' where
      feed: "ck_http_input_feed False ?i ?b xs = (rr, c, bd, bl, i')"
    and fed: "fed ?b xs base (rr, bs, k, e) (rr, c, bd, bl, i')"
    and step: "input_step (acked ?i) xs = (rr, bs, base + k, e)"
    and base: "input_header_complete ?i \<longrightarrow> base = 0"
  proof -
    obtain base st where *: "fed ?b xs base st (ck_http_input_feed False ?i ?b xs)"
        "input_step (acked ?i) xs = (case st of (r, bs, k, e) \<Rightarrow> (r, bs, base + k, e))"
        "input_header_complete ?i \<longrightarrow> base = 0"
      using input_feed_fed [OF ok_xs assms(2)] by blast
    obtain rr bs k e where st: "st = (rr, bs, k, e)" by (cases st)
    obtain r0 c bd bl i' where out: "ck_http_input_feed False ?i ?b xs = (r0, c, bd, bl, i')"
      by (cases "ck_http_input_feed False ?i ?b xs")
    moreover have "r0 = rr" using *(1) st out by (simp add: fed_def)
    ultimately show thesis using that [of rr c bd bl i' base bs k e] * st by simp
  qed
  have k: "base + k \<le> fl" and e: "e = acked i'" and kc: "base + k = c + pending_input_consumed i'"
    and len: "pending_body_length i' = bl"
    using fed fl(3) by (auto simp: fed_def)
  note mono = input_feed_mono [OF feed]
  have post: "input_ok e (length (drop (base + k) xs) + (length ys + n))"
      "rr = CK_HTTP_INPUT_COMPLETE \<longrightarrow> input_message_complete e"
      "input_message_complete e \<longrightarrow> rr = CK_HTTP_INPUT_COMPLETE \<or> rr = CK_HTTP_INPUT_BODY"
      "rr \<noteq> CK_HTTP_INPUT_EOF_INCOMPLETE" "rr = CK_HTTP_INPUT_BODY \<longrightarrow> input_header_complete e"
    using input_step_post [OF ok] step by (simp_all add: step_post_def)
  note fut = input_step_future [OF ok_xs step, of "ys @ z" for z]
  have feed': "ck_http_input_feed False ?i ?b (take fl (drop ?b ?buf)) = (rr, c, bd, bl, i')"
    using feed by (simp add: xs_def)
  have c_le: "\<not> c > fl" using k kc by simp
  show ?thesis
  proof (cases "bl = 0")
    case True
    then have bs: "bs = []" and np: "nothing_pending i'" using fed by (auto simp: fed_def)
    have out: "res = Inr (rr, c)" "r' = r\<lparr>reader_input := i'\<rparr>"
      using assms(4) feed' True c_le unfolding reader_feed_def Let_def fl_def [symmetric] by auto
    let ?r2 = "r\<lparr>reader_input := i', reader_begin := ?b + c\<rparr>"
    have c: "c = base + k" using kc np by (simp add: nothing_pending_def)
    have un: "unread ?r2 = drop c xs @ ys" using np tail [of c] k c by (simp add: nothing_pending_simps)
    have mc: "input_message_complete i' = input_message_complete e" "input_header_complete i' = input_header_complete e"
      using e np by (simp_all add: acked_nothing_pending)
    have "queue_ok i' q" using q(2) mono by (auto simp: queue_ok_def)
    then have "reader_wf n ?r2"
      using assms(1) un post(1) e c k fl np q(1) by (simp add: reader_wf_def nothing_pending_simps(3) add.assoc)
    moreover have "future r z = prepend_body [] (future ?r2 z)"
      if "rr = CK_HTTP_INPUT_BODY \<or> rr = CK_HTTP_INPUT_INCOMPLETE" for z
      using fut(1) [OF that] unread un np assms(2) bs e c by (simp add: future_def nothing_pending_simps(2))
    moreover have "future r z = outcome input_failed (rr, [], unread ?r2 @ z, acked i')"
      if "rr \<noteq> CK_HTTP_INPUT_BODY" "rr \<noteq> CK_HTTP_INPUT_INCOMPLETE" for z
      using fut(2) [OF that] unread un assms(2) e c by (simp add: future_def nothing_pending_simps(2))
    ultimately show ?thesis
      using out post mc np fl(1) k c q(1) by (auto simp: feed_post_def Let_def)
  next
    case False
    then obtain off where body: "rr = CK_HTTP_INPUT_BODY" "c = base" "pending_body_data i' = bd"
        "input_header_complete i'" "\<not> input_message_complete i'" "bd = Some (?b + off)"
        "off + bl = base + k" "bs = take bl (drop off xs)" "base \<le> off"
      using fed by (auto simp: fed_def)
    have pc: "pending_input_consumed i' = k" using kc body(2) by simp
    have bytes: "take bl (drop (the bd) ?buf) = bs" "length bs = bl" "bs \<noteq> []"
      using body k fl False by (auto simp: xs_def drop_take min_def add.commute)
    have opened: "body_wf q" "\<not> body_eof q" "\<not> body_error q"
      using q(2) body(5) mono by (auto simp: queue_ok_def)
    obtain result q' where w: "write_body_queue q bs = (result, q')" by fastforce
    note wr = write_body_queue_open [OF opened bytes(3) w]
    have ack: "ck_http_input_ack_body False i' = Some (k, e)"
      using ack_acked [of i'] len False e pc by simp
    show ?thesis
    proof (cases "length (body_bytes q) + length bs \<le> CK_HTTP_REQUEST_BODY_BUFFER_BYTES")
      case True
      with wr have res: "result = 0" "body_bytes q' = body_bytes q @ bs" by simp_all
      have nless: "\<not> fl - base < k" using k by simp
      have out: "res = Inr (CK_HTTP_INPUT_BODY, base + k)"
        "r' = r\<lparr>reader_input := e, reader_body_queue := Some q'\<rparr>"
        using nless assms(4) feed' False c_le w res(1) q(1) ack bytes(1) body(1,2) k
        unfolding reader_feed_def Let_def fl_def [symmetric] by (auto simp: run_sink_def reader_limits)
      let ?r2 = "r\<lparr>reader_input := e, reader_body_queue := Some q', reader_begin := ?b + (base + k)\<rparr>"
      have np: "nothing_pending e" "acked e = e" using e by (simp_all add: nothing_pending_def acked_def)
      have un: "unread ?r2 = drop (base + k) xs @ ys"
        using np tail [of "base + k"] k by (simp add: nothing_pending_simps)
      have "queue_ok e q'" using wr post(5) body(1) by (simp add: queue_ok_def)
      then have "reader_wf n ?r2"
        using assms(1) un post(1) np k fl by (simp add: reader_wf_def nothing_pending_simps(3) add.assoc)
      moreover have "future r z = prepend_body bs (future ?r2 z)" for z
        using fut(1) body(1) unread un np assms(2) by (simp add: future_def nothing_pending_simps(2))
      ultimately show ?thesis
        using out post np res(2) fl(1) k q(1) by (auto simp: feed_post_def Let_def)
    next
      case full: False
      with wr have res: "result = CK_HTTP_BODY_SINK_WOULD_BLOCK" "q' = q" by simp_all
      have out: "res = Inl CK_HTTP_CONNECTION_READ_BODY_BACKPRESSURE" "r' = r\<lparr>reader_input := i'\<rparr>"
        using assms(4) feed' False c_le w res q(1) bytes(1)
        unfolding reader_feed_def Let_def fl_def [symmetric] by (auto simp: run_sink_def)
      have "body_bytes q \<noteq> []"
        using full bytes(2) body(7) k fl(1) assms(3) by (auto simp: reader_limits CK_HTTP_REQUEST_BODY_BUFFER_BYTES_def)
      then have base0: "base = 0" using base q(2) by (auto simp: queue_ok_def)
      let ?r2 = "r\<lparr>reader_input := i'\<rparr>"
      have un: "unread ?r2 = drop k xs @ ys" using tail [of k] k pc by (simp add: unread_def)
      have pb: "pending_bytes ?r2 = bs" using bytes(1) body(3) len by (simp add: pending_bytes_def)
      have "pending_ok ?r2"
        using len False body base0 pc k fl assms(3) by (auto simp: pending_ok_def Let_def)
      moreover have "queue_ok i' q" using opened body(4) by (simp add: queue_ok_def)
      ultimately have "reader_wf n ?r2"
        using assms(1) un post(1) e base0 q(1) by (simp add: reader_wf_def add.assoc)
      moreover have "future r z = future ?r2 z" for z
        using fut(1) body(1) unread un pb assms(2) e base0 by (simp add: future_def nothing_pending_simps(2))
      ultimately show ?thesis using out by (simp add: feed_post_def)
    qed
  qed
qed

section \<open>The inner loop\<close>

definition process_post ::
  "nat \<Rightarrow> ck_http_connection_reader \<Rightarrow> ck_http_connection_read_result option \<Rightarrow> ck_http_connection_reader \<Rightarrow> bool" where
  "process_post n r res r' \<longleftrightarrow> reader_wf n r' \<and> (res = None \<longrightarrow> nothing_pending (reader_input r'))
     \<and> (\<exists>bs. queued r' = queued r @ bs \<and>
          (case res of
             Some CK_HTTP_CONNECTION_READ_BAD_REQUEST \<Rightarrow>
               (\<forall>z. \<exists>e. future r z = (CK_HTTP_INPUT_BAD_REQUEST, bs, [], e))
           | Some CK_HTTP_CONNECTION_READ_TOO_LARGE \<Rightarrow>
               (\<forall>z. \<exists>e. future r z = (CK_HTTP_INPUT_TOO_LARGE, bs, [], e))
           | Some CK_HTTP_CONNECTION_READ_REQUEST_COMPLETE \<Rightarrow>
               input_message_complete (reader_input r') \<and> nothing_pending (reader_input r')
               \<and> (\<forall>z. future r z = prepend_body bs (future r' z))
           | Some CK_HTTP_CONNECTION_READ_IO_ERROR \<Rightarrow> False
           | Some CK_HTTP_CONNECTION_READ_SINK_ERROR \<Rightarrow> False
           | Some CK_HTTP_CONNECTION_READ_EOF_INCOMPLETE \<Rightarrow> False
           | _ \<Rightarrow> (\<forall>z. future r z = prepend_body bs (future r' z))))"

lemma process_post_step:
  assumes "process_post n r2 res r'" and "queued r2 = queued r @ bs"
    and "\<And>z. future r z = prepend_body bs (future r2 z)"
  shows "process_post n r res r'"
proof -
  obtain bs' where bs': "queued r' = queued r2 @ bs'" using assms(1) by (auto simp: process_post_def)
  then have q: "queued r' = queued r @ (bs @ bs')" using assms(2) by simp
  have "\<And>z. \<exists>e. future r2 z = (f, bs', [], e) \<Longrightarrow> \<exists>e. future r z = (f, bs @ bs', [], e)" for f
    using assms(3) by fastforce
  with assms(1,3) q bs' show ?thesis
    unfolding process_post_def
    by (auto intro!: exI [of _ "bs @ bs'"] split: option.splits ck_http_connection_read_result.splits)
qed

lemma future_complete:
  assumes "input_message_complete (reader_input r)" and "nothing_pending (reader_input r)"
  shows "future r z = (CK_HTTP_INPUT_COMPLETE, [], unread r @ z, acked (reader_input r))"
  using assms by (simp add: future_def nothing_pending_simps input_ref_def acked_nothing_pending)

lemma reader_views_queue [simp]:
  "unread (r\<lparr>reader_body_queue := q\<rparr>) = unread r"
  "pending_bytes (r\<lparr>reader_body_queue := q\<rparr>) = pending_bytes r"
  "pending_ok (r\<lparr>reader_body_queue := q\<rparr>) = pending_ok r"
  "future (r\<lparr>reader_body_queue := q\<rparr>) = future r"
  by (simp_all add: unread_def pending_bytes_def pending_ok_def future_def fun_eq_iff)

lemma body_marks [simp]:
  "body_wf (ck_http_request_body_mark_eof q) = body_wf q"
  "body_bytes (ck_http_request_body_mark_eof q) = body_bytes q"
  "body_wf (ck_http_request_body_mark_error q) = body_wf q"
  "body_bytes (ck_http_request_body_mark_error q) = body_bytes q"
  by (simp_all add: ck_http_request_body_mark_eof_def ck_http_request_body_mark_error_def body_wf_def body_bytes_def)

lemma reader_wf_mark_eof:
  assumes "reader_wf n r" and "input_message_complete (reader_input r)"
  defines "r' \<equiv> r\<lparr>reader_body_queue := map_option ck_http_request_body_mark_eof (reader_body_queue r)\<rparr>"
  shows "reader_wf n r'" and "queued r' = queued r" and "future r' = future r"
  using assms
  by (auto simp: reader_wf_def queue_ok_def)

lemma reader_process_post:
  assumes "reader_wf n r" and "nothing_pending (reader_input r) \<or> budget = CK_HTTP_CONNECTION_PROCESS_BUDGET_BYTES"
    and "budget \<le> CK_HTTP_CONNECTION_PROCESS_BUDGET_BYTES"
    and "reader_process None r ctx budget = (res, r', ctx', budget')"
  shows "process_post n r res r' \<and> budget' \<le> budget"
  using assms
proof (induction "length (reader_buffer r) - reader_begin r" arbitrary: r ctx budget rule: less_induct)
  case less
  note wf = less.prems(1)
  show ?case
  proof (cases "reader_begin r < length (reader_buffer r)")
    case False
    then have "nothing_pending (reader_input r)"
      using wf by (auto simp: reader_wf_def pending_ok_def Let_def split: if_splits)
    with False less.prems(4) wf show ?thesis
      by (subst (asm) reader_process.simps) (auto simp: process_post_def)
  next
    case more: True
    show ?thesis
    proof (cases "budget = 0")
      case True
      with more less.prems(4) wf show ?thesis
        by (subst (asm) reader_process.simps) (auto simp: process_post_def)
    next
      case budget: False
      obtain fres r1 ctx1 where feed: "reader_feed None r ctx budget = (fres, r1, ctx1)"
        by (cases "reader_feed None r ctx budget")
      have post: "feed_post n r budget (fres, r1)"
      proof (cases "nothing_pending (reader_input r)")
        case True
        with wf less.prems(3) feed show ?thesis by (intro reader_feed_fresh)
      next
        case False
        then have "budget = CK_HTTP_CONNECTION_PROCESS_BUDGET_BYTES" "pending_body_length (reader_input r) \<noteq> 0"
          using less.prems(2) wf by (auto simp: reader_wf_def pending_ok_def Let_def split: if_splits)
        with wf feed reader_feed_pending [of n r ctx fres r1 ctx1] show ?thesis by simp
      qed
      note frame = reader_feed_frame [OF feed]
      show ?thesis
      proof (cases fres)
        case (Inl err)
        with less.prems(4) more budget feed post show ?thesis
          by (subst (asm) reader_process.simps) (auto simp: process_post_def feed_post_def)
      next
        case (Inr p)
        obtain ir consumed where p: "p = (ir, consumed)" by (cases p)
        let ?r2 = "r1\<lparr>reader_begin := reader_begin r1 + consumed\<rparr>"
        let ?i2 = "reader_input ?r2"
        have f: "consumed \<le> budget" "reader_wf n ?r2" "nothing_pending ?i2"
            "ir = CK_HTTP_INPUT_COMPLETE \<longrightarrow> input_message_complete ?i2"
            "input_message_complete ?i2 \<longrightarrow> ir = CK_HTTP_INPUT_COMPLETE \<or> ir = CK_HTTP_INPUT_BODY"
            "ir \<noteq> CK_HTTP_INPUT_EOF_INCOMPLETE"
          using post Inr p by (auto simp: feed_post_def Let_def)
        obtain bs where bs: "queued ?r2 = queued r @ bs"
          "if ir = CK_HTTP_INPUT_BODY \<or> ir = CK_HTTP_INPUT_INCOMPLETE
             then \<forall>z. future r z = prepend_body bs (future ?r2 z)
             else bs = [] \<and> (\<forall>z. future r z = outcome input_failed (ir, [], unread ?r2 @ z, acked ?i2))"
          using post Inr p by (auto simp: feed_post_def Let_def)
        have step: "\<And>z. future r z = prepend_body bs (future ?r2 z)"
          if "ir = CK_HTTP_INPUT_BODY \<or> ir = CK_HTTP_INPUT_INCOMPLETE \<or> ir = CK_HTTP_INPUT_COMPLETE"
          using that bs(2) f(3,4) by (auto simp: future_complete)
        note unfold = less.prems(4) [unfolded reader_process.simps [of None r] feed Inr p]
        show ?thesis
        proof (cases "input_message_complete ?i2")
          case True
          note marked = reader_wf_mark_eof [OF f(2) True]
          have out: "res = Some CK_HTTP_CONNECTION_READ_REQUEST_COMPLETE" "budget' \<le> budget"
            "r' = ?r2\<lparr>reader_body_queue := map_option ck_http_request_body_mark_eof (reader_body_queue ?r2)\<rparr>"
            using unfold more budget True by (auto simp: ck_http_input_complete_def)
          have "process_post n ?r2 res r'"
            using marked True f(3) unfolding out process_post_def by (auto intro!: exI [of _ "[]"])
          then show ?thesis using process_post_step [OF _ bs(1) step] f(5) True out(2) by blast
        next
          case going: False
          show ?thesis
          proof (cases "ir = CK_HTTP_INPUT_BODY \<or> ir = CK_HTTP_INPUT_INCOMPLETE")
            case True
            show ?thesis
            proof (cases "reader_begin ?r2 = length (reader_buffer ?r2) \<or> consumed = 0")
              case stop: True
              have out: "res = None" "r' = ?r2" "budget' \<le> budget"
                using unfold more budget going True stop by (auto simp: ck_http_input_complete_def)
              have "process_post n ?r2 res r'"
                using f(2,3) unfolding out process_post_def by (auto intro!: exI [of _ "[]"])
              then show ?thesis using process_post_step [OF _ bs(1) step] True out(3) by blast
            next
              case False
              have next_pass: "reader_process None ?r2 ctx1 (budget - consumed) = (res, r', ctx', budget')"
                using unfold more budget going True False by (auto simp: ck_http_input_complete_def)
              have shrink: "length (reader_buffer ?r2) - reader_begin ?r2 < length (reader_buffer r) - reader_begin r"
                using frame False more by auto
              have "process_post n ?r2 res r' \<and> budget' \<le> budget - consumed"
                using less.hyps [OF shrink f(2) _ _ next_pass] f(3) less.prems(3) by simp
              then show ?thesis using process_post_step [OF _ bs(1) step] True by fastforce
            qed
          next
            case bad: False
            then have ir: "ir = CK_HTTP_INPUT_BAD_REQUEST \<or> ir = CK_HTTP_INPUT_TOO_LARGE"
              using f(4,6) going by (cases ir) auto
            then have "res = Some (map_input_result ir)" "r' = ?r2" "budget' \<le> budget"
              using unfold more budget going by (auto simp: ck_http_input_complete_def)
            with f(2) bs ir show ?thesis by (auto simp: process_post_def)
          qed
        qed
      qed
    qed
  qed
qed

section \<open>A drive\<close>

text \<open>
  The result of a drive on socket \<open>s\<close>; \<open>k\<close> bounds the bytes that arrive afterwards, \<open>w\<close> ranges over
  them.
\<close>

definition drive_post ::
  "nat \<Rightarrow> ck_http_connection_reader \<Rightarrow> socket_event list \<Rightarrow> ck_http_connection_read_result
   \<Rightarrow> ck_http_connection_reader \<Rightarrow> socket_event list \<Rightarrow> bool" where
  "drive_post k r s res r' s' \<longleftrightarrow>
     (res \<noteq> CK_HTTP_CONNECTION_READ_EOF_INCOMPLETE \<longrightarrow> reader_wf (length (socket_bytes s') + k) r')
   \<and> (\<exists>bs. queued r' = queued r @ bs \<and>
        (case res of
           CK_HTTP_CONNECTION_READ_BAD_REQUEST \<Rightarrow>
             (\<forall>w. \<exists>e. future r (socket_bytes s @ w) = (CK_HTTP_INPUT_BAD_REQUEST, bs, [], e))
         | CK_HTTP_CONNECTION_READ_TOO_LARGE \<Rightarrow> True
         | CK_HTTP_CONNECTION_READ_SINK_ERROR \<Rightarrow> False
         | CK_HTTP_CONNECTION_READ_REQUEST_COMPLETE \<Rightarrow>
             input_message_complete (reader_input r') \<and> nothing_pending (reader_input r')
             \<and> (\<forall>w. future r (socket_bytes s @ w) = prepend_body bs (future r' (socket_bytes s' @ w)))
         | _ \<Rightarrow> (\<forall>w. future r (socket_bytes s @ w) = prepend_body bs (future r' (socket_bytes s' @ w)))))
   \<and> (res = CK_HTTP_CONNECTION_READ_EOF_INCOMPLETE \<longrightarrow> Peer_closed \<in> set s
        \<and> \<not> input_message_complete (reader_input r'))
   \<and> (res = CK_HTTP_CONNECTION_READ_IO_ERROR \<longrightarrow> (\<exists>e. e \<noteq> EINTR \<and> Recv_error e \<in> set s))
   \<and> set s' - range Arrived \<subseteq> set s"

lemma drive_post_step:
  assumes "drive_post k r2 s2 res r' s'" and "queued r2 = queued r @ bs"
    and "\<And>w. future r (socket_bytes s @ w) = prepend_body bs (future r2 (socket_bytes s2 @ w))" and "set s2 - range Arrived \<subseteq> set s"
  shows "drive_post k r s res r' s'"
proof -
  obtain bs' where bs': "queued r' = queued r2 @ bs'" using assms(1) by (auto simp: drive_post_def)
  then have q: "queued r' = queued r @ (bs @ bs')" using assms(2) by simp
  have events: "Peer_closed \<in> set s2 \<Longrightarrow> Peer_closed \<in> set s"
      "\<exists>e. e \<noteq> EINTR \<and> Recv_error e \<in> set s2 \<Longrightarrow> \<exists>e. e \<noteq> EINTR \<and> Recv_error e \<in> set s"
      "set s' - range Arrived \<subseteq> set s2 \<Longrightarrow> set s' - range Arrived \<subseteq> set s"
    using assms(4) by auto
  have "\<And>w. \<exists>e. future r2 (socket_bytes s2 @ w) = (f, bs', [], e) \<Longrightarrow>
      \<exists>e. future r (socket_bytes s @ w) = (f, bs @ bs', [], e)" for f
    using assms(3) by fastforce
  then show ?thesis
    using assms(1,3) q bs' events unfolding drive_post_def
    by (cases res) (auto intro!: exI [of _ "bs @ bs'"])
qed

lemma recv_events: "recv len es = (res, es') \<Longrightarrow> set es' - range Arrived \<subseteq> set es"
  by (induction len es rule: recv.induct) (auto split: if_splits)

lemma recv_Closed: "recv len es = (Closed, es') \<Longrightarrow> 0 < len \<Longrightarrow> Peer_closed \<in> set es"
  by (induction len es rule: recv.induct) (auto split: if_splits)

lemma recv_Failed_event: "recv len es = (Failed e, es') \<Longrightarrow> e \<noteq> EAGAIN \<Longrightarrow> Recv_error e \<in> set es"
  by (induction len es rule: recv.induct) (auto split: if_splits)

lemma reader_compact_views:
  assumes "nothing_pending (reader_input r)" and "reader_wf n r"
  shows "future (reader_compact r) = future r" and "reader_wf n (reader_compact r)"
    and "queued (reader_compact r) = queued r" and "reader_input (reader_compact r) = reader_input r"
proof -
  have np: "nothing_pending (reader_input (reader_compact r))" using assms(1) by (simp add: reader_compact_def)
  then have un: "unread (reader_compact r) = unread r"
    using assms(1) by (simp add: nothing_pending_simps(1)) (simp add: reader_compact_def)
  then show "future (reader_compact r) = future r"
    using np assms(1) by (simp add: future_def fun_eq_iff nothing_pending_simps(2)) (simp add: reader_compact_def)
  show "reader_wf n (reader_compact r)"
    using assms(2) un nothing_pending_simps(3) [OF np]
    by (simp add: reader_wf_def) (auto simp: reader_compact_def)
qed (simp_all add: reader_compact_def)

lemma reader_receive_views:
  assumes "nothing_pending (reader_input r)" and "reader_wf (length bs + n) r"
    and "length (reader_buffer r) + length bs \<le> CK_HTTP_CONNECTION_READ_BUFFER_BYTES"
  defines "r' \<equiv> r\<lparr>reader_buffer := reader_buffer r @ bs\<rparr>"
  shows "future r' z = future r (bs @ z)" and "reader_wf n r'" and "queued r' = queued r"
proof -
  have np: "nothing_pending (reader_input r')" using assms(1) by (simp add: r'_def)
  have "reader_begin r \<le> length (reader_buffer r)" using assms(2) by (simp add: reader_wf_def)
  then have un: "unread r' = unread r @ bs"
    using np assms(1) by (simp add: nothing_pending_simps(1)) (simp add: r'_def)
  then show "future r' z = future r (bs @ z)"
    using np assms(1) by (simp add: future_def nothing_pending_simps(2)) (simp add: r'_def)
  show "reader_wf n r'"
    using assms(2,3) un nothing_pending_simps(3) [OF np]
    by (simp add: reader_wf_def add.assoc) (auto simp: r'_def)
qed (simp add: r'_def)

lemma drive_post_of_process:
  assumes "process_post (length (socket_bytes s) + k) r (Some res) r'"
  shows "drive_post k r s res r' s"
  using assms by (cases res) (auto simp: process_post_def drive_post_def)

lemma reader_drive_loop_post:
  assumes "reader_wf (length (socket_bytes s) + k) r"
    and "nothing_pending (reader_input r) \<or> pb = CK_HTTP_CONNECTION_PROCESS_BUDGET_BYTES"
    and "pb \<le> CK_HTTP_CONNECTION_PROCESS_BUDGET_BYTES"
    and "reader_drive_loop None r ctx s rb pb = (res, r', ctx', s')"
  shows "drive_post k r s res r' s'"
  using assms
proof (induction "rb + length s" arbitrary: r ctx s rb pb rule: less_induct)
  case less
  let ?n = "length (socket_bytes s) + k"
  obtain pres r1 ctx1 pb1 where proc: "reader_process None r ctx pb = (pres, r1, ctx1, pb1)"
    by (cases "reader_process None r ctx pb")
  have post: "process_post ?n r pres r1" and pb1: "pb1 \<le> pb"
    using reader_process_post [OF less.prems(1-3) proc] by simp_all
  note loop = less.prems(4) [unfolded reader_drive_loop.simps [of None r] proc prod.case option.case Let_def]
  show ?case
  proof (cases pres)
    case (Some pr)
    with loop post show ?thesis by (simp add: drive_post_of_process)
  next
    case None
    obtain bs where bs: "queued r1 = queued r @ bs" "\<And>z. future r z = prepend_body bs (future r1 z)"
      and wf1: "reader_wf ?n r1" and np1: "nothing_pending (reader_input r1)"
      using post None by (auto simp: process_post_def)
    have here: "drive_post k r s res r' s'"
      if "res = CK_HTTP_CONNECTION_READ_INCOMPLETE \<or> res = CK_HTTP_CONNECTION_READ_TOO_LARGE" "reader_wf ?n r'"
        "future r' = future r1" "queued r' = queued r1" "s' = s"
      using that bs by (auto simp: drive_post_def)
    define r2 where "r2 = (if length (reader_buffer r1) = CK_HTTP_CONNECTION_READ_BUFFER_BYTES
        then reader_compact r1 else r1)"
    have r2: "future r2 = future r1" "reader_wf ?n r2" "queued r2 = queued r1" "reader_input r2 = reader_input r1"
      using reader_compact_views [OF np1 wf1] wf1 by (simp_all add: r2_def)
    show ?thesis
    proof (cases "reader_begin r1 < length (reader_buffer r1) \<and> pb1 = 0
        \<or> length (reader_buffer r1) = CK_HTTP_CONNECTION_READ_BUFFER_BYTES \<and> reader_begin r1 = 0")
      case True
      with loop None wf1 show ?thesis by (intro here) (auto split: if_splits)
    next
      case go_on: False
      define len where "len = (if CK_HTTP_CONNECTION_READ_BUFFER_BYTES - length (reader_buffer r2) < rb
          then CK_HTTP_CONNECTION_READ_BUFFER_BYTES - length (reader_buffer r2) else rb)"
      have room: "length (reader_buffer r2) < CK_HTTP_CONNECTION_READ_BUFFER_BYTES"
        using go_on wf1 by (auto simp: r2_def reader_compact_def reader_wf_def)
      show ?thesis
      proof (cases "rb = 0")
        case True
        with loop None go_on r2 show ?thesis by (intro here) (auto simp: r2_def split: if_splits)
      next
        case rb: False
        then have len: "0 < len" "len \<le> rb" "length (reader_buffer r2) + len \<le> CK_HTTP_CONNECTION_READ_BUFFER_BYTES"
          using room by (auto simp: len_def)
        obtain rr s1 where recv: "recv len s = (rr, s1)" by (cases "recv len s")
        note loop2 = loop [folded r2_def, folded len_def]
        show ?thesis
        proof (cases rr)
          case (Received bytes)
          let ?r3 = "r2\<lparr>reader_buffer := reader_buffer r2 @ bytes\<rparr>"
          note got = recv_Received [OF recv [unfolded Received]]
          have wf2: "reader_wf (length bytes + (length (socket_bytes s1) + k)) r2" using r2(2) got by (simp add: add.assoc)
          have np2: "nothing_pending (reader_input r2)" using np1 r2(4) by simp
          have fits: "length (reader_buffer r2) + length bytes \<le> CK_HTTP_CONNECTION_READ_BUFFER_BYTES"
            using got len by linarith
          note r3 = reader_receive_views [OF np2 wf2 fits]
          have next_round: "reader_drive_loop None ?r3 ctx1 s1 (rb - length bytes) pb1 = (res, r', ctx', s')"
            using loop2 None go_on rb recv Received by auto
          have small: "rb - length bytes + length s1 < rb + length s"
            using drive_measure [OF recv [unfolded Received]] rb by simp
          have "drive_post k ?r3 s1 res r' s'"
            using less.hyps [OF small r3(2) _ _ next_round] np2 pb1 less.prems(3) by simp
          moreover have "queued ?r3 = queued r @ bs" using r3(3) r2(3) bs(1) by simp
          moreover have "\<And>w. future r (socket_bytes s @ w) = prepend_body bs (future ?r3 (socket_bytes s1 @ w))"
            using bs(2) r2(1) r3(1) got by simp
          ultimately show ?thesis using recv_events [OF recv] by (rule drive_post_step)
        next
          case Closed
          note sb = recv_bytes(2) [OF recv [unfolded Closed]]
          have pc: "Peer_closed \<in> set s" using recv_Closed [OF recv [unfolded Closed] len(1)] .
          have out: "res = map_input_result (ck_http_input_eof False (reader_input r2))" "s' = s1"
            "r' = (if ck_http_input_eof False (reader_input r2) = CK_HTTP_INPUT_EOF_INCOMPLETE
               then r2\<lparr>reader_body_queue := map_option ck_http_request_body_mark_error (reader_body_queue r2)\<rparr> else r2)"
            using loop2 None go_on rb recv Closed by auto
          obtain q where "reader_body_queue r2 = Some q" using r2(2) by (auto simp: reader_wf_def)
          with out r2 bs pc sb np1 recv_events [OF recv] show ?thesis
            by (auto simp: drive_post_def ck_http_input_eof_def)
        next
          case (Failed e)
          note sb = recv_bytes(1) [OF recv [unfolded Failed]]
          show ?thesis
          proof (cases "e = EINTR")
            case True
            have next_round: "reader_drive_loop None r2 ctx1 s1 rb pb1 = (res, r', ctx', s')"
              using loop2 None go_on rb recv Failed True by auto
            have "length s1 < length s" using recv_Failed [OF recv [unfolded Failed]] True by simp
            then have small: "rb + length s1 < rb + length s" by simp
            have "drive_post k r2 s1 res r' s'"
              using less.hyps [OF small _ _ _ next_round] r2(2,4) np1 sb pb1 less.prems(3) by simp
            moreover have "\<And>w. future r (socket_bytes s @ w) = prepend_body bs (future r2 (socket_bytes s1 @ w))"
              using bs(2) r2(1) sb by simp
            ultimately show ?thesis
              using drive_post_step recv_events [OF recv] r2(3) bs(1) by metis
          next
            case False
            then have "res = (if e = EAGAIN then CK_HTTP_CONNECTION_READ_INCOMPLETE else CK_HTTP_CONNECTION_READ_IO_ERROR)"
              "r' = r2" "s' = s1"
              using loop2 None go_on rb recv Failed by (auto split: if_splits)
            with False r2 bs sb recv_events [OF recv] recv_Failed_event [OF recv [unfolded Failed]] show ?thesis
              by (auto simp: drive_post_def)
          qed
        qed
      qed
    qed
  qed
qed

end
