(* ===== verification/Ck_Http_Session.thy ===== *)
theory Ck_Http_Session
  imports Ck_Http_Reader_Correct
begin

text \<open>
  A connection over time.  Bytes arrive, system calls are interrupted, the event loop drives the
  reader, the consumer takes bytes out of the body queue: \<open>session\<close> is the set of states that any
  interleaving of these steps reaches, from a reader that was just initialised and attached to its
  queue.  The properties say what the consumer has seen, whatever the interleaving.
\<close>

section \<open>Interleavings\<close>

text \<open>
  The state is \<open>(bytes that have arrived, bytes the consumer has read, reader, socket, result of
  the last drive)\<close>.  The event loop drives again only after a result that asks for it.
\<close>

type_synonym session_state =
  "u8 list \<times> u8 list \<times> ck_http_connection_reader \<times> socket_event list \<times> ck_http_connection_read_result"

definition wants_drive :: "ck_http_connection_read_result \<Rightarrow> bool" where
  "wants_drive res \<longleftrightarrow> res = CK_HTTP_CONNECTION_READ_INCOMPLETE \<or> res = CK_HTTP_CONNECTION_READ_BODY_BACKPRESSURE"

definition new_reader :: "ck_http_connection_reader \<Rightarrow> ck_http_request_body \<Rightarrow> ck_http_connection_reader" where
  "new_reader r q = ck_http_connection_reader_attach_body_queue (ck_http_connection_reader_init r)
     (Some (ck_http_request_body_init q))"

inductive session :: "session_state \<Rightarrow> bool" where
  start: "length (body_buffer q) = CK_HTTP_REQUEST_BODY_BUFFER_BYTES \<Longrightarrow>
    session ([], [], new_reader r q, [], CK_HTTP_CONNECTION_READ_INCOMPLETE)"
| arrive: "session (a, d, r, s, res) \<Longrightarrow> session (a @ bs, d, r, s @ [Arrived bs], res)"
| interrupt: "session (a, d, r, s, res) \<Longrightarrow> session (a, d, r, s @ [Recv_error EINTR], res)"
| drive: "session (a, d, r, s, res) \<Longrightarrow> wants_drive res \<Longrightarrow>
    ck_http_connection_reader_drive False None r () s = (res', r', u, s') \<Longrightarrow>
    session (a, d, r', s', res')"
| consume: "session (a, d, r, s, res) \<Longrightarrow> reader_body_queue r = Some q \<Longrightarrow>
    ck_http_request_body_read False q capacity = (rr, bytes, q') \<Longrightarrow>
    session (a, d @ bytes, r\<lparr>reader_body_queue := Some q'\<rparr>, s, res)"

inductive_cases session_driveE: "session (a, d, r, s, CK_HTTP_CONNECTION_READ_REQUEST_COMPLETE)"

lemma socket_bytes_append [simp]: "socket_bytes (s @ t) = socket_bytes s @ socket_bytes t"
  by (induction s rule: socket_bytes.induct) simp_all

section \<open>The invariant of a session\<close>

text \<open>
  As long as the last result is not an error, everything the consumer has read, what is queued
  for it and what the reference makes of the rest add up to what the reference makes of the
  whole stream.
\<close>

definition session_inv :: "session_state \<Rightarrow> bool" where
  "session_inv st = (case st of (a, d, r, s, res) \<Rightarrow>
     Peer_closed \<notin> set s \<and> (\<forall>e. Recv_error e \<in> set s \<longrightarrow> e = EINTR)
   \<and> res \<notin> {CK_HTTP_CONNECTION_READ_EOF_INCOMPLETE, CK_HTTP_CONNECTION_READ_SINK_ERROR, CK_HTTP_CONNECTION_READ_IO_ERROR}
   \<and> (\<forall>k. length a + k < 2 ^ 64 \<longrightarrow> reader_wf (length (socket_bytes s) + k) r)
   \<and> (if res = CK_HTTP_CONNECTION_READ_BAD_REQUEST
      then \<forall>w. \<exists>e. outcome input_failed (input_ref zero_input (a @ w)) = (CK_HTTP_INPUT_BAD_REQUEST, d @ queued r, [], e)
      else if res = CK_HTTP_CONNECTION_READ_TOO_LARGE then True
      else \<forall>w. outcome input_failed (input_ref zero_input (a @ w))
             = prepend_body (d @ queued r) (future r (socket_bytes s @ w)))
   \<and> (res = CK_HTTP_CONNECTION_READ_REQUEST_COMPLETE \<longrightarrow>
        input_message_complete (reader_input r) \<and> nothing_pending (reader_input r)))"

lemma new_reader_views:
  assumes "length (body_buffer q) = CK_HTTP_REQUEST_BODY_BUFFER_BYTES"
  shows "k < 2 ^ 64 \<Longrightarrow> reader_wf k (new_reader r q)" and "queued (new_reader r q) = []"
    and "future (new_reader r q) w = outcome input_failed (input_ref zero_input w)"
proof -
  let ?r = "new_reader r q"
  have fields: "reader_input ?r = zero_input" "reader_begin ?r = 0" "reader_buffer ?r = []"
    "reader_body_queue ?r = Some (ck_http_request_body_init q)"
    by (simp_all add: new_reader_def ck_http_connection_reader_attach_body_queue_def
        ck_http_connection_reader_init_def input_init_eq)
  have np: "nothing_pending (reader_input ?r)" by (simp add: fields zero_input_def nothing_pending_def)
  have acked: "acked zero_input = zero_input"
    using np acked_nothing_pending [of zero_input] by (simp add: fields zero_input_def)
  have un: "unread ?r = []" using np by (simp add: nothing_pending_simps fields)
  have "body_wf (ck_http_request_body_init q)" "body_bytes (ck_http_request_body_init q) = []"
    using assms by (simp_all add: body_wf_def ck_http_request_body_init_def body_bytes_def)
  then show "k < 2 ^ 64 \<Longrightarrow> reader_wf k ?r" and "queued ?r = []"
    using np un acked input_init_ok [of k zero_input]
    by (simp_all add: reader_wf_def fields nothing_pending_simps(3) input_init_eq queue_ok_def
        ck_http_request_body_init_def)
  show "future ?r w = outcome input_failed (input_ref zero_input w)"
    using np un acked by (simp add: future_def nothing_pending_simps(2) fields)
qed

lemma session_inv_arrive:
  assumes "session_inv (a, d, r, s, res)"
  shows "session_inv (a @ bs, d, r, s @ [Arrived bs], res)"
proof -
  have "reader_wf (length (socket_bytes s) + length bs + k) r" if "length a + length bs + k < 2 ^ 64" for k
    using assms that by (simp add: session_inv_def add.assoc)
  with assms show ?thesis by (auto simp: session_inv_def)
qed

lemma session_inv_drive:
  assumes inv: "session_inv (a, d, r, s, res)" and "wants_drive res" and "length a < 2 ^ 64"
    and drive: "ck_http_connection_reader_drive False None r () s = (res', r', u, s')"
  shows "session_inv (a, d, r', s', res')"
proof -
  have post: "drive_post k r s res' r' s'" if "length a + k < 2 ^ 64" for k
  proof (rule reader_drive_loop_post)
    show "reader_wf (length (socket_bytes s) + k) r" using inv that by (simp add: session_inv_def)
    show "reader_drive_loop None r () s CK_HTTP_CONNECTION_READ_BUDGET_BYTES
        CK_HTTP_CONNECTION_PROCESS_BUDGET_BYTES = (res', r', u, s')"
      using drive by (simp add: ck_http_connection_reader_drive_def)
  qed simp_all
  have post0: "drive_post 0 r s res' r' s'" using post [of 0] assms(3) by simp
  have quiet: "Peer_closed \<notin> set s" "\<And>e. Recv_error e \<in> set s \<Longrightarrow> e = EINTR"
    using inv by (auto simp: session_inv_def)
  then have res: "res' \<noteq> CK_HTTP_CONNECTION_READ_EOF_INCOMPLETE" "res' \<noteq> CK_HTTP_CONNECTION_READ_IO_ERROR"
      "res' \<noteq> CK_HTTP_CONNECTION_READ_SINK_ERROR" and events: "set s' - range Arrived \<subseteq> set s"
    using post0 by (auto simp: drive_post_def)
  have quiet': "Peer_closed \<notin> set s'" "Recv_error e \<in> set s' \<Longrightarrow> e = EINTR" for e
    using events quiet by auto
  have wf: "reader_wf (length (socket_bytes s') + k) r'" if "length a + k < 2 ^ 64" for k
    using post [OF that] res by (simp add: drive_post_def)
  have law: "outcome input_failed (input_ref zero_input (a @ w)) = prepend_body (d @ queued r) (future r (socket_bytes s @ w))" for w
    using inv assms(2) by (auto simp: session_inv_def wants_drive_def)
  obtain bs where bs: "queued r' = queued r @ bs"
    and bad: "res' = CK_HTTP_CONNECTION_READ_BAD_REQUEST \<Longrightarrow>
      \<exists>e. future r (socket_bytes s @ w) = (CK_HTTP_INPUT_BAD_REQUEST, bs, [], e)"
    and good: "res' \<noteq> CK_HTTP_CONNECTION_READ_BAD_REQUEST \<Longrightarrow> res' \<noteq> CK_HTTP_CONNECTION_READ_TOO_LARGE \<Longrightarrow>
      future r (socket_bytes s @ w) = prepend_body bs (future r' (socket_bytes s' @ w))"
    and finished: "res' = CK_HTTP_CONNECTION_READ_REQUEST_COMPLETE \<Longrightarrow>
      input_message_complete (reader_input r') \<and> nothing_pending (reader_input r')" for w
    using post0 res by (cases res') (auto simp: drive_post_def)
  have "\<exists>e. outcome input_failed (input_ref zero_input (a @ w)) = (CK_HTTP_INPUT_BAD_REQUEST, d @ queued r', [], e)"
    if "res' = CK_HTTP_CONNECTION_READ_BAD_REQUEST" for w
    using bad [OF that, of w] law [of w] bs by auto
  moreover have "outcome input_failed (input_ref zero_input (a @ w))
      = prepend_body (d @ queued r') (future r' (socket_bytes s' @ w))"
    if "res' \<noteq> CK_HTTP_CONNECTION_READ_BAD_REQUEST" "res' \<noteq> CK_HTTP_CONNECTION_READ_TOO_LARGE" for w
    using good [OF that, of w] law [of w] bs by simp
  ultimately show ?thesis
    using res quiet' wf finished by (simp add: session_inv_def)
qed

lemma session_inv_consume:
  assumes "session_inv (a, d, r, s, res)" and "reader_body_queue r = Some q" and "length a < 2 ^ 64"
    and "ck_http_request_body_read False q capacity = (rr, bytes, q')"
  shows "session_inv (a, d @ bytes, r\<lparr>reader_body_queue := Some q'\<rparr>, s, res)"
proof -
  have "reader_wf (length (socket_bytes s) + 0) r"
    using assms(1,3) by (simp only: session_inv_def prod.case)
  then have wf: "body_wf q" and ok: "queue_ok (reader_input r) q"
    using assms(2) by (auto simp: reader_wf_def queue_ok_def)
  have q': "body_wf q'" "body_bytes q = bytes @ body_bytes q'" "body_eof q' = body_eof q" "body_error q' = body_error q"
    using assms(4) wf body_bytes_tail [OF wf, of "min capacity (length (body_bytes q))"]
    by (auto simp: body_read_unfold min_def split: if_splits)
  then have "queue_ok (reader_input r) q'" using ok by (auto simp: queue_ok_def)
  then have "reader_wf k r \<Longrightarrow> reader_wf k (r\<lparr>reader_body_queue := Some q'\<rparr>)" for k
    by (simp add: reader_wf_def)
  with assms(1,2) q'(2) show ?thesis by (simp add: session_inv_def split: if_splits)
qed

lemma session_invariant: "session st \<Longrightarrow> length (fst st) < 2 ^ 64 \<Longrightarrow> session_inv st"
proof (induction rule: session.induct)
  case (start q r)
  then show ?case by (simp add: session_inv_def new_reader_views)
next
  case (arrive a d r s res bs)
  then show ?case by (intro session_inv_arrive) simp
next
  case (interrupt a d r s res)
  then show ?case by (auto simp: session_inv_def)
next
  case (drive a d r s res res' r' u s')
  then show ?case using session_inv_drive by simp
next
  case (consume a d r s res q capacity rr bytes q')
  then show ?case using session_inv_consume by simp
qed

section \<open>Properties\<close>

lemma reference_of_message:
  assumes "accepted_head hdr req" and "on_wire req body wire" and "length (hdr @ wire @ rest) < 2 ^ 64"
  shows "\<exists>e. input_request e = req \<and> input_message_complete e
    \<and> outcome input_failed (input_ref zero_input (hdr @ wire @ rest)) = (CK_HTTP_INPUT_COMPLETE, body, rest, e)"
  using input_delivers [OF assms, of zero_input] input_run_ref [OF input_init_ok [OF assms(3)], of zero_input]
  by (auto simp: input_init_eq)


text \<open>
  C2. Memory safety and error discipline of the reader, in every interleaving: the read window
  lies in the 64 KiB buffer, a span that waits for the consumer lies inside the window, the body
  queue keeps its invariant, an end of file or an I/O error is never reported unless the socket
  had one, and the sink is never called on a closed queue.
\<close>

theorem session_safe:
  assumes "session (arrived, consumed, r, s, res)" and "length arrived < 2 ^ 64"
  shows "reader_begin r \<le> length (reader_buffer r)
    \<and> length (reader_buffer r) \<le> CK_HTTP_CONNECTION_READ_BUFFER_BYTES
    \<and> (pending_body_length (reader_input r) \<noteq> 0 \<longrightarrow>
         (\<exists>off. pending_body_data (reader_input r) = Some off \<and> reader_begin r \<le> off
            \<and> off + pending_body_length (reader_input r) \<le> length (reader_buffer r)))
    \<and> body_wf (the (reader_body_queue r))
    \<and> res \<notin> {CK_HTTP_CONNECTION_READ_EOF_INCOMPLETE, CK_HTTP_CONNECTION_READ_SINK_ERROR,
              CK_HTTP_CONNECTION_READ_IO_ERROR}"
proof -
  have inv: "session_inv (arrived, consumed, r, s, res)" using session_invariant [OF assms(1)] assms(2) by simp
  then have wf: "reader_wf (length (socket_bytes s) + 0) r"
    using assms(2) by (simp only: session_inv_def prod.case)
  then have "pending_ok r" by (simp add: reader_wf_def)
  then have "pending_body_length (reader_input r) \<noteq> 0 \<longrightarrow>
      (\<exists>off. pending_body_data (reader_input r) = Some off \<and> reader_begin r \<le> off
        \<and> off + pending_body_length (reader_input r) \<le> length (reader_buffer r))"
    by (auto simp: pending_ok_def Let_def)
  moreover have "body_wf (the (reader_body_queue r))" using wf by (auto simp: reader_wf_def queue_ok_def)
  ultimately show ?thesis using wf inv by (simp add: reader_wf_def session_inv_def)
qed

section \<open>Witnesses\<close>

definition sample_reader :: ck_http_connection_reader where
  "sample_reader = \<lparr>reader_input = zero_input, reader_body_queue = None, reader_buffer = [], reader_begin = 0\<rparr>"

lemma sample_session:
  "session ([] @ sample_head @ [CR], [], new_reader sample_reader wrapped_body, [] @ [Arrived (sample_head @ [CR])],
     CK_HTTP_CONNECTION_READ_INCOMPLETE)"
  by (intro session.arrive session.start) (simp add: wrapped_body_def CK_HTTP_REQUEST_BODY_BUFFER_BYTES_def)

lemma sample_head_length: "length sample_head = 38"
  by code_simp


theorem session_safe_witness:
  "reader_begin (new_reader sample_reader wrapped_body) \<le> length (reader_buffer (new_reader sample_reader wrapped_body))
   \<and> body_wf (the (reader_body_queue (new_reader sample_reader wrapped_body)))"
  using session_safe [OF sample_session] by (simp add: sample_head_length)

section \<open>A sink that pushes back on the first span\<close>

text \<open>The context records whether the sink has been called, and the bytes it accepted.\<close>

definition block_once :: "(bool \<times> u8 list) ck_http_body_sink_fn" where
  "block_once ctx bytes =
    (case ctx of (called, got) \<Rightarrow>
       if called then (0, (True, got @ bytes)) else (CK_HTTP_BODY_SINK_WOULD_BLOCK, (True, got)))"


end
