(* ===== verification/Ck_Http_Response.thy ===== *)
theory Ck_Http_Response
  imports Ck_Http_Parser
begin

text \<open>
  The response builder, \<open>c/output/ck_http_response.[ch]\<close>: a state machine
  NEW, COMMITTED, FINISHED or FAILED that collects status, framing and a body of at most
  64 KiB, and prints the header block once the response is finished.

  \<open>response_body\<close> is the used prefix \<open>body[0 .. body_length)\<close>.  A setter returns its result
  code and the updated response; \<open>null_arg\<close> is the outcome of its pointer tests.
\<close>

section \<open>Data\<close>

definition CK_HTTP_RESPONSE_BODY_BUFFER_BYTES :: nat where
  "CK_HTTP_RESPONSE_BODY_BUFFER_BYTES = 65536"
definition CK_HTTP_RESPONSE_HEADER_BUFFER_BYTES :: nat where
  "CK_HTTP_RESPONSE_HEADER_BUFFER_BYTES = 1024"

definition SIZE_MAX :: nat where "SIZE_MAX = 2 ^ 64 - 1"

datatype ck_http_response_state =
    CK_HTTP_RESPONSE_NEW
  | CK_HTTP_RESPONSE_COMMITTED
  | CK_HTTP_RESPONSE_FINISHED
  | CK_HTTP_RESPONSE_FAILED

record ck_http_response =
  response_state :: ck_http_response_state
  response_status :: u16
  response_content_length :: u64
  response_content_length_set :: bool
  response_connection_close :: int
  response_body :: "u8 list"

section \<open>Operations\<close>

definition ck_http_response_valid_status :: "u16 \<Rightarrow> bool" where
  "ck_http_response_valid_status status \<longleftrightarrow> 200 \<le> status \<and> status \<le> 599"

definition ck_http_response_fail :: "ck_http_response \<Rightarrow> ck_http_response" where
  "ck_http_response_fail response = response\<lparr>response_state := CK_HTTP_RESPONSE_FAILED\<rparr>"

definition ck_http_response_init :: "ck_http_response \<Rightarrow> ck_http_response" where
  "ck_http_response_init response =
     \<lparr>response_state = CK_HTTP_RESPONSE_NEW, response_status = 500, response_content_length = 0,
      response_content_length_set = False, response_connection_close = 0, response_body = []\<rparr>"

definition ck_http_response_get_state :: "ck_http_response option \<Rightarrow> ck_http_response_state" where
  "ck_http_response_get_state response =
    (case response of None \<Rightarrow> CK_HTTP_RESPONSE_FAILED | Some r \<Rightarrow> response_state r)"

definition ck_http_response_set_status ::
  "bool \<Rightarrow> ck_http_response \<Rightarrow> u16 \<Rightarrow> int \<times> ck_http_response" where
  "ck_http_response_set_status null_arg response status =
    (if null_arg \<or> \<not> ck_http_response_valid_status status
        \<or> response_state response \<noteq> CK_HTTP_RESPONSE_NEW
     then (-1, response) else (0, response\<lparr>response_status := status\<rparr>))"

definition ck_http_response_set_content_length ::
  "bool \<Rightarrow> ck_http_response \<Rightarrow> u64 \<Rightarrow> int \<times> ck_http_response" where
  "ck_http_response_set_content_length null_arg response content_length =
    (if null_arg \<or> response_state response \<noteq> CK_HTTP_RESPONSE_NEW
        \<or> unat content_length > SIZE_MAX
     then (-1, response)
     else (0, response\<lparr>response_content_length := content_length,
                response_content_length_set := True\<rparr>))"

definition ck_http_response_set_connection_close ::
  "bool \<Rightarrow> ck_http_response \<Rightarrow> int \<Rightarrow> int \<times> ck_http_response" where
  "ck_http_response_set_connection_close null_arg response enabled =
    (if null_arg \<or> response_state response \<noteq> CK_HTTP_RESPONSE_NEW
        \<or> (enabled \<noteq> 0 \<and> enabled \<noteq> 1)
     then (-1, response) else (0, response\<lparr>response_connection_close := enabled\<rparr>))"

definition ck_http_response_reset :: "bool \<Rightarrow> ck_http_response \<Rightarrow> int \<times> ck_http_response" where
  "ck_http_response_reset null_arg response =
    (if null_arg \<or> response_state response \<noteq> CK_HTTP_RESPONSE_NEW then (-1, response)
     else (0, response\<lparr>response_status := 500, response_content_length := 0,
                response_content_length_set := False, response_connection_close := 0,
                response_body := []\<rparr>))"

definition ck_http_response_commit :: "bool \<Rightarrow> ck_http_response \<Rightarrow> int \<times> ck_http_response" where
  "ck_http_response_commit null_arg response =
    (if null_arg \<or> response_state response \<noteq> CK_HTTP_RESPONSE_NEW
        \<or> \<not> ck_http_response_valid_status (response_status response)
     then (-1, response) else (0, response\<lparr>response_state := CK_HTTP_RESPONSE_COMMITTED\<rparr>))"

definition ck_http_response_write_body ::
  "bool \<Rightarrow> ck_http_response \<Rightarrow> u8 list \<Rightarrow> int \<times> ck_http_response" where
  "ck_http_response_write_body null_arg response data =
    (if null_arg \<or> (response_state response \<noteq> CK_HTTP_RESPONSE_NEW
                     \<and> response_state response \<noteq> CK_HTTP_RESPONSE_COMMITTED)
     then (-1, response)
     else
       let (commit_result, response1) =
             (if response_state response = CK_HTTP_RESPONSE_NEW
              then ck_http_response_commit False response else (0, response)) in
       if commit_result \<noteq> 0 then (-1, response1)
       else if length data > CK_HTTP_RESPONSE_BODY_BUFFER_BYTES - length (response_body response1)
       then (-2, ck_http_response_fail response1)
       else if length data \<noteq> 0
       then (0, response1\<lparr>response_body := response_body response1 @ data\<rparr>)
       else (0, response1))"

definition ck_http_response_finish :: "bool \<Rightarrow> ck_http_response \<Rightarrow> int \<times> ck_http_response" where
  "ck_http_response_finish null_arg response =
    (if null_arg \<or> response_state response \<noteq> CK_HTTP_RESPONSE_COMMITTED then (-1, response)
     else if response_content_length_set response
             \<and> of_nat (length (response_body response)) \<noteq> response_content_length response
     then (-2, ck_http_response_fail response)
     else (0, response\<lparr>response_state := CK_HTTP_RESPONSE_FINISHED\<rparr>))"

text \<open>\<open>printf\<close> of an unsigned number: \<open>%llu\<close>, and \<open>%03u\<close> with zeros on the left.\<close>

fun print_decimal :: "nat \<Rightarrow> u8 list" where
  "print_decimal n = (if n < 10 then [48 + of_nat n] else print_decimal (n div 10) @ [48 + of_nat (n mod 10)])"

declare print_decimal.simps [simp del]

definition print_padded :: "nat \<Rightarrow> nat \<Rightarrow> u8 list" where
  "print_padded w n = (let ds = print_decimal n in replicate (w - length ds) 48 @ ds)"

definition response_header_text :: "ck_http_response \<Rightarrow> u64 \<Rightarrow> u8 list" where
  "response_header_text response content_length =
     bytes_of ''HTTP/1.1 '' @ print_padded 3 (unat (response_status response)) @ [SP, CR, LF]
     @ bytes_of ''Content-Length: '' @ print_decimal (unat content_length) @ [CR, LF]
     @ (if response_connection_close response \<noteq> 0
        then bytes_of ''Connection: close'' @ [CR, LF] else [])
     @ [CR, LF]"

text \<open>
  \<open>Inr text\<close> is a return of 0 with \<open>text\<close> in \<open>output[0 .. *output_length)\<close>; \<open>snprintf\<close>
  truncates to the capacity and returns the length it would have needed.
\<close>

definition ck_http_response_serialize_headers ::
  "bool \<Rightarrow> ck_http_response \<Rightarrow> nat \<Rightarrow> int + u8 list" where
  "ck_http_response_serialize_headers null_arg response capacity =
    (if null_arg \<or> capacity = 0 \<or> response_state response \<noteq> CK_HTTP_RESPONSE_FINISHED then Inl (-1)
     else
       let content_length =
             (if response_content_length_set response then response_content_length response
              else of_nat (length (response_body response))) in
       if unat content_length > SIZE_MAX then Inl (-1)
       else
         let text = response_header_text response content_length in
         if length text \<ge> capacity then Inl (-2) else Inr text)"

definition ck_http_response_get_body :: "ck_http_response option \<Rightarrow> u8 list option" where
  "ck_http_response_get_body response = map_option response_body response"

definition ck_http_response_body_length :: "ck_http_response option \<Rightarrow> nat" where
  "ck_http_response_body_length response =
    (case response of None \<Rightarrow> 0 | Some r \<Rightarrow> length (response_body r))"

section \<open>Printed numbers\<close>

lemma dec_value_from_append:
  "dec_value_from v (xs @ ys) = dec_value_from (dec_value_from v xs) ys"
  by (induction xs arbitrary: v) simp_all

lemma digit_of_nat:
  assumes "d < 10"
  shows "is_digit (48 + of_nat d)" and "unat ((48 + of_nat d :: u8) - 48) = d"
  using assms by (auto simp: is_digit_def word_le_nat_alt unat_word_ariths)

lemma print_decimal_digits: "print_decimal n \<noteq> [] \<and> list_all is_digit (print_decimal n)"
proof (induction n rule: print_decimal.induct)
  case (1 n)
  then show ?case by (subst (1 2) print_decimal.simps) (auto intro: digit_of_nat)
qed

lemma print_decimal_value: "dec_value (print_decimal n) = n"
proof (induction n rule: print_decimal.induct)
  case (1 n)
  then show ?case
    by (subst print_decimal.simps) (auto simp: dec_value_from_append digit_of_nat)
qed

lemma print_decimal_length: "n < 10 ^ Suc k \<Longrightarrow> length (print_decimal n) \<le> Suc k"
proof (induction k arbitrary: n)
  case 0
  then show ?case by (simp add: print_decimal.simps)
next
  case (Suc k)
  then have "n div 10 < 10 ^ Suc k" by (simp add: div_less_iff_less_mult)
  with Suc.IH show ?case by (subst print_decimal.simps) simp
qed

text \<open>The parser of the other direction reads a printed 64-bit number back.\<close>

lemma parse_print_decimal: "n < 2 ^ 64 \<Longrightarrow> parse_uint64 (print_decimal n) = Some (of_nat n)"
  by (simp only: parse_uint64_value print_decimal_value) (use print_decimal_digits in simp)

section \<open>Invariant\<close>

definition response_wf :: "ck_http_response \<Rightarrow> bool" where
  "response_wf r \<longleftrightarrow>
     length (response_body r) \<le> CK_HTTP_RESPONSE_BODY_BUFFER_BYTES
     \<and> ck_http_response_valid_status (response_status r)
     \<and> response_connection_close r \<in> {0, 1}
     \<and> (response_state r = CK_HTTP_RESPONSE_NEW \<longrightarrow> response_body r = [])
     \<and> (response_state r = CK_HTTP_RESPONSE_FINISHED \<longrightarrow> response_content_length_set r \<longrightarrow>
          of_nat (length (response_body r)) = response_content_length r)"

datatype response_op =
    Set_status u16 | Set_content_length u64 | Set_connection_close int
  | Reset | Write_body "u8 list" | Commit | Finish

fun response_apply :: "response_op \<Rightarrow> ck_http_response \<Rightarrow> int \<times> ck_http_response" where
  "response_apply (Set_status s) r = ck_http_response_set_status False r s"
| "response_apply (Set_content_length n) r = ck_http_response_set_content_length False r n"
| "response_apply (Set_connection_close e) r = ck_http_response_set_connection_close False r e"
| "response_apply Reset r = ck_http_response_reset False r"
| "response_apply (Write_body bs) r = ck_http_response_write_body False r bs"
| "response_apply Commit r = ck_http_response_commit False r"
| "response_apply Finish r = ck_http_response_finish False r"

text \<open>The bytes a call has accepted into the body.\<close>

fun response_accepted :: "response_op \<Rightarrow> int \<Rightarrow> u8 list" where
  "response_accepted (Write_body bs) code = (if code = 0 then bs else [])"
| "response_accepted _ _ = []"

fun response_run :: "response_op list \<Rightarrow> ck_http_response \<Rightarrow> u8 list \<times> ck_http_response" where
  "response_run [] r = ([], r)"
| "response_run (op # ops) r =
    (case response_apply op r of (code, r') \<Rightarrow>
     case response_run ops r' of (bs, r'') \<Rightarrow> (response_accepted op code @ bs, r''))"

lemmas response_defs = ck_http_response_set_status_def ck_http_response_set_content_length_def
  ck_http_response_set_connection_close_def ck_http_response_reset_def
  ck_http_response_write_body_def ck_http_response_commit_def ck_http_response_finish_def
  ck_http_response_fail_def

lemma response_init_wf: "response_wf (ck_http_response_init r)"
  by (simp add: response_wf_def ck_http_response_init_def ck_http_response_valid_status_def)

lemma response_apply_wf:
  assumes "response_wf r" and "response_apply op r = (code, r')"
  shows "response_wf r'"
  using assms
  by (cases op) (auto simp: response_defs response_wf_def ck_http_response_valid_status_def
    split: if_splits prod.splits)

lemma response_apply_body:
  assumes "response_wf r" and "response_apply op r = (code, r')"
  shows "response_body r' = response_body r @ response_accepted op code"
  using assms
  by (cases op) (auto simp: response_defs response_wf_def split: if_splits prod.splits)

lemma response_run_post:
  assumes "response_wf r" and "response_run ops r = (bs, r')"
  shows "response_wf r' \<and> response_body r' = response_body r @ bs"
  using assms
proof (induction ops arbitrary: r bs)
  case (Cons op ops)
  obtain code r1 where a: "response_apply op r = (code, r1)" by fastforce
  obtain bs1 where "response_run ops r1 = (bs1, r')" "bs = response_accepted op code @ bs1"
    using Cons.prems(2) a by (auto split: prod.splits)
  with Cons.IH [OF response_apply_wf [OF Cons.prems(1) a]] response_apply_body [OF Cons.prems(1) a]
  show ?case by simp
qed simp

lemma length_print_padded: "n < 1000 \<Longrightarrow> length (print_padded 3 n) = 3"
  using print_decimal_length [of n 2] by (simp add: print_padded_def Let_def)

lemma response_header_length:
  assumes "response_wf r"
  shows "length (response_header_text r n) \<le> 74"
proof -
  have "unat n < 10 ^ Suc 19" using unat_u64_less [of n] by simp
  then have "length (print_decimal (unat n)) \<le> 20" using print_decimal_length by fastforce
  moreover have "unat (response_status r) < 1000"
    using assms by (auto simp: response_wf_def ck_http_response_valid_status_def word_le_nat_alt)
  ultimately show ?thesis
    by (simp add: response_header_text_def length_print_padded)
qed

section \<open>Properties\<close>

text \<open>
  C19. Framing of the response: after any sequence of calls on an initialised response that
  leaves it finished, the header block fits into its 1024-byte buffer, and the number it
  declares in Content-Length, read back by the program's own number parser, is the number of
  bytes of the body, which are exactly the bytes of the accepted writes in order.
\<close>

theorem response_framing:
  assumes "response_run ops (ck_http_response_init r0) = (written, r)"
    and "response_state r = CK_HTTP_RESPONSE_FINISHED"
  shows "\<exists>digits.
    ck_http_response_serialize_headers False r CK_HTTP_RESPONSE_HEADER_BUFFER_BYTES =
      Inr (bytes_of ''HTTP/1.1 '' @ print_padded 3 (unat (response_status r)) @ [SP, CR, LF]
        @ bytes_of ''Content-Length: '' @ digits @ [CR, LF]
        @ (if response_connection_close r = 1 then bytes_of ''Connection: close'' @ [CR, LF] else [])
        @ [CR, LF])
    \<and> parse_uint64 digits = Some (of_nat (length written))
    \<and> ck_http_response_get_body (Some r) = Some written
    \<and> length written \<le> CK_HTTP_RESPONSE_BODY_BUFFER_BYTES"
proof -
  have wf: "response_wf r" and body: "response_body r = written"
    using response_run_post [OF response_init_wf assms(1)]
    by (simp_all add: ck_http_response_init_def)
  have len: "length written \<le> 65536"
    using wf body by (simp add: response_wf_def CK_HTTP_RESPONSE_BODY_BUFFER_BYTES_def)
  define n :: u64 where "n = of_nat (length written)"
  have n: "unat n = length written" using len by (simp add: n_def)
  have "(if response_content_length_set r then response_content_length r
      else of_nat (length (response_body r))) = n"
    using wf assms(2) body by (simp add: response_wf_def n_def)
  moreover have "\<not> unat n > SIZE_MAX" using len n by (simp add: SIZE_MAX_def)
  moreover have "\<not> CK_HTTP_RESPONSE_HEADER_BUFFER_BYTES \<le> length (response_header_text r n)"
    using response_header_length [OF wf, of n] by (simp add: CK_HTTP_RESPONSE_HEADER_BUFFER_BYTES_def)
  ultimately have "ck_http_response_serialize_headers False r CK_HTTP_RESPONSE_HEADER_BUFFER_BYTES
      = Inr (response_header_text r n)"
    using assms(2) by (simp add: ck_http_response_serialize_headers_def Let_def
        CK_HTTP_RESPONSE_HEADER_BUFFER_BYTES_def)
  moreover have "response_connection_close r \<noteq> 0 \<longleftrightarrow> response_connection_close r = 1"
    using wf by (auto simp: response_wf_def)
  moreover have "parse_uint64 (print_decimal (unat n)) = Some n"
    using parse_print_decimal [OF unat_u64_less [of n]] by simp
  ultimately show ?thesis
    using len by (auto simp: response_header_text_def n_def [symmetric] body
        ck_http_response_get_body_def CK_HTTP_RESPONSE_BODY_BUFFER_BYTES_def)
qed

theorem response_framing_witness:
  "\<exists>digits.
    ck_http_response_serialize_headers False
      (snd (response_run [Set_status 200, Write_body [104, 105], Finish]
        (ck_http_response_init undefined))) CK_HTTP_RESPONSE_HEADER_BUFFER_BYTES =
      Inr (bytes_of ''HTTP/1.1 '' @ print_padded 3 200 @ [SP, CR, LF]
        @ bytes_of ''Content-Length: '' @ digits @ [CR, LF] @ [CR, LF])
    \<and> parse_uint64 digits = Some 2"
proof -
  let ?ops = "[Set_status 200, Write_body [104, 105], Finish]"
  have run: "response_run ?ops (ck_http_response_init undefined) =
      ([104, 105], snd (response_run ?ops (ck_http_response_init undefined)))"
    and fin: "response_state (snd (response_run ?ops (ck_http_response_init undefined)))
      = CK_HTTP_RESPONSE_FINISHED"
    and rest: "response_status (snd (response_run ?ops (ck_http_response_init undefined))) = 200"
      "response_connection_close (snd (response_run ?ops (ck_http_response_init undefined))) = 0"
    by code_simp+
  show ?thesis using response_framing [OF run fin] rest by auto
qed

text \<open>
  Commitment is final and failures are sticky: once a response has left the NEW state its
  status and framing never change, and a failed or finished response refuses every call and
  keeps its body.
\<close>

theorem response_committed_final:
  assumes "response_apply op r = (code, r')" and "response_state r \<noteq> CK_HTTP_RESPONSE_NEW"
  shows "response_state r' \<noteq> CK_HTTP_RESPONSE_NEW
    \<and> response_status r' = response_status r
    \<and> response_content_length r' = response_content_length r
    \<and> response_content_length_set r' = response_content_length_set r
    \<and> response_connection_close r' = response_connection_close r
    \<and> (response_state r \<noteq> CK_HTTP_RESPONSE_COMMITTED \<longrightarrow> code = -1 \<and> r' = r)"
  using assms
  by (cases op) (auto simp: response_defs split: if_splits prod.splits)

theorem response_committed_final_witness:
  "fst (response_apply (Set_status 404)
     (snd (response_run [Commit, Finish] (ck_http_response_init undefined)))) = -1"
proof -
  let ?r = "snd (response_run [Commit, Finish] (ck_http_response_init undefined))"
  have "response_state ?r = CK_HTTP_RESPONSE_FINISHED" by code_simp
  then show ?thesis
    using response_committed_final [of "Set_status 404" ?r] by (cases "response_apply (Set_status 404) ?r") auto
qed

end
