(* ===== verification/Ck_Http_Output_Writer.thy ===== *)
theory Ck_Http_Output_Writer
  imports Ck_Http_Reader Ck_Ring
begin

text \<open>
  The output writer, \<open>c/output/ck_http_output_writer.[ch]\<close>: response bytes are queued in a
  64 KiB buffer and sent under a budget of 32 KiB per drive.

  \<open>writer_buffer\<close> is the used prefix \<open>buffer[0 .. end)\<close>, so \<open>end\<close> is its length.  The socket is
  the list of outcomes of the next \<open>send\<close> calls: how many bytes the kernel takes (it takes no
  more than it is offered) or an error; an exhausted list means that the send buffer is full
  (EAGAIN).  A drive returns its result, the writer, the bytes put on the wire and the outcomes
  that are left.
\<close>

section \<open>Sending\<close>

datatype send_event = Accepts nat | Send_error errno

datatype send_result = Sent nat | Send_failed errno

abbreviation EPIPE :: errno where "EPIPE \<equiv> Eother 32"
abbreviation ECONNRESET :: errno where "ECONNRESET \<equiv> Eother 104"

text \<open>\<open>ck_socket_send_nonblocking\<close> on a valid descriptor: \<open>send\<close> with \<open>MSG_DONTWAIT\<close>.\<close>

fun send :: "nat \<Rightarrow> send_event list \<Rightarrow> send_result \<times> send_event list" where
  "send len [] = (Send_failed EAGAIN, [])"
| "send len (Accepts k # es) = (Sent (min k len), es)"
| "send len (Send_error e # es) = (Send_failed e, es)"

section \<open>Data\<close>

definition CK_HTTP_OUTPUT_WRITE_BUFFER_BYTES :: nat where
  "CK_HTTP_OUTPUT_WRITE_BUFFER_BYTES = 65536"
definition CK_HTTP_OUTPUT_WRITE_BUDGET_BYTES :: nat where
  "CK_HTTP_OUTPUT_WRITE_BUDGET_BYTES = 32768"

datatype ck_http_output_write_result =
    CK_HTTP_OUTPUT_WRITE_DRAINED
  | CK_HTTP_OUTPUT_WRITE_NEED_WRITE
  | CK_HTTP_OUTPUT_WRITE_PEER_CLOSED
  | CK_HTTP_OUTPUT_WRITE_IO_ERROR

record ck_http_output_writer =
  writer_socket_fd :: int
  writer_buffer :: "u8 list"
  writer_begin :: nat

section \<open>Operations\<close>

definition ck_http_output_writer_init :: "ck_http_output_writer \<Rightarrow> ck_http_output_writer" where
  "ck_http_output_writer_init writer =
     \<lparr>writer_socket_fd = -1, writer_buffer = [], writer_begin = 0\<rparr>"

definition ck_http_output_writer_attach_socket ::
  "bool \<Rightarrow> ck_http_output_writer \<Rightarrow> int \<Rightarrow> int \<times> ck_http_output_writer" where
  "ck_http_output_writer_attach_socket null_arg writer socket_fd =
    (if null_arg \<or> socket_fd < 0 \<or> writer_socket_fd writer \<ge> 0 then (-1, writer)
     else (0, writer\<lparr>writer_socket_fd := socket_fd\<rparr>))"

definition ck_http_output_writer_queue ::
  "bool \<Rightarrow> ck_http_output_writer \<Rightarrow> u8 list \<Rightarrow> int \<times> ck_http_output_writer" where
  "ck_http_output_writer_queue null_arg writer data =
    (if null_arg \<or> writer_socket_fd writer < 0 then (-1, writer)
     else
       let writer1 =
             (if writer_begin writer > 0
                 \<and> length (writer_buffer writer) = CK_HTTP_OUTPUT_WRITE_BUFFER_BYTES
              then writer\<lparr>writer_buffer := drop (writer_begin writer) (writer_buffer writer),
                          writer_begin := 0\<rparr>
              else writer);
           capacity = CK_HTTP_OUTPUT_WRITE_BUFFER_BYTES - length (writer_buffer writer1) in
       if length data > capacity then (-2, writer1)
       else if length data \<noteq> 0 then (0, writer1\<lparr>writer_buffer := writer_buffer writer1 @ data\<rparr>)
       else (0, writer1))"

lemma send_Sent: "send len es = (Sent n, es') \<Longrightarrow> n \<le> len \<and> length es' < length es"
  by (cases "(len, es)" rule: send.cases) auto

lemma send_Failed: "send len es = (Send_failed e, es') \<Longrightarrow> e \<noteq> EAGAIN \<Longrightarrow> length es' < length es"
  by (cases "(len, es)" rule: send.cases) auto

text \<open>
  The loop of the drive: \<open>Some r\<close> is an early return, \<open>None\<close> the end of the loop; with it the
  writer, the bytes sent and the outcomes left.
\<close>

function writer_drive_loop ::
  "ck_http_output_writer \<Rightarrow> nat \<Rightarrow> send_event list
   \<Rightarrow> ck_http_output_write_result option \<times> ck_http_output_writer \<times> u8 list \<times> send_event list" where
  "writer_drive_loop writer budget socket =
    (if writer_begin writer < length (writer_buffer writer) \<and> budget \<noteq> 0 then
       let pending = length (writer_buffer writer) - writer_begin writer;
           attempt = (if pending < budget then pending else budget) in
       (case send attempt socket of
          (Sent sent, socket1) \<Rightarrow>
            if sent > 0 then
              (case writer_drive_loop (writer\<lparr>writer_begin := writer_begin writer + sent\<rparr>)
                      (budget - sent) socket1 of
                 (r, writer', wire, socket') \<Rightarrow>
                   (r, writer', take sent (drop (writer_begin writer) (writer_buffer writer)) @ wire,
                    socket'))
            else (Some CK_HTTP_OUTPUT_WRITE_PEER_CLOSED, writer, [], socket1)
        | (Send_failed e, socket1) \<Rightarrow>
            if e = EINTR then writer_drive_loop writer budget socket1
            else if e = EAGAIN then (Some CK_HTTP_OUTPUT_WRITE_NEED_WRITE, writer, [], socket1)
            else if e = EPIPE \<or> e = ECONNRESET
            then (Some CK_HTTP_OUTPUT_WRITE_PEER_CLOSED, writer, [], socket1)
            else (Some CK_HTTP_OUTPUT_WRITE_IO_ERROR, writer, [], socket1))
     else (None, writer, [], socket))"
  by pat_completeness auto
termination
  by (relation "measure (\<lambda>(writer, budget, socket). length socket)")
    (auto dest!: send_Sent [OF sym] send_Failed [OF sym])

declare writer_drive_loop.simps [simp del]

definition ck_http_output_writer_drive ::
  "bool \<Rightarrow> ck_http_output_writer \<Rightarrow> send_event list
   \<Rightarrow> ck_http_output_write_result \<times> ck_http_output_writer \<times> u8 list \<times> send_event list" where
  "ck_http_output_writer_drive null_arg writer socket =
    (if null_arg \<or> writer_socket_fd writer < 0
     then (CK_HTTP_OUTPUT_WRITE_IO_ERROR, writer, [], socket)
     else
       case writer_drive_loop writer CK_HTTP_OUTPUT_WRITE_BUDGET_BYTES socket of
         (Some r, writer1, wire, socket1) \<Rightarrow> (r, writer1, wire, socket1)
       | (None, writer1, wire, socket1) \<Rightarrow>
           if writer_begin writer1 = length (writer_buffer writer1)
           then (CK_HTTP_OUTPUT_WRITE_DRAINED,
                 writer1\<lparr>writer_begin := 0, writer_buffer := []\<rparr>, wire, socket1)
           else (CK_HTTP_OUTPUT_WRITE_NEED_WRITE, writer1, wire, socket1))"

definition ck_http_output_writer_buffered_bytes :: "ck_http_output_writer option \<Rightarrow> nat" where
  "ck_http_output_writer_buffered_bytes writer =
    (case writer of
       None \<Rightarrow> 0
     | Some w \<Rightarrow>
         if length (writer_buffer w) < writer_begin w then 0
         else length (writer_buffer w) - writer_begin w)"

section \<open>The list the writer stands for\<close>

definition writer_wf :: "ck_http_output_writer \<Rightarrow> bool" where
  "writer_wf w \<longleftrightarrow> writer_begin w \<le> length (writer_buffer w)
     \<and> length (writer_buffer w) \<le> CK_HTTP_OUTPUT_WRITE_BUFFER_BYTES"

definition writer_pending :: "ck_http_output_writer \<Rightarrow> u8 list" where
  "writer_pending w = drop (writer_begin w) (writer_buffer w)"

lemma buffered_bytes_pending:
  "ck_http_output_writer_buffered_bytes (Some w) = length (writer_pending w)"
  by (simp add: ck_http_output_writer_buffered_bytes_def writer_pending_def)

lemma queue_post:
  assumes "writer_wf w" and "ck_http_output_writer_queue n w data = (code, w')"
  shows "writer_wf w' \<and> writer_socket_fd w' = writer_socket_fd w
    \<and> writer_pending w' = writer_pending w @ (if code = 0 then data else [])"
  using assms
  by (auto simp: ck_http_output_writer_queue_def writer_wf_def writer_pending_def Let_def
    split: if_splits)

lemma drive_loop_post:
  assumes "writer_wf w" and "writer_drive_loop w budget es = (r, w', wire, es')"
  shows "writer_wf w' \<and> writer_socket_fd w' = writer_socket_fd w
    \<and> writer_pending w = wire @ writer_pending w'
    \<and> length wire \<le> budget
    \<and> (r = None \<longrightarrow> writer_pending w' = [] \<or> length wire = budget)
    \<and> r \<noteq> Some CK_HTTP_OUTPUT_WRITE_DRAINED"
  using assms
proof (induction w budget es arbitrary: r w' wire es' rule: writer_drive_loop.induct)
  case (1 w budget es)
  show ?case
  proof (cases "writer_begin w < length (writer_buffer w) \<and> budget \<noteq> 0")
    case False
    with "1.prems" show ?thesis
      by (auto simp: writer_drive_loop.simps [of w] writer_wf_def writer_pending_def split: if_splits)
  next
    case True
    let ?a = "if length (writer_buffer w) - writer_begin w < budget
      then length (writer_buffer w) - writer_begin w else budget"
    show ?thesis
    proof (cases "send ?a es")
      case (Pair res es1)
      show ?thesis
      proof (cases res)
        case (Sent n)
        show ?thesis
        proof (cases "n = 0")
          case True
          with \<open>writer_begin w < _ \<and> _\<close> Sent Pair "1.prems" show ?thesis
            by (auto simp: writer_drive_loop.simps [of w] Let_def)
        next
          case False
          let ?w = "w\<lparr>writer_begin := writer_begin w + n\<rparr>"
          obtain wire1 where rec: "writer_drive_loop ?w (budget - n) es1 = (r, w', wire1, es')"
            and wire: "wire = take n (drop (writer_begin w) (writer_buffer w)) @ wire1"
            using \<open>writer_begin w < _ \<and> _\<close> Sent Pair "1.prems" False
            by (auto simp: writer_drive_loop.simps [of w budget es] Let_def split: prod.splits)
          have n: "n \<le> ?a" using send_Sent [of ?a es n es1] Pair Sent by simp
          then have le: "n \<le> budget" "writer_begin w + n \<le> length (writer_buffer w)"
            using True by (auto split: if_splits)
          have "writer_wf ?w" using "1.prems"(1) le by (simp add: writer_wf_def)
          from "1.IH"(1) [OF True refl refl Pair [symmetric] Sent _ this rec] False
          have ih: "writer_wf w' \<and> writer_socket_fd w' = writer_socket_fd ?w
              \<and> writer_pending ?w = wire1 @ writer_pending w' \<and> length wire1 \<le> budget - n
              \<and> (r = None \<longrightarrow> writer_pending w' = [] \<or> length wire1 = budget - n)
              \<and> r \<noteq> Some CK_HTTP_OUTPUT_WRITE_DRAINED" by simp
          have "writer_pending w = take n (drop (writer_begin w) (writer_buffer w)) @ writer_pending ?w"
            by (simp add: writer_pending_def drop_drop [symmetric] add.commute del: drop_drop)
          with ih le show ?thesis by (auto simp: wire)
        qed
      next
        case (Send_failed e)
        show ?thesis
        proof (cases "e = EINTR")
          case eintr: True
          with True Send_failed Pair "1.prems"
          have "writer_drive_loop w budget es1 = (r, w', wire, es')"
            by (simp add: writer_drive_loop.simps [of w budget es] Let_def)
          with "1.IH"(2) [OF True refl refl Pair [symmetric] Send_failed eintr "1.prems"(1)]
          show ?thesis by blast
        next
          case False
          with True Send_failed Pair "1.prems" show ?thesis
            by (auto simp: writer_drive_loop.simps [of w budget es] Let_def split: if_splits)
        qed
      qed
    qed
  qed
qed

lemma drive_post:
  assumes "writer_wf w" and "ck_http_output_writer_drive n w es = (r, w', wire, es')"
  shows "writer_wf w' \<and> writer_socket_fd w' = writer_socket_fd w
    \<and> writer_pending w = wire @ writer_pending w'
    \<and> length wire \<le> CK_HTTP_OUTPUT_WRITE_BUDGET_BYTES
    \<and> (r = CK_HTTP_OUTPUT_WRITE_DRAINED \<longrightarrow> writer_pending w' = [] \<and> writer_begin w' = 0)"
  using assms
  by (auto simp: ck_http_output_writer_drive_def writer_wf_def writer_pending_def
      split: if_splits prod.splits option.splits dest!: drive_loop_post [rotated])

section \<open>The writer as a bounded queue\<close>

text \<open>
  The writer keeps the contract of the byte rings, with one restriction: it is sure to accept
  data for which there is room only while nothing has been sent from the buffer.
\<close>

definition writer_ready :: "ck_http_output_writer \<Rightarrow> bool" where
  "writer_ready w \<longleftrightarrow> writer_wf w \<and> writer_socket_fd w \<ge> 0"

definition writer_enqueue :: "u8 list \<Rightarrow> ck_http_output_writer \<Rightarrow> u8 list \<times> ck_http_output_writer" where
  "writer_enqueue data w =
    (case ck_http_output_writer_queue False w data of (code, w') \<Rightarrow> (if code = 0 then data else [], w'))"

definition writer_dequeue :: "nat \<Rightarrow> ck_http_output_writer \<Rightarrow> u8 list \<times> ck_http_output_writer" where
  "writer_dequeue n w =
    (case ck_http_output_writer_drive False w [Accepts n] of (r, w', wire, es) \<Rightarrow> (wire, w'))"

text \<open>What one drive puts on the wire when the kernel takes \<open>n\<close> bytes and then no more.\<close>

lemma drive_loop_Nil: "fst (snd (snd (writer_drive_loop w budget []))) = []"
  by (simp add: writer_drive_loop.simps [of w budget "[]"] Let_def)

lemma drive_loop_once:
  "fst (snd (snd (writer_drive_loop w budget [Accepts n]))) = take (min n budget) (writer_pending w)"
proof (cases "writer_begin w < length (writer_buffer w) \<and> budget \<noteq> 0")
  case False
  then show ?thesis by (auto simp: writer_drive_loop.simps [of w] writer_pending_def)
next
  case True
  let ?p = "length (writer_buffer w) - writer_begin w"
  let ?k = "min n (if ?p < budget then ?p else budget)"
  have "fst (snd (snd (writer_drive_loop w budget [Accepts n]))) = take ?k (writer_pending w)"
    using True drive_loop_Nil
    by (simp add: writer_drive_loop.simps [of w budget "[Accepts n]"] Let_def writer_pending_def
        case_prod_beta)
  also have "\<dots> = take (min n budget) (writer_pending w)"
    by (cases "?p < budget") (simp_all add: writer_pending_def min_def)
  finally show ?thesis .
qed

lemma writer_dequeue_wire:
  assumes "writer_ready w"
  shows "fst (writer_dequeue n w) =
    take (min n CK_HTTP_OUTPUT_WRITE_BUDGET_BYTES) (writer_pending w)"
proof -
  have "fst (writer_dequeue n w) =
      fst (snd (snd (writer_drive_loop w CK_HTTP_OUTPUT_WRITE_BUDGET_BYTES [Accepts n])))"
    using assms by (simp add: writer_dequeue_def ck_http_output_writer_drive_def writer_ready_def
        split: prod.split option.split)
  then show ?thesis by (simp add: drive_loop_once)
qed

interpretation writer_fifo: bounded_fifo writer_ready "\<lambda>w. writer_begin w = 0" "\<lambda>_. True" writer_pending
  CK_HTTP_OUTPUT_WRITE_BUFFER_BYTES writer_enqueue writer_dequeue
proof (unfold_locales, goal_cases)
  case (1 w)
  then show ?case by (auto simp: writer_ready_def writer_wf_def writer_pending_def)
next
  case (2 w data acc w')
  then obtain code where "ck_http_output_writer_queue False w data = (code, w')"
    "acc = (if code = 0 then data else [])"
    by (auto simp: writer_enqueue_def split: prod.splits)
  with 2(1) queue_post [of w False data code w'] show ?case by (simp add: writer_ready_def)
next
  case (3 w data)
  then show ?case
    by (auto simp: writer_enqueue_def ck_http_output_writer_queue_def writer_ready_def writer_wf_def
        writer_pending_def Let_def split: if_splits)
next
  case (4 w n out w')
  then obtain r es where d: "ck_http_output_writer_drive False w [Accepts n] = (r, w', out, es)"
    by (auto simp: writer_dequeue_def split: prod.splits)
  have "length out \<le> n" using writer_dequeue_wire [OF 4(1), of n] 4(2) by simp
  with 4(1) drive_post [OF _ d] show ?case by (simp add: writer_ready_def)
next
  case (5 w n)
  then show ?case using writer_dequeue_wire [OF 5(1), of n]
    by (simp add: CK_HTTP_OUTPUT_WRITE_BUDGET_BYTES_def)
qed

section \<open>Properties\<close>

datatype writer_op = Queue "u8 list" | Drive "send_event list"

fun writer_run ::
  "writer_op list \<Rightarrow> ck_http_output_writer \<Rightarrow> u8 list \<times> u8 list \<times> ck_http_output_writer" where
  "writer_run [] w = ([], [], w)"
| "writer_run (Queue data # ops) w =
    (case ck_http_output_writer_queue False w data of (code, w1) \<Rightarrow>
     case writer_run ops w1 of (accepted, wire, w2) \<Rightarrow>
       ((if code = 0 then data else []) @ accepted, wire, w2))"
| "writer_run (Drive es # ops) w =
    (case ck_http_output_writer_drive False w es of (r, w1, sent, _) \<Rightarrow>
     case writer_run ops w1 of (accepted, wire, w2) \<Rightarrow> (accepted, sent @ wire, w2))"

lemma writer_run_order:
  "writer_wf w \<Longrightarrow> writer_run ops w = (accepted, wire, w') \<Longrightarrow>
   writer_wf w' \<and> writer_pending w @ accepted = wire @ writer_pending w'"
proof (induction ops w arbitrary: accepted wire rule: writer_run.induct)
  case (2 data ops w)
  then show ?case by (fastforce split: prod.splits dest: queue_post)
next
  case (3 es ops w)
  then show ?case by (fastforce split: prod.splits dest: drive_post)
qed simp

text \<open>
  C20. The wire carries the accepted bytes in order: for every interleaving of queue and drive
  calls on a fresh writer and every behaviour of the kernel (partial sends, interrupts, full
  buffers, errors), what has been sent followed by what is buffered is the concatenation of the
  accepted blocks; nothing is lost, repeated or reordered, and the buffer never exceeds 64 KiB.
\<close>

theorem writer_wire_order:
  assumes "ck_http_output_writer_attach_socket False (ck_http_output_writer_init w0) fd = (0, w)"
    and "writer_run ops w = (accepted, wire, w')"
  shows "accepted = wire @ drop (writer_begin w') (writer_buffer w')
    \<and> ck_http_output_writer_buffered_bytes (Some w') = length accepted - length wire
    \<and> length (writer_buffer w') \<le> CK_HTTP_OUTPUT_WRITE_BUFFER_BYTES"
proof -
  have "writer_wf w" and "writer_pending w = []"
    using assms(1) by (auto simp: ck_http_output_writer_attach_socket_def ck_http_output_writer_init_def
        writer_wf_def writer_pending_def split: if_splits)
  with writer_run_order [OF _ assms(2)] show ?thesis
    by (auto simp: buffered_bytes_pending writer_wf_def writer_pending_def)
qed

theorem writer_wire_order_witness:
  "writer_run [Queue [1, 2, 3], Drive [Accepts 2, Send_error EINTR], Queue [4], Drive [Accepts 9]]
     \<lparr>writer_socket_fd = 5, writer_buffer = [], writer_begin = 0\<rparr>
   = ([1, 2, 3, 4], [1, 2, 3, 4], \<lparr>writer_socket_fd = 5, writer_buffer = [], writer_begin = 0\<rparr>)
   \<and> ck_http_output_writer_buffered_bytes
       (Some \<lparr>writer_socket_fd = 5, writer_buffer = [], writer_begin = 0\<rparr>) = 0"
proof -
  let ?w = "\<lparr>writer_socket_fd = 5, writer_buffer = [], writer_begin = 0\<rparr>"
  have a: "ck_http_output_writer_attach_socket False (ck_http_output_writer_init ?w) 5 = (0, ?w)"
    and r: "writer_run [Queue [1, 2, 3], Drive [Accepts 2, Send_error EINTR], Queue [4], Drive [Accepts 9]]
      ?w = ([1, 2, 3, 4], [1, 2, 3, 4], ?w)"
    by code_simp+
  show ?thesis using writer_wire_order [OF a r] r by simp
qed



text \<open>
  The buffer is compacted only when it is full to the last byte: after 40000 bytes were
  queued and 32768 of them sent, 30000 further bytes are refused although the 7232 buffered
  bytes and the new ones together fill little more than half of the buffer.
\<close>

theorem writer_refuses_with_room:
  assumes "length first = 40000" and "length second = 30000"
  shows "case writer_run [Queue first, Drive [Accepts 32768]]
           \<lparr>writer_socket_fd = 5, writer_buffer = [], writer_begin = 0\<rparr> of
         (accepted, wire, w) \<Rightarrow>
           accepted = first
           \<and> ck_http_output_writer_buffered_bytes (Some w) + length second
               < CK_HTTP_OUTPUT_WRITE_BUFFER_BYTES
           \<and> fst (ck_http_output_writer_queue False w second) = -2"
  using assms
  by (auto simp: ck_http_output_writer_queue_def ck_http_output_writer_drive_def
      writer_drive_loop.simps Let_def CK_HTTP_OUTPUT_WRITE_BUFFER_BYTES_def
      CK_HTTP_OUTPUT_WRITE_BUDGET_BYTES_def ck_http_output_writer_buffered_bytes_def
      split: prod.splits)

theorem writer_refuses_with_room_witness:
  "case writer_run [Queue (replicate 40000 0), Drive [Accepts 32768]]
      \<lparr>writer_socket_fd = 5, writer_buffer = [], writer_begin = 0\<rparr> of
    (accepted, wire, w) \<Rightarrow> fst (ck_http_output_writer_queue False w (replicate 30000 0)) = -2"
  using writer_refuses_with_room [of "replicate 40000 0" "replicate 30000 0"]
  by (auto split: prod.splits)

end
