(* ===== verification/Ck_Race.thy ===== *)
theory Ck_Race
  imports Ck_Prelude
begin

text \<open>
  Races on one atomic word: any number of threads, each in its own local state, and the set of
  those that have won something.  Used for the life cycles of connections and requests, whose
  compare-and-swap operations must have exactly one winner.
\<close>

definition winners :: "('t \<Rightarrow> bool) \<Rightarrow> (nat \<Rightarrow> 't) \<Rightarrow> nat set" where
  "winners P ts = {i. P (ts i)}"

text \<open>Exactly one winner if \<open>b\<close>, none otherwise.\<close>

definition one_winner :: "bool \<Rightarrow> nat set \<Rightarrow> bool" where
  "one_winner b W \<longleftrightarrow> (if b then \<exists>i. W = {i} else W = {})"

lemma winners_upd:
  "\<not> P (ts i) \<Longrightarrow> winners P (ts(i := t)) = (if P t then insert i (winners P ts) else winners P ts)"
  by (auto simp: winners_def split: if_splits)

text \<open>A winner that moves on and stays a winner.\<close>

lemma winners_keep: "P (ts i) \<Longrightarrow> P t \<Longrightarrow> winners P (ts(i := t)) = winners P ts"
  by (auto simp: winners_def split: if_splits)

lemma one_winner_ex1:
  "one_winner b (winners P ts) \<Longrightarrow> if b then \<exists>!i. P (ts i) else \<forall>i. \<not> P (ts i)"
  by (auto simp: one_winner_def winners_def set_eq_iff)

lemma one_winner_unique: "one_winner b (winners P ts) \<Longrightarrow> P (ts i) \<Longrightarrow> P (ts j) \<Longrightarrow> i = j"
  by (auto simp: one_winner_def winners_def set_eq_iff split: if_splits)

end
