(* ===== verification/Ck_Connection_Lifecycle.thy ===== *)
theory Ck_Connection_Lifecycle
  imports Ck_Race
begin

text \<open>
  The life cycle of a connection, the atomic word \<open>lifecycle\<close> of \<open>c/connection/ck_connection.c\<close>:
  bits 0 to 7 hold the state, bits 8 to 15 the terminal event (all ones for none), bits 16 to 63
  the async cycle id.

  The functions that change the word are compare-and-swap loops.  Their decision on a loaded
  word is a function here (\<open>Inl r\<close> returns \<open>r\<close>, \<open>Inr w\<close> tries to install \<open>w\<close>); the undisturbed
  calls are in \<open>Ck_Connection\<close>, and the last section interleaves the atomic steps of any number
  of threads.  The abstract life cycle \<open>life\<close> is what the word encodes.
\<close>

section \<open>The packed life cycle\<close>

definition CK_CONNECTION_OPEN :: int where "CK_CONNECTION_OPEN = 0"
definition CK_CONNECTION_ASYNC_WAIT :: int where "CK_CONNECTION_ASYNC_WAIT = 1"
definition CK_CONNECTION_CLOSING :: int where "CK_CONNECTION_CLOSING = 2"
definition CK_CONNECTION_CLOSED :: int where "CK_CONNECTION_CLOSED = 3"
definition CK_CONNECTION_STATE_INVALID :: int where "CK_CONNECTION_STATE_INVALID = -1"

definition CK_CONNECTION_TERMINAL_COMPLETE :: int where "CK_CONNECTION_TERMINAL_COMPLETE = 0"
definition CK_CONNECTION_TERMINAL_SHUTDOWN :: int where "CK_CONNECTION_TERMINAL_SHUTDOWN = 4"

definition CK_CONNECTION_TERMINAL_CLAIMED :: int where "CK_CONNECTION_TERMINAL_CLAIMED = 0"
definition CK_CONNECTION_TERMINAL_ALREADY_SAME :: int where "CK_CONNECTION_TERMINAL_ALREADY_SAME = 1"
definition CK_CONNECTION_TERMINAL_ALREADY_DIFFERENT :: int where
  "CK_CONNECTION_TERMINAL_ALREADY_DIFFERENT = 2"

lemmas connection_consts = CK_CONNECTION_OPEN_def CK_CONNECTION_ASYNC_WAIT_def
  CK_CONNECTION_CLOSING_def CK_CONNECTION_CLOSED_def CK_CONNECTION_STATE_INVALID_def
  CK_CONNECTION_TERMINAL_COMPLETE_def CK_CONNECTION_TERMINAL_SHUTDOWN_def
  CK_CONNECTION_TERMINAL_CLAIMED_def CK_CONNECTION_TERMINAL_ALREADY_SAME_def
  CK_CONNECTION_TERMINAL_ALREADY_DIFFERENT_def

abbreviation CK_CONNECTION_STATE_MASK :: u64 where "CK_CONNECTION_STATE_MASK \<equiv> 0xff"
abbreviation CK_CONNECTION_EVENT_MASK :: u64 where "CK_CONNECTION_EVENT_MASK \<equiv> 0xff"
abbreviation CK_CONNECTION_CYCLE_MASK :: u64 where "CK_CONNECTION_CYCLE_MASK \<equiv> 0x0000ffffffffffff"

definition ck_connection_pack :: "int \<Rightarrow> int \<Rightarrow> u64 \<Rightarrow> u64" where
  "ck_connection_pack state event cycle_id =
    (let event_bits = (if event < 0 then 0xff else ucast (word_of_int event :: u32)) in
     push_bit 16 (cycle_id AND CK_CONNECTION_CYCLE_MASK)
     OR push_bit 8 (event_bits AND CK_CONNECTION_EVENT_MASK)
     OR (ucast (word_of_int state :: u32) AND CK_CONNECTION_STATE_MASK))"

definition ck_connection_unpack_state :: "u64 \<Rightarrow> int" where
  "ck_connection_unpack_state lifecycle = uint (ucast (lifecycle AND CK_CONNECTION_STATE_MASK) :: u32)"

definition ck_connection_unpack_event :: "u64 \<Rightarrow> int" where
  "ck_connection_unpack_event lifecycle =
    (if lifecycle AND push_bit 8 CK_CONNECTION_EVENT_MASK = push_bit 8 0xff then -1
     else sint (ucast (drop_bit 8 lifecycle AND CK_CONNECTION_EVENT_MASK) :: u32))"

definition ck_connection_unpack_cycle :: "u64 \<Rightarrow> u64" where
  "ck_connection_unpack_cycle lifecycle = drop_bit 16 lifecycle AND CK_CONNECTION_CYCLE_MASK"

definition ck_connection_valid_event :: "int \<Rightarrow> bool" where
  "ck_connection_valid_event event \<longleftrightarrow>
     event \<ge> CK_CONNECTION_TERMINAL_COMPLETE \<and> event \<le> CK_CONNECTION_TERMINAL_SHUTDOWN"

definition ck_connection_valid_cycle_id :: "u64 \<Rightarrow> bool" where
  "ck_connection_valid_cycle_id cycle_id \<longleftrightarrow> cycle_id \<noteq> 0 \<and> cycle_id \<le> CK_CONNECTION_CYCLE_MASK"

text \<open>The three fields do not overlap: packing is inverted by the unpacking functions.\<close>

lemma byte_mask: "(0xff :: u64) = mask 8" "(0x0000ffffffffffff :: u64) = mask 48"
  by (simp_all add: mask_eq_exp_minus_1)

lemma and_byte_masks:
  "(w :: u64) AND 0xff = take_bit 8 w" "(w :: u64) AND 0x0000ffffffffffff = take_bit 48 w"
  by (simp_all only: byte_mask take_bit_eq_mask)

lemma pack_layout:
  "ck_connection_pack state event cycle_id =
    push_bit 16 (take_bit 48 cycle_id)
    OR push_bit 8 (take_bit 8 (if event < 0 then 0xff else word_of_int event))
    OR take_bit 8 (word_of_int state)"
  unfolding ck_connection_pack_def Let_def and_byte_masks
  by (rule bit_word_eqI) (auto simp: bit_simps)

lemma unpack_state_pack:
  assumes "0 \<le> state" and "state < 256"
  shows "ck_connection_unpack_state (ck_connection_pack state event cycle_id) = state"
proof -
  have "(ucast (ck_connection_pack state event cycle_id AND CK_CONNECTION_STATE_MASK) :: u32)
      = take_bit 8 (word_of_int state)"
    unfolding pack_layout and_byte_masks by (rule bit_word_eqI) (auto simp: bit_simps)
  moreover have "uint (take_bit 8 (word_of_int state :: u32)) = state"
    using assms by (simp only: unsigned_take_bit_eq uint_word_of_int) (simp add: take_bit_eq_mod)
  ultimately show ?thesis by (simp only: ck_connection_unpack_state_def)
qed

lemma unpack_cycle_pack:
  "ck_connection_unpack_cycle (ck_connection_pack state event cycle_id) = take_bit 48 cycle_id"
  unfolding pack_layout ck_connection_unpack_cycle_def and_byte_masks
  by (rule bit_word_eqI) (auto simp: bit_simps)

lemma event_byte:
  "drop_bit 8 (ck_connection_pack state event cycle_id) AND CK_CONNECTION_EVENT_MASK
    = take_bit 8 (if event < 0 then 0xff else word_of_int event)"
  unfolding pack_layout and_byte_masks by (rule bit_word_eqI) (auto simp: bit_simps)

lemma no_event_test:
  "(w :: u64) AND push_bit 8 0xff = push_bit 8 0xff \<longleftrightarrow> drop_bit 8 w AND 0xff = 0xff"
proof -
  have "w AND push_bit 8 0xff = push_bit 8 (drop_bit 8 w AND 0xff)"
    unfolding byte_mask by (rule bit_word_eqI) (auto simp: bit_simps)
  moreover have "push_bit 8 (drop_bit 8 w AND 0xff) = push_bit 8 (0xff :: u64) \<longleftrightarrow>
      drop_bit 8 w AND 0xff = 0xff"
  proof
    assume "push_bit 8 (drop_bit 8 w AND 0xff) = push_bit 8 (0xff :: u64)"
    then have "drop_bit 8 (push_bit 8 (drop_bit 8 w AND 0xff)) = drop_bit 8 (push_bit 8 (0xff :: u64))"
      by simp
    moreover have "drop_bit 8 (push_bit 8 (v AND 0xff)) = v AND 0xff" for v :: u64
      unfolding byte_mask by (rule bit_word_eqI) (auto simp: bit_simps)
    from this [of "drop_bit 8 w"] this [of "0xff"]
    have "drop_bit 8 (push_bit 8 (drop_bit 8 w AND 0xff)) = drop_bit 8 w AND 0xff"
      "drop_bit 8 (push_bit 8 (0xff :: u64)) = 0xff" by simp_all
    ultimately show "drop_bit 8 w AND 0xff = 0xff" by simp
  qed simp
  ultimately show ?thesis by simp
qed

lemma unpack_event_pack:
  assumes "-1 \<le> event" and "event < 255"
  shows "ck_connection_unpack_event (ck_connection_pack state event cycle_id) = event"
proof (cases "event < 0")
  case True
  then have "event = -1" using assms by simp
  with event_byte [of state event cycle_id] show ?thesis
    unfolding ck_connection_unpack_event_def no_event_test by simp
next
  case False
  have e: "drop_bit 8 (ck_connection_pack state event cycle_id) AND CK_CONNECTION_EVENT_MASK
      = word_of_int event"
  proof -
    have "take_bit 8 (word_of_int event :: u64) = word_of_int event"
      unfolding word_uint_eq_iff unsigned_take_bit_eq uint_word_of_int
      using False assms by (simp add: take_bit_eq_mod)
    with event_byte [of state event cycle_id] False show ?thesis by simp
  qed
  have "(word_of_int event :: u64) \<noteq> 0xff"
    using False assms by (simp add: word_uint_eq_iff uint_word_of_int)
  moreover have "sint (ucast (word_of_int event :: u64) :: u32) = event"
    using False assms by (simp add: sint_uint unsigned_ucast_eq uint_word_of_int take_bit_eq_mod
        signed_take_bit_int_eq_self)
  ultimately show ?thesis
    unfolding ck_connection_unpack_event_def no_event_test e by simp
qed


section \<open>Decisions\<close>

definition open_word :: u64 where "open_word = ck_connection_pack CK_CONNECTION_OPEN (-1) 0"

definition try_terminal_decide :: "int \<Rightarrow> u64 \<Rightarrow> int + u64" where
  "try_terminal_decide event current =
    (let state = ck_connection_unpack_state current in
     if state = CK_CONNECTION_CLOSING \<or> state = CK_CONNECTION_CLOSED then
       Inl (if ck_connection_unpack_event current = event
            then CK_CONNECTION_TERMINAL_ALREADY_SAME else CK_CONNECTION_TERMINAL_ALREADY_DIFFERENT)
     else if state \<noteq> CK_CONNECTION_OPEN \<and> state \<noteq> CK_CONNECTION_ASYNC_WAIT then Inl (-1)
     else Inr (ck_connection_pack CK_CONNECTION_CLOSING event (ck_connection_unpack_cycle current)))"

definition close_decide :: "u64 \<Rightarrow> int + u64" where
  "close_decide current =
    (if ck_connection_unpack_state current = CK_CONNECTION_CLOSED then Inl 1
     else if ck_connection_unpack_state current \<noteq> CK_CONNECTION_CLOSING
             \<or> ck_connection_unpack_event current < 0 then Inl 1
     else Inr (ck_connection_pack CK_CONNECTION_CLOSED (ck_connection_unpack_event current)
                 (ck_connection_unpack_cycle current)))"

section \<open>The abstract life cycle\<close>

datatype life = Life_open | Life_async u64 | Life_closing int u64 | Life_closed int u64

fun life_code :: "life \<Rightarrow> u64" where
  "life_code Life_open = ck_connection_pack CK_CONNECTION_OPEN (-1) 0"
| "life_code (Life_async c) = ck_connection_pack CK_CONNECTION_ASYNC_WAIT (-1) c"
| "life_code (Life_closing e c) = ck_connection_pack CK_CONNECTION_CLOSING e c"
| "life_code (Life_closed e c) = ck_connection_pack CK_CONNECTION_CLOSED e c"

fun life_ok :: "life \<Rightarrow> bool" where
  "life_ok Life_open \<longleftrightarrow> True"
| "life_ok (Life_async c) \<longleftrightarrow> ck_connection_valid_cycle_id c"
| "life_ok (Life_closing e c) \<longleftrightarrow> ck_connection_valid_event e \<and> c \<le> CK_CONNECTION_CYCLE_MASK"
| "life_ok (Life_closed e c) \<longleftrightarrow> ck_connection_valid_event e \<and> c \<le> CK_CONNECTION_CYCLE_MASK"

fun life_state :: "life \<Rightarrow> int" where
  "life_state Life_open = CK_CONNECTION_OPEN"
| "life_state (Life_async c) = CK_CONNECTION_ASYNC_WAIT"
| "life_state (Life_closing e c) = CK_CONNECTION_CLOSING"
| "life_state (Life_closed e c) = CK_CONNECTION_CLOSED"

fun life_event :: "life \<Rightarrow> int option" where
  "life_event (Life_closing e c) = Some e"
| "life_event (Life_closed e c) = Some e"
| "life_event _ = None"

fun life_cycle :: "life \<Rightarrow> u64" where
  "life_cycle Life_open = 0"
| "life_cycle (Life_async c) = c"
| "life_cycle (Life_closing e c) = c"
| "life_cycle (Life_closed e c) = c"

lemma take_bit_cycle: "c \<le> CK_CONNECTION_CYCLE_MASK \<Longrightarrow> take_bit 48 c = c"
  unfolding word_le_nat_alt word_unat_eq_iff unsigned_take_bit_eq
  by (simp add: take_bit_eq_mod)

lemma unpack_life_code [simp]:
  assumes "life_ok l"
  shows "ck_connection_unpack_state (life_code l) = life_state l"
    and "ck_connection_unpack_event (life_code l) = (case life_event l of None \<Rightarrow> -1 | Some e \<Rightarrow> e)"
    and "ck_connection_unpack_cycle (life_code l) = life_cycle l"
  using assms
  by (cases l; simp add: unpack_state_pack unpack_event_pack unpack_cycle_pack take_bit_cycle
      connection_consts ck_connection_valid_event_def ck_connection_valid_cycle_id_def)+

lemma life_code_inj:
  assumes "life_ok a" and "life_ok b" and "life_code a = life_code b"
  shows "a = b"
proof -
  have "life_state a = life_state b" "life_cycle a = life_cycle b"
    "(case life_event a of None \<Rightarrow> -1 | Some e \<Rightarrow> e) = (case life_event b of None \<Rightarrow> -1 | Some e \<Rightarrow> e)"
    using assms by (metis unpack_life_code)+
  then show ?thesis by (cases a; cases b) (simp_all add: connection_consts)
qed

text \<open>The decisions on an encoded life cycle.\<close>

lemma try_terminal_decide_life:
  assumes "life_ok l"
  shows "try_terminal_decide event (life_code l) =
    (case life_event l of
       Some e \<Rightarrow> Inl (if e = event then CK_CONNECTION_TERMINAL_ALREADY_SAME
                      else CK_CONNECTION_TERMINAL_ALREADY_DIFFERENT)
     | None \<Rightarrow> Inr (life_code (Life_closing event (life_cycle l))))"
  using assms by (cases l) (simp_all add: try_terminal_decide_def Let_def connection_consts del: life_code.simps,
    simp_all add: connection_consts)

lemma close_decide_life:
  assumes "life_ok l"
  shows "close_decide (life_code l) =
    (case l of Life_closing e c \<Rightarrow> Inr (life_code (Life_closed e c)) | _ \<Rightarrow> Inl 1)"
  using assms by (cases l) (simp_all add: close_decide_def connection_consts
    ck_connection_valid_event_def del: life_code.simps, simp_all add: connection_consts)

section \<open>Races\<close>

text \<open>
  Each thread runs one call.  \<open>Start_async\<close> is a single strong compare-and-swap; the loops of
  \<open>Try_terminal\<close> and \<open>Close\<close> load the word, decide, and try to install the new word with a weak
  compare-and-swap, which may fail without reason and then delivers the current word.  For
  \<open>Close\<close> a result of 0 means that the thread has won the right to clean up.
\<close>

datatype life_op = Start_async u64 | Try_terminal int | Close

datatype life_thread = Calling life_op | Looping life_op u64 | Returned life_op int

fun life_op_valid :: "life_op \<Rightarrow> bool" where
  "life_op_valid (Start_async c) = ck_connection_valid_cycle_id c"
| "life_op_valid (Try_terminal e) = ck_connection_valid_event e"
| "life_op_valid Close = True"

fun life_decide :: "life_op \<Rightarrow> u64 \<Rightarrow> int + u64" where
  "life_decide (Start_async c) current =
    (if current = ck_connection_pack CK_CONNECTION_OPEN (-1) 0
     then Inr (ck_connection_pack CK_CONNECTION_ASYNC_WAIT (-1) c) else Inl 1)"
| "life_decide (Try_terminal e) current = try_terminal_decide e current"
| "life_decide Close current = close_decide current"

inductive life_step :: "u64 \<times> (nat \<Rightarrow> life_thread) \<Rightarrow> u64 \<times> (nat \<Rightarrow> life_thread) \<Rightarrow> bool" where
  reject: "ts i = Calling op \<Longrightarrow> \<not> life_op_valid op \<Longrightarrow>
    life_step (w, ts) (w, ts(i := Returned op (-1)))"
| strong_fail: "ts i = Calling (Start_async c) \<Longrightarrow> life_op_valid (Start_async c) \<Longrightarrow>
    life_decide (Start_async c) w = Inl r \<Longrightarrow>
    life_step (w, ts) (w, ts(i := Returned (Start_async c) r))"
| strong_ok: "ts i = Calling (Start_async c) \<Longrightarrow> life_op_valid (Start_async c) \<Longrightarrow>
    life_decide (Start_async c) w = Inr desired \<Longrightarrow>
    life_step (w, ts) (desired, ts(i := Returned (Start_async c) 0))"
| load: "ts i = Calling op \<Longrightarrow> life_op_valid op \<Longrightarrow> op = Close \<or> op = Try_terminal e \<Longrightarrow>
    life_step (w, ts) (w, ts(i := Looping op w))"
| give_up: "ts i = Looping op current \<Longrightarrow> life_decide op current = Inl r \<Longrightarrow>
    life_step (w, ts) (w, ts(i := Returned op r))"
| weak_ok: "ts i = Looping op current \<Longrightarrow> life_decide op current = Inr desired \<Longrightarrow> w = current \<Longrightarrow>
    life_step (w, ts) (desired, ts(i := Returned op 0))"
| weak_fail: "ts i = Looping op current \<Longrightarrow> life_decide op current = Inr desired \<Longrightarrow>
    life_step (w, ts) (w, ts(i := Looping op w))"

text \<open>What one installed word leads to, on the abstract life cycle.\<close>

inductive life_next :: "life_op \<Rightarrow> life \<Rightarrow> life \<Rightarrow> bool" where
  next_async: "ck_connection_valid_cycle_id c \<Longrightarrow> life_next (Start_async c) Life_open (Life_async c)"
| next_closing: "life_event l = None \<Longrightarrow> ck_connection_valid_event e \<Longrightarrow>
    life_next (Try_terminal e) l (Life_closing e (life_cycle l))"
| next_closed: "life_next Close (Life_closing e c) (Life_closed e c)"

inductive_cases life_next_cases: "life_next op l l'"

lemma life_cycle_bound: "life_ok l \<Longrightarrow> life_cycle l \<le> CK_CONNECTION_CYCLE_MASK"
  by (cases l) (simp_all add: ck_connection_valid_cycle_id_def)

lemma life_next_ok: "life_next op l l' \<Longrightarrow> life_ok l \<Longrightarrow> life_ok l'"
  by (induction rule: life_next.induct) (simp_all add: life_cycle_bound)

text \<open>A decision either is a transition of the abstract life cycle or a result it justifies.\<close>

lemma life_decide_Inr:
  assumes "life_ok l" and "life_op_valid op" and "life_decide op (life_code l) = Inr w"
  shows "\<exists>l'. life_next op l l' \<and> w = life_code l'"
proof (cases op)
  case (Start_async c)
  with assms have "life_code l = life_code Life_open" and w: "w = life_code (Life_async c)"
    by (simp_all split: if_splits)
  with assms(1) have "l = Life_open" by (intro life_code_inj) simp_all
  with Start_async assms(2) w show ?thesis by (auto intro: next_async)
next
  case (Try_terminal e)
  with assms show ?thesis
    by (auto simp: try_terminal_decide_life split: option.splits intro!: next_closing)
next
  case Close
  with assms show ?thesis
    by (auto simp: close_decide_life split: life.splits intro!: next_closed)
qed

lemma life_decide_Inl_terminal:
  assumes "life_ok l" and "life_decide (Try_terminal e) (life_code l) = Inl r"
  shows "\<exists>e'. life_event l = Some e' \<and>
    r = (if e' = e then CK_CONNECTION_TERMINAL_ALREADY_SAME
         else CK_CONNECTION_TERMINAL_ALREADY_DIFFERENT)"
  using assms by (cases "life_event l") (simp_all add: try_terminal_decide_life)

lemma life_decide_Inl_close:
  "life_ok l \<Longrightarrow> life_decide Close (life_code l) = Inl r \<Longrightarrow> r = 1"
  by (auto simp: close_decide_life split: life.splits)

lemma life_decide_Inl_start: "life_decide (Start_async c) w = Inl r \<Longrightarrow> r = 1"
  by (simp split: if_splits)

lemma life_decide_Inl_nonzero:
  assumes "life_ok l" and "life_decide op (life_code l) = Inl r"
  shows "r \<noteq> 0"
proof (cases op)
  case (Try_terminal e)
  with life_decide_Inl_terminal [OF assms(1), of e r] assms(2) show ?thesis
    by (auto simp: connection_consts split: if_splits)
qed (use assms life_decide_Inl_close life_decide_Inl_start in \<open>fastforce simp del: life_decide.simps\<close>)+

text \<open>
  The invariant: the word encodes a life cycle; what a loop has loaded is an earlier one; a
  returned result is still justified; and there is exactly one claimant of the terminal event
  once there is an event, exactly one owner of the cleanup once the connection is closed.
\<close>

definition life_claims :: "life_thread \<Rightarrow> bool" where
  "life_claims t \<longleftrightarrow> (\<exists>e. t = Returned (Try_terminal e) CK_CONNECTION_TERMINAL_CLAIMED)"

definition life_cleans :: "life_thread \<Rightarrow> bool" where
  "life_cleans t \<longleftrightarrow> t = Returned Close 0"

fun thread_ok :: "life \<Rightarrow> life_thread \<Rightarrow> bool" where
  "thread_ok l (Calling op) \<longleftrightarrow> True"
| "thread_ok l (Looping op w) \<longleftrightarrow> life_op_valid op \<and> (\<exists>l0. life_ok l0 \<and> w = life_code l0
     \<and> (life_event l0 \<noteq> None \<longrightarrow> life_event l = life_event l0))"
| "thread_ok l (Returned (Try_terminal e) r) \<longleftrightarrow>
     (r = CK_CONNECTION_TERMINAL_CLAIMED \<longrightarrow> life_event l = Some e)
     \<and> (r = CK_CONNECTION_TERMINAL_ALREADY_SAME \<longrightarrow> life_event l = Some e)
     \<and> (r = CK_CONNECTION_TERMINAL_ALREADY_DIFFERENT \<longrightarrow>
          (\<exists>e'. e' \<noteq> e \<and> life_event l = Some e'))"
| "thread_ok l (Returned Close r) \<longleftrightarrow> (r = 0 \<longrightarrow> life_state l = CK_CONNECTION_CLOSED)"
| "thread_ok l (Returned (Start_async c) r) \<longleftrightarrow> (r = 0 \<longrightarrow> c \<noteq> 0 \<and> life_cycle l = c)"

definition life_inv :: "u64 \<times> (nat \<Rightarrow> life_thread) \<Rightarrow> bool" where
  "life_inv s \<longleftrightarrow> (\<exists>l. life_ok l \<and> fst s = life_code l \<and> (\<forall>i. thread_ok l (snd s i))
     \<and> one_winner (life_event l \<noteq> None) (winners life_claims (snd s))
     \<and> one_winner (life_state l = CK_CONNECTION_CLOSED) (winners life_cleans (snd s)))"

lemma life_next_thread_ok:
  assumes "life_next op l l'" and "thread_ok l t"
  shows "thread_ok l' t"
  using assms
proof (cases rule: life_next.cases)
  case (next_closing e)
  then have "life_state l \<noteq> CK_CONNECTION_CLOSED" by (cases l) (simp_all add: connection_consts)
  with next_closing assms(2) show ?thesis
    by (cases "(l, t)" rule: thread_ok.cases) auto
next
  case (next_async c)
  with assms(2) show ?thesis
    by (cases "(l, t)" rule: thread_ok.cases) (auto simp: connection_consts)
next
  case (next_closed e c)
  with assms(2) show ?thesis
    by (cases "(l, t)" rule: thread_ok.cases) (auto simp: connection_consts)
qed

lemma life_inv_thread: "life_inv (w, ts) \<Longrightarrow> \<exists>l. life_ok l \<and> w = life_code l \<and> thread_ok l (ts i)"
  by (auto simp: life_inv_def)

text \<open>A thread that moves without becoming a winner does not disturb the winners.\<close>

lemma life_inv_quiet:
  assumes "life_inv (w, ts)" and "\<not> life_claims (ts i)" and "\<not> life_cleans (ts i)"
    and "\<not> life_claims t" and "\<not> life_cleans t"
    and "\<And>l. life_ok l \<Longrightarrow> w = life_code l \<Longrightarrow> thread_ok l (ts i) \<Longrightarrow> thread_ok l t"
  shows "life_inv (w, ts(i := t))"
  using assms unfolding life_inv_def fst_conv snd_conv
  by (auto simp: winners_upd)

text \<open>A successful compare-and-swap takes the abstract life cycle one step further.\<close>

lemma life_inv_install:
  assumes "life_inv (w, ts)" and "life_op_valid op" and "life_decide op w = Inr desired"
    and "\<not> life_claims (ts i)" and "\<not> life_cleans (ts i)"
  shows "life_inv (desired, ts(i := Returned op 0))"
proof -
  from assms(1) obtain l where l: "life_ok l" "w = life_code l" "\<forall>i. thread_ok l (ts i)"
    and won: "one_winner (life_event l \<noteq> None) (winners life_claims ts)"
      "one_winner (life_state l = CK_CONNECTION_CLOSED) (winners life_cleans ts)"
    by (auto simp: life_inv_def)
  from life_decide_Inr [OF l(1) assms(2)] assms(3) l(2)
  obtain l' where step: "life_next op l l'" and w': "desired = life_code l'" by auto
  have others: "thread_ok l' (ts j)" for j using life_next_thread_ok [OF step] l(3) by blast
  from step have "thread_ok l' (Returned op 0)
    \<and> one_winner (life_event l' \<noteq> None) (winners life_claims (ts(i := Returned op 0)))
    \<and> one_winner (life_state l' = CK_CONNECTION_CLOSED) (winners life_cleans (ts(i := Returned op 0)))"
  proof (cases rule: life_next.cases)
    case (next_async c)
    with won assms(4,5) show ?thesis
      by (auto simp: winners_upd one_winner_def life_claims_def life_cleans_def connection_consts
          ck_connection_valid_cycle_id_def)
  next
    case (next_closing e)
    then have "life_state l \<noteq> CK_CONNECTION_CLOSED" by (cases l) (simp_all add: connection_consts)
    with next_closing won assms(4,5) show ?thesis
      by (auto simp: winners_upd one_winner_def life_claims_def life_cleans_def connection_consts)
  next
    case (next_closed e c)
    with won assms(4,5) show ?thesis
      by (auto simp: winners_upd one_winner_def life_claims_def life_cleans_def connection_consts)
  qed
  with others w' life_next_ok [OF step l(1)] show ?thesis
    unfolding life_inv_def fst_conv snd_conv by (intro exI [of _ l']) auto
qed

lemma life_step_inv:
  assumes "life_step s s'" and "life_inv s"
  shows "life_inv s'"
  using assms
proof (induction rule: life_step.induct)
  case (reject ts i op w)
  then show ?case
    by (intro life_inv_quiet; cases op) (auto simp: life_claims_def life_cleans_def connection_consts)
next
  case (strong_fail ts i c w r)
  then show ?case
    by (intro life_inv_quiet) (auto simp: life_claims_def life_cleans_def dest!: life_decide_Inl_start
      simp del: life_decide.simps)
next
  case (strong_ok ts i c w desired)
  then show ?case
    by (intro life_inv_install) (auto simp: life_claims_def life_cleans_def)
next
  case (load ts i op e w)
  then show ?case
    by (intro life_inv_quiet) (auto simp: life_claims_def life_cleans_def)
next
  case (give_up ts i op current r w)
  from life_inv_thread [OF give_up.prems, of i] give_up.hyps(1)
  obtain l0 where l0: "life_ok l0" "current = life_code l0" by auto
  show ?case
  proof (rule life_inv_quiet [OF give_up.prems])
    fix l assume "life_ok l" and ok: "thread_ok l (ts i)"
    show "thread_ok l (Returned op r)"
    proof (cases op)
      case (Try_terminal e)
      obtain l1 where "life_ok l1" "current = life_code l1"
          "life_event l1 \<noteq> None \<longrightarrow> life_event l = life_event l1"
        using ok give_up.hyps(1) by auto
      with life_decide_Inl_terminal [of l1 e r] give_up.hyps(2) Try_terminal show ?thesis
        by (auto simp: connection_consts split: if_splits)
    qed (use give_up.hyps(2) l0 in \<open>auto dest: life_decide_Inl_close life_decide_Inl_start simp del: life_decide.simps\<close>)
  qed (use give_up.hyps l0 life_decide_Inl_nonzero [of l0 op r] in
        \<open>auto simp: life_claims_def life_cleans_def connection_consts simp del: life_decide.simps\<close>)
next
  case (weak_ok ts i op current desired w)
  with life_inv_thread [of w ts i] have "life_op_valid op" by auto
  with weak_ok show ?case
    by (intro life_inv_install) (auto simp: life_claims_def life_cleans_def)
next
  case (weak_fail ts i op current desired w)
  then show ?case
    by (intro life_inv_quiet) (auto simp: life_claims_def life_cleans_def)
qed

definition life_start :: "(nat \<Rightarrow> life_op) \<Rightarrow> u64 \<times> (nat \<Rightarrow> life_thread)" where
  "life_start ops = (ck_connection_pack CK_CONNECTION_OPEN (-1) 0, \<lambda>i. Calling (ops i))"

lemma life_start_inv: "life_inv (life_start ops)"
  by (auto simp: life_inv_def life_start_def winners_def one_winner_def life_claims_def
    life_cleans_def connection_consts intro!: exI [of _ Life_open])

lemma life_reach_inv: "life_step\<^sup>*\<^sup>* (life_start ops) s \<Longrightarrow> life_inv s"
  by (induction rule: rtranclp_induct) (auto intro: life_start_inv life_step_inv)

section \<open>Properties\<close>

text \<open>
  The life cycle word is an exact encoding: every state, every terminal event or none, and
  every 48-bit cycle id is read back as it was packed.
\<close>

theorem pack_unpack:
  assumes "state \<in> {CK_CONNECTION_OPEN, CK_CONNECTION_ASYNC_WAIT, CK_CONNECTION_CLOSING,
      CK_CONNECTION_CLOSED}"
    and "event = -1 \<or> ck_connection_valid_event event" and "unat cycle_id < 2 ^ 48"
  shows "ck_connection_unpack_state (ck_connection_pack state event cycle_id) = state
    \<and> ck_connection_unpack_event (ck_connection_pack state event cycle_id) = event
    \<and> ck_connection_unpack_cycle (ck_connection_pack state event cycle_id) = cycle_id"
proof -
  have "take_bit 48 cycle_id = cycle_id"
    using assms(3) by (intro take_bit_cycle) (simp add: word_le_nat_alt)
  with assms(1,2) show ?thesis
    by (auto simp: unpack_state_pack unpack_event_pack unpack_cycle_pack connection_consts
        ck_connection_valid_event_def)
qed

theorem pack_unpack_witness:
  "ck_connection_unpack_event (ck_connection_pack CK_CONNECTION_CLOSING 4 281474976710655) = 4"
  using pack_unpack [of CK_CONNECTION_CLOSING 4 281474976710655]
  by (simp add: ck_connection_valid_event_def connection_consts)

text \<open>
  C13. Exactly one winner: any number of threads run start, terminal and close calls on a fresh
  connection, their atomic steps interleaved in any way and with spurious failures of the weak
  compare-and-swap.  In every reachable state the terminal event is claimed by exactly one
  thread once the connection is closing, and by none before; the cleanup belongs to exactly one
  thread once it is closed; and every result already returned is still true of the word: the
  event of the claimant is the recorded one, ALREADY_SAME and ALREADY_DIFFERENT compare with it.
\<close>

theorem terminal_race:
  assumes "life_step\<^sup>*\<^sup>* (life_start ops) (w, ts)"
  shows "(if ck_connection_unpack_state w \<in> {CK_CONNECTION_CLOSING, CK_CONNECTION_CLOSED}
      then \<exists>!i. \<exists>e. ts i = Returned (Try_terminal e) CK_CONNECTION_TERMINAL_CLAIMED
      else \<forall>i e. ts i \<noteq> Returned (Try_terminal e) CK_CONNECTION_TERMINAL_CLAIMED)
    \<and> (if ck_connection_unpack_state w = CK_CONNECTION_CLOSED
       then \<exists>!i. ts i = Returned Close 0 else \<forall>i. ts i \<noteq> Returned Close 0)
    \<and> (\<forall>i e. ts i = Returned (Try_terminal e) CK_CONNECTION_TERMINAL_CLAIMED \<longrightarrow>
         ck_connection_unpack_event w = e)
    \<and> (\<forall>i e. ts i = Returned (Try_terminal e) CK_CONNECTION_TERMINAL_ALREADY_SAME \<longrightarrow>
         ck_connection_unpack_event w = e)
    \<and> (\<forall>i e. ts i = Returned (Try_terminal e) CK_CONNECTION_TERMINAL_ALREADY_DIFFERENT \<longrightarrow>
         ck_connection_unpack_event w \<noteq> e)
    \<and> (\<forall>i c. ts i = Returned (Start_async c) 0 \<longrightarrow> ck_connection_unpack_cycle w = c)"
proof -
  from life_reach_inv [OF assms] obtain l where l: "life_ok l" "w = life_code l"
      "\<And>i. thread_ok l (ts i)"
    and won: "one_winner (life_event l \<noteq> None) (winners life_claims ts)"
      "one_winner (life_state l = CK_CONNECTION_CLOSED) (winners life_cleans ts)"
    by (auto simp: life_inv_def)
  have ev: "life_state l \<in> {CK_CONNECTION_CLOSING, CK_CONNECTION_CLOSED} \<longleftrightarrow> life_event l \<noteq> None"
    by (cases l) (simp_all add: connection_consts)
  show ?thesis
    unfolding l(2) unpack_life_code [OF l(1)] ev
  proof (intro conjI allI impI)
    show "if life_event l \<noteq> None
        then \<exists>!i. \<exists>e. ts i = Returned (Try_terminal e) CK_CONNECTION_TERMINAL_CLAIMED
        else \<forall>i e. ts i \<noteq> Returned (Try_terminal e) CK_CONNECTION_TERMINAL_CLAIMED"
      using one_winner_ex1 [OF won(1)] unfolding life_claims_def by (cases "life_event l = None") simp_all
    show "if life_state l = CK_CONNECTION_CLOSED then \<exists>!i. ts i = Returned Close 0
        else \<forall>i. ts i \<noteq> Returned Close 0"
      using one_winner_ex1 [OF won(2)] unfolding life_cleans_def .
  next
    fix i e assume "ts i = Returned (Try_terminal e) CK_CONNECTION_TERMINAL_CLAIMED"
    with l(3) [of i] show "(case life_event l of None \<Rightarrow> -1 | Some e \<Rightarrow> e) = e" by simp
  next
    fix i e assume "ts i = Returned (Try_terminal e) CK_CONNECTION_TERMINAL_ALREADY_SAME"
    with l(3) [of i] show "(case life_event l of None \<Rightarrow> -1 | Some e \<Rightarrow> e) = e"
      by (simp add: connection_consts)
  next
    fix i e assume "ts i = Returned (Try_terminal e) CK_CONNECTION_TERMINAL_ALREADY_DIFFERENT"
    with l(3) [of i] show "(case life_event l of None \<Rightarrow> -1 | Some e \<Rightarrow> e) \<noteq> e"
      by (auto simp: connection_consts)
  next
    fix i c assume "ts i = Returned (Start_async c) 0"
    with l(3) [of i] show "life_cycle l = c" by simp
  qed
qed

text \<open>A race of two terminal calls, both of which have loaded the open word.\<close>

theorem terminal_race_witness:
  "\<exists>!i. \<exists>e. ((\<lambda>i. Calling (Try_terminal (if i = 0 then 0 else 2)))
      (0 := Returned (Try_terminal 0) 0, Suc 0 := Looping (Try_terminal 2) open_word)) i
    = Returned (Try_terminal e) CK_CONNECTION_TERMINAL_CLAIMED"
proof -
  let ?ops = "\<lambda>i. Try_terminal (if i = 0 then 0 else 2)"
  let ?t0 = "\<lambda>i. Calling (?ops i)"
  let ?t1 = "?t0(0 := Looping (Try_terminal 0) open_word)"
  let ?t2 = "?t1(Suc 0 := Looping (Try_terminal 2) open_word)"
  let ?t3 = "?t2(0 := Returned (Try_terminal 0) 0)"
  have a: "life_step (life_start ?ops) (open_word, ?t1)"
    unfolding life_start_def open_word_def
    by (rule load [of _ _ _ 0]) (simp_all add: ck_connection_valid_event_def connection_consts)
  have b: "life_step (open_word, ?t1) (open_word, ?t2)"
    by (rule load [of _ _ _ 2]) (simp_all add: ck_connection_valid_event_def connection_consts)
  have d: "life_decide (Try_terminal 0) open_word
      = Inr (ck_connection_pack CK_CONNECTION_CLOSING 0 0)"
    using try_terminal_decide_life [of Life_open 0] by (simp add: open_word_def)
  have c: "life_step (open_word, ?t2) (ck_connection_pack CK_CONNECTION_CLOSING 0 0, ?t3)"
    by (rule weak_ok [OF _ d]) simp_all
  have reach: "life_step\<^sup>*\<^sup>* (life_start ?ops) (ck_connection_pack CK_CONNECTION_CLOSING 0 0, ?t3)"
    using a b c by (meson rtranclp.rtrancl_into_rtrancl rtranclp.rtrancl_refl)
  have st: "ck_connection_unpack_state (ck_connection_pack CK_CONNECTION_CLOSING 0 0) = CK_CONNECTION_CLOSING"
    by (simp add: unpack_state_pack connection_consts)
  have "\<exists>!i. \<exists>e. ?t3 i = Returned (Try_terminal e) CK_CONNECTION_TERMINAL_CLAIMED"
    using terminal_race [OF reach] unfolding st by simp
  moreover have "?t3 = ?t0(0 := Returned (Try_terminal 0) 0, Suc 0 := Looping (Try_terminal 2) open_word)"
    by (rule ext) simp
  ultimately show ?thesis by simp
qed

end
