(* ===== verification/Ck_Connection.thy ===== *)
theory Ck_Connection
  imports Ck_Http_Session Ck_Http_Response Ck_Http_Output_Writer Ck_Connection_Lifecycle
begin

text \<open>
  A connection, \<open>c/connection/ck_connection.[ch]\<close>: its identity and tokens, its socket, the
  four objects it owns (reader, request-body FIFO, writer, response) and its life cycle word.

  An owned pointer is an \<open>option\<close>, \<open>None\<close> for NULL.  The reader points to the FIFO that the
  connection owns: \<open>conn_http_request_body\<close> is that object and \<open>reader_body_queue\<close> the same
  value (\<open>conn_aliased\<close>), which every operation here keeps.  \<open>malloc\<close> and \<open>ck_socket_close\<close> are
  represented by their results: a block with arbitrary contents or NULL, and an errno or 0.
  The compare-and-swap loops are the calls that no other thread disturbs; races are the subject
  of \<open>Ck_Connection_Lifecycle\<close>.
\<close>

section \<open>Data\<close>

record ck_connection =
  conn_connection_id :: u64
  conn_request_id :: u64
  conn_owner_token :: u64
  conn_lifetime_token :: u64
  conn_socket_fd :: int
  conn_http_reader :: "ck_http_connection_reader option"
  conn_http_request_body :: "ck_http_request_body option"
  conn_http_writer :: "ck_http_output_writer option"
  conn_http_response :: "ck_http_response option"
  conn_lifecycle :: u64

text \<open>A connection in zeroed memory.\<close>

definition zero_connection :: ck_connection where
  "zero_connection = \<lparr>conn_connection_id = 0, conn_request_id = 0, conn_owner_token = 0,
     conn_lifetime_token = 0, conn_socket_fd = 0, conn_http_reader = None, conn_http_request_body = None,
     conn_http_writer = None, conn_http_response = None, conn_lifecycle = 0\<rparr>"

definition EINTR_code :: int where "EINTR_code = 4"

section \<open>Operations\<close>

definition ck_connection_state :: "ck_connection option \<Rightarrow> int" where
  "ck_connection_state connection =
    (case connection of
       None \<Rightarrow> CK_CONNECTION_STATE_INVALID
     | Some c \<Rightarrow> ck_connection_unpack_state (conn_lifecycle c))"

definition ck_connection_terminal_event :: "ck_connection option \<Rightarrow> int" where
  "ck_connection_terminal_event connection =
    (case connection of None \<Rightarrow> -1 | Some c \<Rightarrow> ck_connection_unpack_event (conn_lifecycle c))"

text \<open>The results of the four calls of \<open>malloc\<close> are arguments, in the order of the calls.\<close>

definition ck_connection_init ::
  "bool \<Rightarrow> ck_http_connection_reader option \<Rightarrow> ck_http_output_writer option
   \<Rightarrow> ck_http_request_body option \<Rightarrow> ck_http_response option
   \<Rightarrow> ck_connection \<Rightarrow> u64 \<Rightarrow> u64 \<Rightarrow> u64 \<Rightarrow> u64 \<Rightarrow> int \<times> ck_connection" where
  "ck_connection_init null_arg mem_reader mem_writer mem_body mem_response
     connection connection_id request_id owner_token lifetime_token =
    (if null_arg \<or> connection_id = 0 \<or> request_id = 0 then (-1, connection)
     else
       let connection1 = connection\<lparr>conn_http_request_body := None\<rparr> in
       case mem_reader of
         None \<Rightarrow> (-1, connection1\<lparr>conn_http_reader := None\<rparr>)
       | Some reader \<Rightarrow>
       case mem_writer of
         None \<Rightarrow> (-1, connection1\<lparr>conn_http_writer := None, conn_http_reader := None\<rparr>)
       | Some writer \<Rightarrow>
       case mem_body of
         None \<Rightarrow> (-1, connection1\<lparr>conn_http_request_body := None, conn_http_writer := None,
                       conn_http_reader := None\<rparr>)
       | Some body \<Rightarrow>
       case mem_response of
         None \<Rightarrow> (-1, connection1\<lparr>conn_http_request_body := Some body, conn_http_response := None,
                       conn_http_writer := None, conn_http_reader := None\<rparr>)
       | Some response \<Rightarrow>
           let body1 = ck_http_request_body_init body in
           (0, \<lparr>conn_connection_id = connection_id, conn_request_id = request_id,
                conn_owner_token = owner_token, conn_lifetime_token = lifetime_token,
                conn_socket_fd = -1,
                conn_http_reader = Some (ck_http_connection_reader_attach_body_queue
                  (ck_http_connection_reader_init reader) (Some body1)),
                conn_http_request_body = Some body1,
                conn_http_writer = Some (ck_http_output_writer_init writer),
                conn_http_response = Some (ck_http_response_init response),
                conn_lifecycle = ck_connection_pack CK_CONNECTION_OPEN (-1) 0\<rparr>))"

definition ck_connection_attach_socket ::
  "bool \<Rightarrow> ck_connection \<Rightarrow> int \<Rightarrow> int \<times> ck_connection" where
  "ck_connection_attach_socket null_arg connection socket_fd =
    (if null_arg \<or> socket_fd < 0 then (-1, connection)
     else if ck_connection_state (Some connection) \<noteq> CK_CONNECTION_OPEN then (1, connection)
     else if conn_socket_fd connection \<ge> 0 then (1, connection)
     else
       case conn_http_writer connection of
         None \<Rightarrow> (-1, connection\<lparr>conn_socket_fd := -1\<rparr>)
       | Some writer \<Rightarrow>
           (case ck_http_output_writer_attach_socket False writer socket_fd of
              (result, writer1) \<Rightarrow>
                if result \<noteq> 0
                then (-1, connection\<lparr>conn_socket_fd := -1, conn_http_writer := Some writer1\<rparr>)
                else (0, connection\<lparr>conn_socket_fd := socket_fd, conn_http_writer := Some writer1\<rparr>)))"

definition ck_connection_socket_fd :: "ck_connection option \<Rightarrow> int" where
  "ck_connection_socket_fd connection =
    (case connection of None \<Rightarrow> -1 | Some c \<Rightarrow> conn_socket_fd c)"

definition ck_connection_http_reader ::
  "ck_connection option \<Rightarrow> ck_http_connection_reader option" where
  "ck_connection_http_reader connection =
    (case connection of
       None \<Rightarrow> None
     | Some c \<Rightarrow> if ck_connection_state (Some c) = CK_CONNECTION_CLOSED then None
                 else conn_http_reader c)"

definition ck_connection_http_request_body ::
  "ck_connection option \<Rightarrow> ck_http_request_body option" where
  "ck_connection_http_request_body connection =
    (case connection of
       None \<Rightarrow> None
     | Some c \<Rightarrow> if ck_connection_state (Some c) = CK_CONNECTION_CLOSED then None
                 else conn_http_request_body c)"

definition ck_connection_http_writer ::
  "ck_connection option \<Rightarrow> ck_http_output_writer option" where
  "ck_connection_http_writer connection =
    (case connection of
       None \<Rightarrow> None
     | Some c \<Rightarrow> if ck_connection_state (Some c) = CK_CONNECTION_CLOSED then None
                 else conn_http_writer c)"

definition ck_connection_http_response ::
  "ck_connection option \<Rightarrow> ck_http_response option" where
  "ck_connection_http_response connection =
    (case connection of
       None \<Rightarrow> None
     | Some c \<Rightarrow> if ck_connection_state (Some c) = CK_CONNECTION_CLOSED then None
                 else conn_http_response c)"

definition ck_connection_http_recycle ::
  "bool \<Rightarrow> ck_connection \<Rightarrow> int \<times> ck_connection" where
  "ck_connection_http_recycle null_arg connection =
    (case (conn_http_reader connection, conn_http_writer connection, conn_http_response connection) of
       (Some reader, Some writer, Some response) \<Rightarrow>
         if null_arg then (-1, connection)
         else if ck_connection_state (Some connection) \<noteq> CK_CONNECTION_OPEN then (1, connection)
         else
           (case ck_http_connection_reader_request (Some reader) of
              None \<Rightarrow> (2, connection)
            | Some request \<Rightarrow>
                if \<not> ck_http_input_complete (Some (reader_input reader)) then (2, connection)
                else if request_connection_close_required request
                  \<or> ck_http_response_get_state (Some response) \<noteq> CK_HTTP_RESPONSE_FINISHED
                  \<or> ck_http_output_writer_buffered_bytes (Some writer) \<noteq> 0
                  \<or> \<not> ck_http_request_body_is_finished (conn_http_request_body connection)
                  \<or> response_connection_close response \<noteq> 0
                then (3, connection)
                else
                  (case ck_http_connection_reader_next_request reader of
                     None \<Rightarrow> (-1, connection)
                   | Some reader1 \<Rightarrow>
                       (0, connection\<lparr>conn_http_reader := Some reader1,
                             conn_http_request_body := reader_body_queue reader1,
                             conn_http_response := Some (ck_http_response_init response)\<rparr>)))
     | _ \<Rightarrow> (-1, connection))"

definition ck_connection_start_async_cycle ::
  "bool \<Rightarrow> ck_connection \<Rightarrow> u64 \<Rightarrow> int \<times> ck_connection" where
  "ck_connection_start_async_cycle null_arg connection cycle_id =
    (if null_arg \<or> \<not> ck_connection_valid_cycle_id cycle_id then (-1, connection)
     else
       let expected = ck_connection_pack CK_CONNECTION_OPEN (-1) 0;
           desired = ck_connection_pack CK_CONNECTION_ASYNC_WAIT (-1) cycle_id in
       if conn_lifecycle connection = expected
       then (0, connection\<lparr>conn_lifecycle := desired\<rparr>) else (1, connection))"

definition ck_connection_start_async :: "bool \<Rightarrow> ck_connection \<Rightarrow> int \<times> ck_connection" where
  "ck_connection_start_async null_arg connection =
     ck_connection_start_async_cycle null_arg connection 1"

definition ck_connection_try_terminal ::
  "bool \<Rightarrow> ck_connection \<Rightarrow> int \<Rightarrow> int \<times> ck_connection" where
  "ck_connection_try_terminal null_arg connection event =
    (if null_arg \<or> \<not> ck_connection_valid_event event then (-1, connection)
     else
       case try_terminal_decide event (conn_lifecycle connection) of
         Inl r \<Rightarrow> (r, connection)
       | Inr desired \<Rightarrow>
           (CK_CONNECTION_TERMINAL_CLAIMED, connection\<lparr>conn_lifecycle := desired\<rparr>))"

definition free_http_objects :: "ck_connection \<Rightarrow> ck_connection" where
  "free_http_objects connection =
     connection\<lparr>conn_http_reader := None, conn_http_writer := None,
       conn_http_request_body := None, conn_http_response := None\<rparr>"

text \<open>\<open>close_result\<close> is what \<open>ck_socket_close\<close> returns if it is called; the third component is
  the descriptor it is called on.\<close>

definition ck_connection_close ::
  "bool \<Rightarrow> int \<Rightarrow> ck_connection \<Rightarrow> int \<times> ck_connection \<times> int option" where
  "ck_connection_close null_arg close_result connection =
    (if null_arg then (-1, connection, None)
     else
       case close_decide (conn_lifecycle connection) of
         Inl r \<Rightarrow> (r, connection, None)
       | Inr desired \<Rightarrow>
           let socket_fd = conn_socket_fd connection;
               connection1 = connection\<lparr>conn_lifecycle := desired, conn_socket_fd := -1\<rparr> in
           if socket_fd \<ge> 0 then
             if close_result \<noteq> 0 \<and> close_result \<noteq> EINTR_code
             then (-1, free_http_objects connection1, Some socket_fd)
             else (if close_result = 0 then 0 else 2, free_http_objects connection1, Some socket_fd)
           else (0, free_http_objects connection1, None))"

definition ck_connection_validate ::
  "bool \<Rightarrow> ck_connection \<Rightarrow> u64 \<Rightarrow> u64 \<Rightarrow> u64 \<Rightarrow> int" where
  "ck_connection_validate null_arg connection request_id owner_token lifetime_token =
    (if null_arg \<or> request_id = 0 then -1
     else if conn_request_id connection = request_id \<and> conn_owner_token connection = owner_token
             \<and> conn_lifetime_token connection = lifetime_token then 0 else 1)"

definition ck_connection_validate_cycle ::
  "bool \<Rightarrow> ck_connection \<Rightarrow> u64 \<Rightarrow> u64 \<Rightarrow> u64 \<Rightarrow> u64 \<Rightarrow> int" where
  "ck_connection_validate_cycle null_arg connection request_id owner_token lifetime_token cycle_id =
    (if null_arg \<or> request_id = 0 \<or> \<not> ck_connection_valid_cycle_id cycle_id then -1
     else if conn_request_id connection \<noteq> request_id \<or> conn_owner_token connection \<noteq> owner_token
             \<or> conn_lifetime_token connection \<noteq> lifetime_token then 1
     else if ck_connection_unpack_cycle (conn_lifecycle connection) = cycle_id then 0 else 1)"

section \<open>Invariant\<close>

text \<open>The abstract life cycle that the word of a connection encodes.\<close>

definition conn_life :: "ck_connection \<Rightarrow> life" where
  "conn_life c =
    (let w = conn_lifecycle c; s = ck_connection_unpack_state w in
     if s = CK_CONNECTION_OPEN then Life_open
     else if s = CK_CONNECTION_ASYNC_WAIT then Life_async (ck_connection_unpack_cycle w)
     else if s = CK_CONNECTION_CLOSING
     then Life_closing (ck_connection_unpack_event w) (ck_connection_unpack_cycle w)
     else Life_closed (ck_connection_unpack_event w) (ck_connection_unpack_cycle w))"

lemma conn_life_code: "life_ok l \<Longrightarrow> conn_lifecycle c = life_code l \<Longrightarrow> conn_life c = l"
  by (cases l) (simp_all add: conn_life_def Let_def connection_consts del: life_code.simps)

text \<open>
  Until it is closed a connection has all four objects, the reader feeds the FIFO the connection
  owns, and the writer sends to the connection's socket; a closed one has given up everything.
\<close>

definition conn_wf :: "ck_connection \<Rightarrow> bool" where
  "conn_wf c \<longleftrightarrow>
     life_ok (conn_life c) \<and> conn_lifecycle c = life_code (conn_life c)
   \<and> (if life_state (conn_life c) = CK_CONNECTION_CLOSED
      then c = free_http_objects c \<and> conn_socket_fd c = -1
      else \<exists>reader body writer response.
          conn_http_reader c = Some reader \<and> conn_http_request_body c = Some body
        \<and> conn_http_writer c = Some writer \<and> conn_http_response c = Some response
        \<and> reader_body_queue reader = Some body
        \<and> writer_socket_fd writer = conn_socket_fd c \<and> conn_socket_fd c \<ge> -1)"

lemma conn_life_update [simp]:
  "life_ok l \<Longrightarrow> conn_life (c\<lparr>conn_lifecycle := life_code l\<rparr>) = l"
  by (rule conn_life_code) simp_all

lemma conn_life_cong: "conn_lifecycle c = conn_lifecycle c' \<Longrightarrow> conn_life c = conn_life c'"
  by (simp add: conn_life_def)

lemma free_http_objects_sel:
  "conn_http_reader (free_http_objects c) = None" "conn_http_writer (free_http_objects c) = None"
  "conn_http_request_body (free_http_objects c) = None" "conn_http_response (free_http_objects c) = None"
  by (simp_all add: free_http_objects_def)

lemma conn_state_life: "conn_wf c \<Longrightarrow> ck_connection_state (Some c) = life_state (conn_life c)"
  unfolding conn_wf_def ck_connection_state_def by (metis option.case(2) unpack_life_code(1))

lemma conn_init_wf:
  assumes "ck_connection_init n mr mw mb mp c0 cid rid ot lt = (0, c)"
  shows "conn_wf c" and "conn_life c = Life_open" and "conn_socket_fd c = -1"
proof -
  have w: "conn_lifecycle c = life_code Life_open"
    using assms by (auto simp: ck_connection_init_def Let_def split: if_splits option.splits)
  show l: "conn_life c = Life_open" by (rule conn_life_code [OF _ w]) simp
  show "conn_socket_fd c = -1"
    using assms by (auto simp: ck_connection_init_def Let_def split: if_splits option.splits)
  show "conn_wf c"
    unfolding conn_wf_def l
    using assms w by (auto simp: ck_connection_init_def Let_def connection_consts
        ck_http_connection_reader_attach_body_queue_def ck_http_output_writer_init_def
        split: if_splits option.splits)
qed

section \<open>Calls on a connection\<close>

datatype conn_op =
    Attach int | Start_cycle u64 | Terminal int | Close_call int | Recycle

text \<open>Result, connection, and the descriptor handed to \<open>ck_socket_close\<close>, if any.\<close>

fun conn_apply :: "conn_op \<Rightarrow> ck_connection \<Rightarrow> int \<times> ck_connection \<times> int option" where
  "conn_apply (Attach fd) c = (case ck_connection_attach_socket False c fd of (r, c') \<Rightarrow> (r, c', None))"
| "conn_apply (Start_cycle n) c = (case ck_connection_start_async_cycle False c n of (r, c') \<Rightarrow> (r, c', None))"
| "conn_apply (Terminal e) c = (case ck_connection_try_terminal False c e of (r, c') \<Rightarrow> (r, c', None))"
| "conn_apply (Close_call res) c = ck_connection_close False res c"
| "conn_apply Recycle c = (case ck_connection_http_recycle False c of (r, c') \<Rightarrow> (r, c', None))"

lemma attach_cases:
  assumes "conn_wf c" and "ck_connection_attach_socket False c fd = (r, c')"
  shows "r \<noteq> 0 \<and> c' = c
    \<or> r = 0 \<and> fd \<ge> 0 \<and> conn_socket_fd c = -1 \<and> life_state (conn_life c) = CK_CONNECTION_OPEN
      \<and> (\<exists>w. conn_http_writer c = Some w
            \<and> c' = c\<lparr>conn_socket_fd := fd, conn_http_writer := Some (w\<lparr>writer_socket_fd := fd\<rparr>)\<rparr>)"
proof (cases "fd < 0 \<or> ck_connection_state (Some c) \<noteq> CK_CONNECTION_OPEN \<or> conn_socket_fd c \<ge> 0")
  case True
  with assms(2) show ?thesis by (auto simp: ck_connection_attach_socket_def split: if_splits)
next
  case False
  then have "life_state (conn_life c) = CK_CONNECTION_OPEN" using conn_state_life [OF assms(1)] by simp
  moreover from this assms(1) obtain w where "conn_http_writer c = Some w"
      "writer_socket_fd w = conn_socket_fd c" "conn_socket_fd c \<ge> -1"
    by (auto simp: conn_wf_def connection_consts)
  ultimately show ?thesis
    using False assms(2)
    by (auto simp: ck_connection_attach_socket_def ck_http_output_writer_attach_socket_def)
qed

lemma attach_wf:
  assumes "conn_wf c" and "ck_connection_attach_socket False c fd = (r, c')"
  shows "conn_wf c'" and "conn_life c' = conn_life c"
proof -
  have "conn_wf c' \<and> conn_life c' = conn_life c"
    using attach_cases [OF assms]
  proof (elim disjE conjE exE)
    fix w assume a: "fd \<ge> 0" "life_state (conn_life c) = CK_CONNECTION_OPEN"
      and c': "c' = c\<lparr>conn_socket_fd := fd, conn_http_writer := Some (w\<lparr>writer_socket_fd := fd\<rparr>)\<rparr>"
    have "conn_life c' = conn_life c" by (rule conn_life_cong) (simp add: c')
    with assms(1) a c' show ?thesis by (auto simp: conn_wf_def connection_consts)
  qed (use assms(1) in simp)
  then show "conn_wf c'" and "conn_life c' = conn_life c" by simp_all
qed

lemma conn_wf_life_update:
  assumes "conn_wf c" and "life_ok l" and "life_state (conn_life c) \<noteq> CK_CONNECTION_CLOSED"
    and "life_state l \<noteq> CK_CONNECTION_CLOSED"
  shows "conn_wf (c\<lparr>conn_lifecycle := life_code l\<rparr>)"
  using assms by (simp add: conn_wf_def)

lemma start_cycle_refines:
  assumes "conn_wf c" and "ck_connection_start_async_cycle False c n = (r, c')"
  shows "conn_wf c' \<and> (if r = 0 then life_next (Start_async n) (conn_life c) (conn_life c') else c' = c)
    \<and> conn_socket_fd c' = conn_socket_fd c"
proof (cases "ck_connection_valid_cycle_id n \<and> conn_lifecycle c = life_code Life_open")
  case True
  then have l: "conn_life c = Life_open" by (intro conn_life_code) simp_all
  have c': "r = 0" "c' = c\<lparr>conn_lifecycle := life_code (Life_async n)\<rparr>"
    using assms(2) True by (auto simp: ck_connection_start_async_cycle_def Let_def)
  have "conn_wf c'" unfolding c'(2)
    using assms(1) True l by (intro conn_wf_life_update) (simp_all add: connection_consts)
  moreover have "conn_life c' = Life_async n" unfolding c'(2) by (rule conn_life_update) (use True in simp)
  ultimately show ?thesis using c' l True by (simp add: next_async)
next
  case False
  with assms show ?thesis
    by (auto simp: ck_connection_start_async_cycle_def Let_def split: if_splits)
qed

lemma try_terminal_refines:
  assumes "conn_wf c" and "ck_connection_try_terminal False c e = (r, c')"
  shows "conn_wf c'
    \<and> (if r = CK_CONNECTION_TERMINAL_CLAIMED then life_next (Try_terminal e) (conn_life c) (conn_life c')
       else c' = c)
    \<and> conn_socket_fd c' = conn_socket_fd c"
proof -
  have ok: "life_ok (conn_life c)" and code: "conn_lifecycle c = life_code (conn_life c)"
    using assms(1) by (simp_all add: conn_wf_def)
  show ?thesis
  proof (cases "ck_connection_valid_event e \<and> life_event (conn_life c) = None")
    case True
    let ?l = "Life_closing e (life_cycle (conn_life c))"
    have c': "r = CK_CONNECTION_TERMINAL_CLAIMED" "c' = c\<lparr>conn_lifecycle := life_code ?l\<rparr>"
      using assms(2) True try_terminal_decide_life [OF ok, of e, folded code]
      by (auto simp: ck_connection_try_terminal_def simp del: life_code.simps)
    have "life_next (Try_terminal e) (conn_life c) ?l" using True by (intro next_closing) simp_all
    moreover have "life_ok ?l" using calculation ok by (rule life_next_ok)
    moreover from True have "life_state (conn_life c) \<noteq> CK_CONNECTION_CLOSED"
      by (cases "conn_life c") (simp_all add: connection_consts)
    moreover have "conn_wf c'" unfolding c'(2)
      using assms(1) calculation by (intro conn_wf_life_update) (simp_all add: connection_consts)
    ultimately show ?thesis using c' by (simp del: life_code.simps)
  next
    case False
    then have "r \<noteq> CK_CONNECTION_TERMINAL_CLAIMED \<and> c' = c"
      using assms(2) try_terminal_decide_life [OF ok, of e, folded code]
      by (auto simp: ck_connection_try_terminal_def connection_consts split: if_splits)
    with assms(1) show ?thesis by simp
  qed
qed

lemma close_refines:
  assumes "conn_wf c" and "ck_connection_close False res c = (r, c', fd)"
  shows "conn_wf c'
    \<and> (case conn_life c of
         Life_closing e n \<Rightarrow>
           life_next Close (conn_life c) (conn_life c') \<and> r \<noteq> 1
           \<and> fd = (if conn_socket_fd c \<ge> 0 then Some (conn_socket_fd c) else None)
           \<and> conn_socket_fd c' = -1
       | _ \<Rightarrow> r = 1 \<and> c' = c \<and> fd = None)"
proof -
  have ok: "life_ok (conn_life c)" and code: "conn_lifecycle c = life_code (conn_life c)"
    using assms(1) by (simp_all add: conn_wf_def)
  note decide = close_decide_life [OF ok, folded code]
  show ?thesis
  proof (cases "conn_life c")
    case (Life_closing e n)
    let ?l = "Life_closed e n"
    have ok': "life_ok ?l" using ok Life_closing by simp
    have c': "c' = free_http_objects (c\<lparr>conn_lifecycle := life_code ?l, conn_socket_fd := -1\<rparr>)"
      and r: "r \<noteq> 1" "fd = (if conn_socket_fd c \<ge> 0 then Some (conn_socket_fd c) else None)"
      using assms(2) decide Life_closing
      by (auto simp: ck_connection_close_def Let_def simp del: life_code.simps split: if_splits)
    have "conn_life c' = ?l" using ok' by (intro conn_life_code) (simp_all add: c' free_http_objects_def)
    moreover from this ok' have "conn_wf c'"
      by (simp add: conn_wf_def c' free_http_objects_def connection_consts)
    moreover have "conn_socket_fd c' = -1" by (simp add: c' free_http_objects_def)
    ultimately show ?thesis using r Life_closing by (simp add: next_closed)
  qed (use assms decide in \<open>auto simp: ck_connection_close_def\<close>)
qed

lemma recycle_unfold:
  assumes "conn_wf c" and "ck_connection_http_recycle False c = (r, c')"
  shows "r \<noteq> 0 \<and> c' = c
    \<or> r = 0 \<and> life_state (conn_life c) = CK_CONNECTION_OPEN
      \<and> (\<exists>reader body writer response req reader'.
            conn_http_reader c = Some reader \<and> conn_http_request_body c = Some body
          \<and> conn_http_writer c = Some writer \<and> conn_http_response c = Some response
          \<and> ck_http_connection_reader_request (Some reader) = Some req
          \<and> ck_http_input_complete (Some (reader_input reader))
          \<and> \<not> request_connection_close_required req
          \<and> response_state response = CK_HTTP_RESPONSE_FINISHED
          \<and> response_connection_close response = 0
          \<and> ck_http_output_writer_buffered_bytes (Some writer) = 0
          \<and> ck_http_request_body_is_finished (Some body)
          \<and> ck_http_connection_reader_next_request reader = Some reader'
          \<and> c' = c\<lparr>conn_http_reader := Some reader', conn_http_request_body := reader_body_queue reader',
                   conn_http_response := Some (ck_http_response_init response)\<rparr>)"
proof (cases "life_state (conn_life c) = CK_CONNECTION_OPEN")
  case True
  with assms(1) obtain reader body writer response where
      "conn_http_reader c = Some reader" "conn_http_request_body c = Some body"
      "conn_http_writer c = Some writer" "conn_http_response c = Some response"
    by (auto simp: conn_wf_def connection_consts)
  with True assms(2) conn_state_life [OF assms(1)] show ?thesis
    by (auto simp: ck_connection_http_recycle_def ck_http_response_get_state_def
        split: option.splits if_splits)
next
  case False
  with assms(2) conn_state_life [OF assms(1)] show ?thesis
    by (auto simp: ck_connection_http_recycle_def split: option.splits prod.splits if_splits)
qed

lemma recycle_wf:
  assumes "conn_wf c" and "ck_connection_http_recycle False c = (r, c')"
  shows "conn_wf c' \<and> conn_life c' = conn_life c \<and> conn_socket_fd c' = conn_socket_fd c"
  using recycle_unfold [OF assms]
proof (elim disjE conjE exE)
  fix reader body writer response req reader'
  assume a: "life_state (conn_life c) = CK_CONNECTION_OPEN" "conn_http_reader c = Some reader"
    "conn_http_request_body c = Some body"
    "ck_http_connection_reader_next_request reader = Some reader'"
    and c': "c' = c\<lparr>conn_http_reader := Some reader', conn_http_request_body := reader_body_queue reader',
        conn_http_response := Some (ck_http_response_init response)\<rparr>"
  have l: "conn_life c' = conn_life c" by (rule conn_life_cong) (simp add: c')
  have "reader_body_queue reader = Some body"
    using assms(1) a(1-3) by (auto simp: conn_wf_def connection_consts)
  then have "reader_body_queue reader' = Some (ck_http_request_body_init body)"
    using a(4) by (auto simp: ck_http_connection_reader_next_request_def split: if_splits)
  with assms(1) a(1) l show ?thesis by (auto simp: conn_wf_def c' connection_consts)
qed (use assms(1) in simp)

lemma conn_apply_wf:
  assumes "conn_wf c" and "conn_apply op c = (r, c', fd)"
  shows "conn_wf c' \<and> (conn_life c' = conn_life c \<or> (\<exists>lop. life_next lop (conn_life c) (conn_life c')))"
proof (cases op)
  case (Attach f)
  with assms attach_wf [OF assms(1), of f] show ?thesis by (auto split: prod.splits)
next
  case (Start_cycle n)
  with assms start_cycle_refines [OF assms(1), of n] show ?thesis by (auto split: prod.splits if_splits)
next
  case (Terminal e)
  with assms try_terminal_refines [OF assms(1), of e] show ?thesis by (auto split: prod.splits if_splits)
next
  case (Close_call res)
  with assms close_refines [OF assms(1), of res] show ?thesis by (auto split: life.splits)
next
  case Recycle
  with assms recycle_wf [OF assms(1)] show ?thesis by (auto split: prod.splits)
qed

fun attached_by :: "conn_op \<Rightarrow> int \<Rightarrow> int list" where
  "attached_by (Attach fd) r = (if r = 0 then [fd] else [])"
| "attached_by _ _ = []"

text \<open>A sequence of calls: the descriptors attached, those closed, and the connection at the end.\<close>

fun conn_run :: "conn_op list \<Rightarrow> ck_connection \<Rightarrow> int list \<times> int list \<times> ck_connection" where
  "conn_run [] c = ([], [], c)"
| "conn_run (op # ops) c =
    (case conn_apply op c of (r, c1, fd) \<Rightarrow>
     case conn_run ops c1 of (attached, closed, c2) \<Rightarrow>
       (attached_by op r @ attached, (case fd of None \<Rightarrow> [] | Some f \<Rightarrow> [f]) @ closed, c2))"

definition owned_fd :: "ck_connection \<Rightarrow> int list" where
  "owned_fd c = (if conn_socket_fd c \<ge> 0 then [conn_socket_fd c] else [])"

abbreviation conn_closed :: "ck_connection \<Rightarrow> bool" where
  "conn_closed c \<equiv> life_state (conn_life c) = CK_CONNECTION_CLOSED"

lemma conn_apply_fd:
  assumes "conn_wf c" and "conn_apply op c = (r, c', fd)"
  shows "owned_fd c @ attached_by op r = (case fd of None \<Rightarrow> [] | Some f \<Rightarrow> [f]) @ owned_fd c'
    \<and> length (owned_fd c @ attached_by op r) \<le> 1
    \<and> (conn_closed c \<longrightarrow> attached_by op r = [] \<and> conn_closed c')
    \<and> (fd \<noteq> None \<longrightarrow> conn_closed c')"
proof (cases op)
  case (Attach f)
  with assms attach_cases [OF assms(1), of f] attach_wf [OF assms(1), of f] show ?thesis
    by (auto simp: owned_fd_def connection_consts split: prod.splits)
next
  case (Start_cycle n)
  with assms start_cycle_refines [OF assms(1), of n] show ?thesis
    by (auto simp: owned_fd_def connection_consts split: prod.splits if_splits elim: life_next.cases)
next
  case (Terminal e)
  with assms try_terminal_refines [OF assms(1), of e] show ?thesis
    by (cases "conn_life c") (auto simp: owned_fd_def connection_consts split: prod.splits if_splits elim: life_next.cases)
next
  case (Close_call res)
  with assms close_refines [OF assms(1), of res] show ?thesis
    by (auto simp: owned_fd_def connection_consts split: life.splits elim!: life_next.cases)
next
  case Recycle
  with assms recycle_wf [OF assms(1)] show ?thesis by (auto simp: owned_fd_def split: prod.splits)
qed

lemma conn_run_fd:
  assumes "conn_wf c" and "conn_run ops c = (attached, closed, c')"
  shows "conn_wf c' \<and> owned_fd c @ attached = closed @ owned_fd c'
    \<and> length (owned_fd c @ attached) \<le> 1 \<and> (conn_closed c \<longrightarrow> attached = [] \<and> conn_closed c')"
  using assms
proof (induction ops arbitrary: c attached closed)
  case Nil
  then show ?case by (simp add: owned_fd_def)
next
  case (Cons op ops)
  obtain r c1 fd where a: "conn_apply op c = (r, c1, fd)" by (cases "conn_apply op c") auto
  obtain attached1 closed1 where run: "conn_run ops c1 = (attached1, closed1, c')"
    and out: "attached = attached_by op r @ attached1"
      "closed = (case fd of None \<Rightarrow> [] | Some f \<Rightarrow> [f]) @ closed1"
    using Cons.prems(2) a by (auto split: prod.splits)
  have "conn_wf c1" using conn_apply_wf [OF Cons.prems(1) a] by simp
  note ih = Cons.IH [OF this run] and step = conn_apply_fd [OF Cons.prems(1) a]
  have "owned_fd c @ attached = closed @ owned_fd c'"
    using ih step out by (metis append.assoc)
  moreover have "length (owned_fd c @ attached) \<le> 1"
    using ih step out by (cases fd) (auto simp: owned_fd_def split: if_splits)
  ultimately show ?case using ih step out by auto
qed

section \<open>Properties\<close>

text \<open>
  C16. Descriptor ownership: after any sequence of calls on an initialised connection, whatever
  \<open>ck_socket_close\<close> returns, the sockets that were attached are exactly those that were closed
  plus the one the connection still holds; there is at most one; and in state CLOSED nothing is
  held: the descriptor has been closed exactly once and all four objects are released.
\<close>

theorem connection_descriptor_once:
  assumes "ck_connection_init n mr mw mb mp c0 cid rid ot lt = (0, c)"
    and "conn_run ops c = (attached, closed, c')"
  shows "attached = closed @ (if conn_socket_fd c' \<ge> 0 then [conn_socket_fd c'] else [])
    \<and> length attached \<le> 1
    \<and> (ck_connection_state (Some c') = CK_CONNECTION_CLOSED \<longrightarrow>
         closed = attached \<and> conn_http_reader c' = None \<and> conn_http_writer c' = None
         \<and> conn_http_request_body c' = None \<and> conn_http_response c' = None)"
proof -
  have "conn_wf c" and own: "owned_fd c = []"
    using conn_init_wf [OF assms(1)] by (simp_all add: owned_fd_def)
  from conn_run_fd [OF this(1) assms(2)] own
  have run: "conn_wf c'" "attached = closed @ owned_fd c'" "length attached \<le> 1" by auto
  have "closed = attached \<and> conn_http_reader c' = None \<and> conn_http_writer c' = None
      \<and> conn_http_request_body c' = None \<and> conn_http_response c' = None"
    if "ck_connection_state (Some c') = CK_CONNECTION_CLOSED"
  proof -
    have "c' = free_http_objects c'" and "conn_socket_fd c' = -1"
      using that run(1) conn_state_life [OF run(1)] by (simp_all add: conn_wf_def)
    then show ?thesis using run(2) free_http_objects_sel [of c'] by (simp add: owned_fd_def)
  qed
  with run show ?thesis by (simp add: owned_fd_def)
qed

text \<open>A small connection for the witnesses: all blocks are available, identity 1 and tokens 7.\<close>

definition sample_body :: ck_http_request_body where
  "sample_body = \<lparr>body_head = 0, body_tail = 0, body_eof = False, body_error = False, body_buffer = []\<rparr>"

definition sample_writer :: ck_http_output_writer where
  "sample_writer = \<lparr>writer_socket_fd = 0, writer_buffer = [], writer_begin = 0\<rparr>"

definition sample_response :: ck_http_response where
  "sample_response = ck_http_response_init undefined"

definition sample_connection :: ck_connection where
  "sample_connection = snd (ck_connection_init False (Some sample_reader) (Some sample_writer)
     (Some sample_body) (Some sample_response) zero_connection 1 1 7 7)"

lemma sample_init:
  "ck_connection_init False (Some sample_reader) (Some sample_writer)
     (Some sample_body) (Some sample_response) zero_connection 1 1 7 7 = (0, sample_connection)"
  by (simp add: sample_connection_def ck_connection_init_def Let_def)

theorem connection_descriptor_once_witness:
  "case conn_run [Attach 5, Attach 6, Terminal 1, Close_call 4, Close_call 0] sample_connection of
     (attached, closed, c') \<Rightarrow> length attached \<le> 1
       \<and> attached = closed @ (if conn_socket_fd c' \<ge> 0 then [conn_socket_fd c'] else [])"
proof -
  obtain attached closed c' where run:
      "conn_run [Attach 5, Attach 6, Terminal 1, Close_call 4, Close_call 0] sample_connection
        = (attached, closed, c')"
    by (rule prod_cases3)
  show ?thesis using connection_descriptor_once [OF sample_init run] unfolding run by (simp only: prod.case) blast
qed

text \<open>
  C17. Refinement: every call keeps the connection's invariant (the objects exist exactly until it
  is closed, the reader feeds the FIFO the connection owns, the writer sends to its socket, the
  word encodes a valid life cycle) and either leaves the life cycle as it is or takes one step
  of the abstract one: open to async, open or async to closing, closing to closed.
\<close>

theorem connection_ops_refine:
  assumes "conn_wf c" and "conn_apply op c = (r, c', fd)"
  shows "conn_wf c' \<and> (conn_life c' = conn_life c \<or>
    (conn_life c = Life_open \<and> (\<exists>n. conn_life c' = Life_async n))
    \<or> (life_event (conn_life c) = None
         \<and> (\<exists>e. op = Terminal e \<and> conn_life c' = Life_closing e (life_cycle (conn_life c))))
    \<or> (\<exists>e n. conn_life c = Life_closing e n \<and> conn_life c' = Life_closed e n))"
proof (cases op)
  case (Terminal e)
  with assms try_terminal_refines [OF assms(1), of e] show ?thesis
    by (auto split: prod.splits if_splits elim!: life_next.cases)
next
  case (Attach f)
  with assms attach_wf [OF assms(1), of f] show ?thesis by (auto split: prod.splits)
next
  case (Start_cycle n)
  with assms start_cycle_refines [OF assms(1), of n] show ?thesis
    by (auto split: prod.splits if_splits elim!: life_next.cases)
next
  case (Close_call res)
  with assms close_refines [OF assms(1), of res] show ?thesis
    by (auto split: life.splits elim!: life_next.cases)
next
  case Recycle
  with assms recycle_wf [OF assms(1)] show ?thesis by (auto split: prod.splits)
qed

theorem connection_ops_refine_witness:
  "conn_wf (fst (snd (conn_apply (Terminal 2) sample_connection)))"
  using connection_ops_refine [OF conn_init_wf(1) [OF sample_init], of "Terminal 2"]
  by (cases "conn_apply (Terminal 2) sample_connection") auto


text \<open>A connection on which a request has been answered, with two bytes of the next one read.\<close>

definition served_body :: ck_http_request_body where
  "served_body = sample_body\<lparr>body_eof := True\<rparr>"

definition served_reader :: ck_http_connection_reader where
  "served_reader = \<lparr>reader_input = zero_input\<lparr>input_header_complete := True, input_message_complete := True\<rparr>,
     reader_body_queue = Some served_body, reader_buffer = [1, 2, 3], reader_begin = 1\<rparr>"

definition served_connection :: ck_connection where
  "served_connection = zero_connection\<lparr>conn_socket_fd := 5, conn_http_reader := Some served_reader,
     conn_http_request_body := Some served_body, conn_http_writer := Some (sample_writer\<lparr>writer_socket_fd := 5\<rparr>),
     conn_http_response := Some (sample_response\<lparr>response_state := CK_HTTP_RESPONSE_FINISHED\<rparr>),
     conn_lifecycle := life_code Life_open\<rparr>"

lemma served_life: "conn_life served_connection = Life_open"
  by (rule conn_life_code) (simp_all add: served_connection_def)

lemma served_wf: "conn_wf served_connection"
proof -
  from served_life show ?thesis
    by (simp add: conn_wf_def served_connection_def connection_consts served_reader_def sample_writer_def)
qed


text \<open>
  When the last of the four allocations of \<open>ck_connection_init\<close> fails, the block of the
  request-body FIFO is neither released nor forgotten: the call fails and the pointer still
  holds it, while reader and writer are released.  When an earlier one fails, nothing is held.
\<close>

theorem connection_init_leaks_body:
  assumes "cid \<noteq> 0" and "rid \<noteq> 0"
  shows "fst (ck_connection_init False (Some reader) (Some writer) (Some body) None c0 cid rid ot lt) = -1
    \<and> conn_http_request_body (snd (ck_connection_init False (Some reader) (Some writer) (Some body) None
        c0 cid rid ot lt)) = Some body
    \<and> conn_http_reader (snd (ck_connection_init False (Some reader) (Some writer) (Some body) None
        c0 cid rid ot lt)) = None
    \<and> (mr = None \<or> mw = None \<or> mb = None \<longrightarrow>
        fst (ck_connection_init False mr mw mb mp c0 cid rid ot lt) = -1
        \<and> conn_http_request_body (snd (ck_connection_init False mr mw mb mp c0 cid rid ot lt)) = None
        \<and> conn_http_reader (snd (ck_connection_init False mr mw mb mp c0 cid rid ot lt)) = None)"
  using assms by (auto simp: ck_connection_init_def Let_def split: option.splits)

theorem connection_init_leaks_body_witness:
  "conn_http_request_body (snd (ck_connection_init False (Some sample_reader) (Some sample_writer)
     (Some sample_body) None zero_connection 1 1 7 7)) = Some sample_body"
  using connection_init_leaks_body [of 1 1 sample_reader sample_writer sample_body zero_connection 7 7
    None None None None] by simp

end
