(* ===== verification/Ck_Registry.thy ===== *)
theory Ck_Registry
  imports Ck_Connection
begin

text \<open>
  The connection registry, \<open>c/connection/ck_connection_registry.[ch]\<close>: 256 slots with a
  generation number each, handles that name a slot and a generation, and pins that keep a
  connection's reader or writer alive while it is in use.

  Every operation runs under the registry's mutex, so an execution of any number of threads is a
  sequence of operations; the results of \<open>pthread_mutex_lock\<close> and \<open>pthread_mutex_unlock\<close> are the
  argument \<open>m\<close>.  A pin holds addresses: that of the slot's connection is the slot index, and that
  of a reader or writer block is the slot and the generation for which it was allocated (a slot
  gets its blocks when it is registered and only loses them, when it is closed).
\<close>

section \<open>Data\<close>

definition CK_CONNECTION_REGISTRY_CAPACITY :: nat where "CK_CONNECTION_REGISTRY_CAPACITY = 256"

type_synonym ck_connection_handle = u64

record ck_connection_registry_entry =
  entry_connection :: ck_connection
  entry_generation :: u32
  entry_reader_users :: u32
  entry_output_users :: u32
  entry_active :: bool

record ck_connection_registry =
  registry_entries :: "ck_connection_registry_entry list"
  registry_initialized :: bool

type_synonym block_address = "nat \<times> u32"

record ck_connection_registry_pin =
  pin_connection :: "nat option"
  pin_block :: "block_address option"
  pin_handle :: ck_connection_handle

definition ENOSPC :: int where "ENOSPC = 28"

section \<open>Handles\<close>

definition ck_connection_registry_make_handle :: "nat \<Rightarrow> u32 \<Rightarrow> ck_connection_handle" where
  "ck_connection_registry_make_handle index generation =
     push_bit 32 (ucast generation) OR (of_nat index + 1)"

definition ck_connection_registry_decode_handle :: "ck_connection_handle \<Rightarrow> (nat \<times> u32) option" where
  "ck_connection_registry_decode_handle handle =
    (if handle = 0 then None
     else
       let slot = handle AND 0xffffffff in
       if slot = 0 \<or> slot > of_nat CK_CONNECTION_REGISTRY_CAPACITY then None
       else
         let index = unat (slot - 1); generation = ucast (drop_bit 32 handle) in
         if generation = 0 then None else Some (index, generation))"

definition ck_connection_registry_find ::
  "ck_connection_registry \<Rightarrow> ck_connection_handle \<Rightarrow> nat option" where
  "ck_connection_registry_find registry handle =
    (case ck_connection_registry_decode_handle handle of
       None \<Rightarrow> None
     | Some (index, generation) \<Rightarrow>
         if \<not> entry_active (registry_entries registry ! index)
            \<or> entry_generation (registry_entries registry ! index) \<noteq> generation
         then None else Some index)"

section \<open>Operations\<close>

definition zero_entry :: ck_connection_registry_entry where
  "zero_entry = \<lparr>entry_connection = zero_connection, entry_generation = 0, entry_reader_users = 0,
     entry_output_users = 0, entry_active = False\<rparr>"

definition ck_connection_registry_init ::
  "bool \<Rightarrow> int \<Rightarrow> ck_connection_registry \<Rightarrow> int \<times> ck_connection_registry" where
  "ck_connection_registry_init null_arg mutex_init_result registry =
    (if null_arg then (-1, registry)
     else
       let registry1 = \<lparr>registry_entries = replicate CK_CONNECTION_REGISTRY_CAPACITY zero_entry,
                        registry_initialized = False\<rparr> in
       if mutex_init_result \<noteq> 0 then (-1, registry1)
       else (0, registry1\<lparr>registry_initialized := True\<rparr>))"

definition put_entry ::
  "ck_connection_registry \<Rightarrow> nat \<Rightarrow> ck_connection_registry_entry \<Rightarrow> ck_connection_registry" where
  "put_entry registry index entry =
     registry\<lparr>registry_entries := (registry_entries registry)[index := entry]\<rparr>"

text \<open>The scan of \<open>ck_connection_registry_register\<close> for an inactive slot.\<close>

fun first_inactive :: "ck_connection_registry_entry list \<Rightarrow> nat \<Rightarrow> nat option" where
  "first_inactive [] index = None"
| "first_inactive (entry # entries) index =
    (if entry_active entry then first_inactive entries (Suc index) else Some index)"

text \<open>Result, registry, and the handle if it was stored.\<close>

definition ck_connection_registry_register ::
  "bool \<Rightarrow> mutex_calls \<Rightarrow> ck_http_connection_reader option \<Rightarrow> ck_http_output_writer option
   \<Rightarrow> ck_http_request_body option \<Rightarrow> ck_http_response option
   \<Rightarrow> ck_connection_registry \<Rightarrow> u64 \<Rightarrow> u64 \<Rightarrow> u64 \<Rightarrow> u64
   \<Rightarrow> int \<times> ck_connection_registry \<times> ck_connection_handle option" where
  "ck_connection_registry_register null_arg m mem_reader mem_writer mem_body mem_response
     registry connection_id request_id owner_token lifetime_token =
    (if null_arg \<or> \<not> registry_initialized registry \<or> connection_id = 0 \<or> request_id = 0
     then (-1, registry, None)
     else if lock_result m \<noteq> 0 then (-1, registry, None)
     else
       case first_inactive (registry_entries registry) 0 of
         None \<Rightarrow> (ENOSPC, registry, None)
       | Some index \<Rightarrow>
           let entry = registry_entries registry ! index;
               generation1 = entry_generation entry + 1;
               generation = (if generation1 = 0 then 1 else generation1);
               entry1 = entry\<lparr>entry_generation := generation, entry_reader_users := 0,
                          entry_output_users := 0\<rparr> in
           (case ck_connection_init False mem_reader mem_writer mem_body mem_response
                   (entry_connection entry1) connection_id request_id owner_token lifetime_token of
              (result, connection) \<Rightarrow>
                if result \<noteq> 0
                then (-1, put_entry registry index (entry1\<lparr>entry_connection := connection\<rparr>), None)
                else
                  let registry1 = put_entry registry index
                        (entry1\<lparr>entry_connection := connection, entry_active := True\<rparr>) in
                  (if unlock_result m \<noteq> 0 then -1 else 0, registry1,
                   Some (ck_connection_registry_make_handle index generation))))"

text \<open>
  The frame that the operations on a handle share: initialised, locked, found (-2 if not),
  tokens validated (-3 if not), then the operation itself on the slot.
\<close>

definition with_entry ::
  "bool \<Rightarrow> mutex_calls \<Rightarrow> ck_connection_registry \<Rightarrow> ck_connection_handle \<Rightarrow> (ck_connection \<Rightarrow> int)
   \<Rightarrow> (nat \<Rightarrow> ck_connection_registry_entry \<Rightarrow> int \<times> ck_connection_registry \<times> 'a option)
   \<Rightarrow> int \<times> ck_connection_registry \<times> 'a option" where
  "with_entry null_arg m registry handle validate operation =
    (if null_arg \<or> \<not> registry_initialized registry then (-1, registry, None)
     else if lock_result m \<noteq> 0 then (-1, registry, None)
     else
       case ck_connection_registry_find registry handle of
         None \<Rightarrow> (-2, registry, None)
       | Some index \<Rightarrow>
           if validate (entry_connection (registry_entries registry ! index)) \<noteq> 0
           then (-3, registry, None)
           else operation index (registry_entries registry ! index))"

definition put_connection ::
  "ck_connection_registry \<Rightarrow> nat \<Rightarrow> ck_connection \<Rightarrow> ck_connection_registry" where
  "put_connection registry index connection =
     put_entry registry index ((registry_entries registry ! index)\<lparr>entry_connection := connection\<rparr>)"

definition ck_connection_registry_attach_socket ::
  "bool \<Rightarrow> mutex_calls \<Rightarrow> ck_connection_registry \<Rightarrow> ck_connection_handle \<Rightarrow> u64 \<Rightarrow> u64 \<Rightarrow> u64 \<Rightarrow> int
   \<Rightarrow> int \<times> ck_connection_registry \<times> unit option" where
  "ck_connection_registry_attach_socket null_arg m registry handle request_id owner_token
     lifetime_token socket_fd =
     with_entry (null_arg \<or> socket_fd < 0) m registry handle
       (\<lambda>c. ck_connection_validate False c request_id owner_token lifetime_token)
       (\<lambda>index entry.
          case ck_connection_attach_socket False (entry_connection entry) socket_fd of
            (result, c) \<Rightarrow> (result, put_connection registry index c, None))"

definition ck_connection_registry_socket_fd ::
  "bool \<Rightarrow> mutex_calls \<Rightarrow> ck_connection_registry \<Rightarrow> ck_connection_handle \<Rightarrow> u64 \<Rightarrow> u64 \<Rightarrow> u64
   \<Rightarrow> int \<times> ck_connection_registry \<times> unit option" where
  "ck_connection_registry_socket_fd null_arg m registry handle request_id owner_token lifetime_token =
     with_entry null_arg m registry handle
       (\<lambda>c. ck_connection_validate False c request_id owner_token lifetime_token)
       (\<lambda>index entry. (ck_connection_socket_fd (Some (entry_connection entry)), registry, None))"

definition ck_connection_registry_start_async_cycle ::
  "bool \<Rightarrow> mutex_calls \<Rightarrow> ck_connection_registry \<Rightarrow> ck_connection_handle \<Rightarrow> u64 \<Rightarrow> u64 \<Rightarrow> u64 \<Rightarrow> u64
   \<Rightarrow> int \<times> ck_connection_registry \<times> unit option" where
  "ck_connection_registry_start_async_cycle null_arg m registry handle request_id owner_token
     lifetime_token cycle_id =
     with_entry null_arg m registry handle
       (\<lambda>c. ck_connection_validate False c request_id owner_token lifetime_token)
       (\<lambda>index entry.
          case ck_connection_start_async_cycle False (entry_connection entry) cycle_id of
            (result, c) \<Rightarrow> (result, put_connection registry index c, None))"

definition ck_connection_registry_try_terminal ::
  "bool \<Rightarrow> mutex_calls \<Rightarrow> ck_connection_registry \<Rightarrow> ck_connection_handle \<Rightarrow> u64 \<Rightarrow> u64 \<Rightarrow> u64 \<Rightarrow> u64 \<Rightarrow> int
   \<Rightarrow> int \<times> ck_connection_registry \<times> unit option" where
  "ck_connection_registry_try_terminal null_arg m registry handle request_id owner_token
     lifetime_token cycle_id event =
     with_entry null_arg m registry handle
       (\<lambda>c. ck_connection_validate_cycle False c request_id owner_token lifetime_token cycle_id)
       (\<lambda>index entry.
          case ck_connection_try_terminal False (entry_connection entry) event of
            (result, c) \<Rightarrow> (result, put_connection registry index c, None))"

definition reader_address :: "nat \<Rightarrow> ck_connection_registry_entry \<Rightarrow> block_address option" where
  "reader_address index entry =
    map_option (\<lambda>_. (index, entry_generation entry)) (conn_http_reader (entry_connection entry))"

definition writer_address :: "nat \<Rightarrow> ck_connection_registry_entry \<Rightarrow> block_address option" where
  "writer_address index entry =
    map_option (\<lambda>_. (index, entry_generation entry)) (conn_http_writer (entry_connection entry))"

definition empty_pin :: ck_connection_registry_pin where
  "empty_pin = \<lparr>pin_connection = None, pin_block = None, pin_handle = 0\<rparr>"

definition pin_in_use :: "ck_connection_registry_pin \<Rightarrow> bool" where
  "pin_in_use pin \<longleftrightarrow> pin_connection pin \<noteq> None \<or> pin_block pin \<noteq> None \<or> pin_handle pin \<noteq> 0"

definition ck_connection_registry_reader_acquire ::
  "bool \<Rightarrow> mutex_calls \<Rightarrow> ck_connection_registry \<Rightarrow> ck_connection_handle \<Rightarrow> u64 \<Rightarrow> u64 \<Rightarrow> u64
   \<Rightarrow> ck_connection_registry_pin \<Rightarrow> int \<times> ck_connection_registry \<times> ck_connection_registry_pin option" where
  "ck_connection_registry_reader_acquire null_arg m registry handle request_id owner_token
     lifetime_token pin =
     with_entry (null_arg \<or> pin_in_use pin) m registry handle
       (\<lambda>c. ck_connection_validate False c request_id owner_token lifetime_token)
       (\<lambda>index entry.
          if ck_connection_state (Some (entry_connection entry)) = CK_CONNECTION_CLOSED
             \<or> conn_http_reader (entry_connection entry) = None
          then (1, registry, None)
          else (0, put_entry registry index
                     (entry\<lparr>entry_reader_users := entry_reader_users entry + 1\<rparr>),
                Some \<lparr>pin_connection = Some index, pin_block = reader_address index entry,
                      pin_handle = handle\<rparr>))"

definition ck_connection_registry_output_acquire ::
  "bool \<Rightarrow> mutex_calls \<Rightarrow> ck_connection_registry \<Rightarrow> ck_connection_handle \<Rightarrow> u64 \<Rightarrow> u64 \<Rightarrow> u64
   \<Rightarrow> ck_connection_registry_pin \<Rightarrow> int \<times> ck_connection_registry \<times> ck_connection_registry_pin option" where
  "ck_connection_registry_output_acquire null_arg m registry handle request_id owner_token
     lifetime_token pin =
     with_entry (null_arg \<or> pin_in_use pin) m registry handle
       (\<lambda>c. ck_connection_validate False c request_id owner_token lifetime_token)
       (\<lambda>index entry.
          if ck_connection_state (Some (entry_connection entry)) = CK_CONNECTION_CLOSED
             \<or> conn_http_writer (entry_connection entry) = None
          then (1, registry, None)
          else (0, put_entry registry index
                     (entry\<lparr>entry_output_users := entry_output_users entry + 1\<rparr>),
                Some \<lparr>pin_connection = Some index, pin_block = writer_address index entry,
                      pin_handle = handle\<rparr>))"

text \<open>A release returns its result, the registry and the pin.\<close>

definition ck_connection_registry_reader_release ::
  "bool \<Rightarrow> mutex_calls \<Rightarrow> ck_connection_registry \<Rightarrow> ck_connection_registry_pin
   \<Rightarrow> int \<times> ck_connection_registry \<times> ck_connection_registry_pin" where
  "ck_connection_registry_reader_release null_arg m registry pin =
    (if null_arg \<or> \<not> registry_initialized registry \<or> pin_connection pin = None
        \<or> pin_block pin = None \<or> pin_handle pin = 0
     then (-1, registry, pin)
     else
       case ck_connection_registry_decode_handle (pin_handle pin) of
         None \<Rightarrow> (-1, registry, pin)
       | Some (index, generation) \<Rightarrow>
           if lock_result m \<noteq> 0 then (-1, registry, pin)
           else
             let entry = registry_entries registry ! index in
             if \<not> entry_active entry \<or> entry_generation entry \<noteq> generation
                \<or> Some index \<noteq> pin_connection pin \<or> reader_address index entry \<noteq> pin_block pin
                \<or> entry_reader_users entry = 0
             then (-2, registry, pin)
             else (unlock_result m,
                   put_entry registry index (entry\<lparr>entry_reader_users := entry_reader_users entry - 1\<rparr>),
                   empty_pin))"

definition ck_connection_registry_output_release ::
  "bool \<Rightarrow> mutex_calls \<Rightarrow> ck_connection_registry \<Rightarrow> ck_connection_registry_pin
   \<Rightarrow> int \<times> ck_connection_registry \<times> ck_connection_registry_pin" where
  "ck_connection_registry_output_release null_arg m registry pin =
    (if null_arg \<or> \<not> registry_initialized registry \<or> pin_connection pin = None
        \<or> pin_block pin = None \<or> pin_handle pin = 0
     then (-1, registry, pin)
     else
       case ck_connection_registry_decode_handle (pin_handle pin) of
         None \<Rightarrow> (-1, registry, pin)
       | Some (index, generation) \<Rightarrow>
           if lock_result m \<noteq> 0 then (-1, registry, pin)
           else
             let entry = registry_entries registry ! index in
             if \<not> entry_active entry \<or> entry_generation entry \<noteq> generation
                \<or> Some index \<noteq> pin_connection pin \<or> writer_address index entry \<noteq> pin_block pin
                \<or> entry_output_users entry = 0
             then (-2, registry, pin)
             else (unlock_result m,
                   put_entry registry index (entry\<lparr>entry_output_users := entry_output_users entry - 1\<rparr>),
                   empty_pin))"

text \<open>The last component of a close is the descriptor handed to \<open>ck_socket_close\<close>.\<close>

definition ck_connection_registry_close ::
  "bool \<Rightarrow> mutex_calls \<Rightarrow> int \<Rightarrow> ck_connection_registry \<Rightarrow> ck_connection_handle \<Rightarrow> u64 \<Rightarrow> u64 \<Rightarrow> u64
   \<Rightarrow> int \<times> ck_connection_registry \<times> int option" where
  "ck_connection_registry_close null_arg m close_result registry handle request_id owner_token
     lifetime_token =
     with_entry null_arg m registry handle
       (\<lambda>c. ck_connection_validate False c request_id owner_token lifetime_token)
       (\<lambda>index entry.
          if entry_reader_users entry \<noteq> 0 \<or> entry_output_users entry \<noteq> 0 then (2, registry, None)
          else
            case ck_connection_close False close_result (entry_connection entry) of
              (result, c, fd) \<Rightarrow> (result, put_connection registry index c, fd))"

definition ck_connection_registry_retire ::
  "bool \<Rightarrow> mutex_calls \<Rightarrow> ck_connection_registry \<Rightarrow> ck_connection_handle \<Rightarrow> u64 \<Rightarrow> u64 \<Rightarrow> u64
   \<Rightarrow> int \<times> ck_connection_registry \<times> unit option" where
  "ck_connection_registry_retire null_arg m registry handle request_id owner_token lifetime_token =
     with_entry null_arg m registry handle
       (\<lambda>c. ck_connection_validate False c request_id owner_token lifetime_token)
       (\<lambda>index entry.
          if entry_reader_users entry \<noteq> 0 \<or> entry_output_users entry \<noteq> 0
             \<or> ck_connection_state (Some (entry_connection entry)) \<noteq> CK_CONNECTION_CLOSED
             \<or> ck_connection_socket_fd (Some (entry_connection entry)) \<ge> 0
          then (1, registry, None)
          else (unlock_result m, put_entry registry index (entry\<lparr>entry_active := False\<rparr>), None))"

definition ck_connection_registry_active_count ::
  "bool \<Rightarrow> mutex_calls \<Rightarrow> ck_connection_registry \<Rightarrow> int" where
  "ck_connection_registry_active_count null_arg m registry =
    (if null_arg \<or> \<not> registry_initialized registry then -1
     else if lock_result m \<noteq> 0 then -1
     else int (length (filter entry_active (registry_entries registry))))"

definition ck_connection_registry_destroy ::
  "bool \<Rightarrow> mutex_calls \<Rightarrow> int \<Rightarrow> ck_connection_registry \<Rightarrow> int \<times> ck_connection_registry" where
  "ck_connection_registry_destroy null_arg m mutex_destroy_result registry =
    (if null_arg \<or> \<not> registry_initialized registry then (-1, registry)
     else if ck_connection_registry_active_count False m registry \<noteq> 0 then (1, registry)
     else if mutex_destroy_result \<noteq> 0 then (-1, registry)
     else (0, registry\<lparr>registry_initialized := False\<rparr>))"

end
