(* ===== verification/Ck_Registry_Safe.thy ===== *)
theory Ck_Registry_Safe
  imports Ck_Registry
begin

text \<open>
  What the registry guarantees over any execution: handles are exact and never reused before the
  generation counter wraps, retired handles never resolve again, and a pinned reader or writer
  stays allocated until it is released.
\<close>

section \<open>Handles\<close>

lemma handle_parts:
  fixes a b :: u64
  assumes "take_bit 32 b = b"
  shows "(push_bit 32 a OR b) AND 0xffffffff = b" and "drop_bit 32 (push_bit 32 a OR b) = take_bit 32 a"
proof -
  have m: "(0xffffffff :: u64) = mask 32" by (simp add: mask_eq_exp_minus_1)
  have high: "bit b n \<Longrightarrow> n < 32" for n
    using assms bit_take_bit_iff [of 32 b n] by simp
  show "(push_bit 32 a OR b) AND 0xffffffff = b"
    unfolding m by (rule bit_word_eqI) (auto simp: bit_simps dest: high)
  show "drop_bit 32 (push_bit 32 a OR b) = take_bit 32 a"
    by (rule bit_word_eqI) (auto simp: bit_simps dest: high)
qed

lemma take_bit_small: "n < 2 ^ 32 \<Longrightarrow> take_bit 32 (of_nat n :: u64) = of_nat n"
  unfolding word_unat_eq_iff unsigned_take_bit_eq by (simp add: take_bit_eq_mod)

lemma decode_make:
  assumes "index < CK_CONNECTION_REGISTRY_CAPACITY" and "generation \<noteq> 0"
  shows "ck_connection_registry_decode_handle (ck_connection_registry_make_handle index generation)
    = Some (index, generation)"
proof -
  let ?b = "of_nat (Suc index) :: u64"
  let ?h = "ck_connection_registry_make_handle index generation"
  have h: "?h = push_bit 32 (ucast generation) OR ?b"
    by (simp add: ck_connection_registry_make_handle_def add.commute)
  have small: "Suc index \<le> 256" using assms(1) by (simp add: CK_CONNECTION_REGISTRY_CAPACITY_def)
  then have tb: "take_bit 32 ?b = ?b" by (intro take_bit_small) simp
  have slot: "?h AND 0xffffffff = ?b" unfolding h by (rule handle_parts(1) [OF tb])
  have "drop_bit 32 ?h = take_bit 32 (ucast generation)" unfolding h by (rule handle_parts(2) [OF tb])
  then have gen: "(ucast (drop_bit 32 ?h) :: u32) = generation"
    by (auto intro!: bit_word_eqI simp: bit_simps)
  have b: "unat ?b = Suc index" using small by (intro unat_of_nat_less) simp
  have "?b \<noteq> 0" using b by (metis nat.simps(3) unsigned_0)
  moreover from this slot have "?h \<noteq> 0" by auto
  moreover have "\<not> ?b > of_nat CK_CONNECTION_REGISTRY_CAPACITY"
    using small b by (simp add: word_less_nat_alt CK_CONNECTION_REGISTRY_CAPACITY_def)
  moreover have "unat (?b - 1) = index"
    using small unat_of_nat_less [of index, where 'a = 64] by simp
  ultimately show ?thesis
    using assms(2) unfolding ck_connection_registry_decode_handle_def Let_def slot gen by simp
qed

lemma make_decode:
  assumes "ck_connection_registry_decode_handle h = Some (index, generation)"
  shows "index < CK_CONNECTION_REGISTRY_CAPACITY" and "generation \<noteq> 0"
    and "h = ck_connection_registry_make_handle index generation"
proof -
  let ?slot = "h AND 0xffffffff"
  have d: "?slot \<noteq> 0" "\<not> ?slot > of_nat CK_CONNECTION_REGISTRY_CAPACITY" "index = unat (?slot - 1)"
      "generation = ucast (drop_bit 32 h)" and "generation \<noteq> 0"
    using assms by (auto simp: ck_connection_registry_decode_handle_def Let_def split: if_splits)
  then show "generation \<noteq> 0" by simp
  have pos: "unat (?slot - 1) = unat ?slot - 1" using d(1) by (rule unat_minus_one)
  have "unat ?slot \<noteq> 0" using d(1) by (simp add: unat_eq_zero)
  moreover have "unat ?slot \<le> 256"
    using d(2) by (simp add: word_less_nat_alt CK_CONNECTION_REGISTRY_CAPACITY_def)
  ultimately show "index < CK_CONNECTION_REGISTRY_CAPACITY"
    unfolding d(3) pos by (simp add: CK_CONNECTION_REGISTRY_CAPACITY_def)
  have "of_nat index + 1 = ?slot" unfolding d(3) by simp
  moreover have "h = push_bit 32 (ucast (ucast (drop_bit 32 h) :: u32)) OR ?slot"
  proof -
    have m: "(0xffffffff :: u64) = mask 32" by (simp add: mask_eq_exp_minus_1)
    show ?thesis unfolding m by (rule bit_word_eqI) (auto simp: bit_simps)
  qed
  ultimately show "h = ck_connection_registry_make_handle index generation"
    unfolding ck_connection_registry_make_handle_def d(4) by simp
qed

lemma find_Some:
  assumes "ck_connection_registry_find reg h = Some i"
  shows "i < CK_CONNECTION_REGISTRY_CAPACITY" and "entry_active (registry_entries reg ! i)"
    and "entry_generation (registry_entries reg ! i) \<noteq> 0"
    and "h = ck_connection_registry_make_handle i (entry_generation (registry_entries reg ! i))"
  using assms make_decode [of h]
  by (auto simp: ck_connection_registry_find_def split: option.splits if_splits)

lemma find_make:
  assumes "i < CK_CONNECTION_REGISTRY_CAPACITY" and "g \<noteq> 0"
  shows "ck_connection_registry_find reg (ck_connection_registry_make_handle i g) =
    (if entry_active (registry_entries reg ! i) \<and> entry_generation (registry_entries reg ! i) = g
     then Some i else None)"
  by (simp add: ck_connection_registry_find_def decode_make [OF assms])

section \<open>Executions\<close>

text \<open>
  The registry together with what its clients hold: the pins acquired and not yet released, the
  handles issued, the handles retired, and the number of registrations attempted.
\<close>

record registry_world =
  world_registry :: ck_connection_registry
  world_readers :: "ck_connection_registry_pin list"
  world_outputs :: "ck_connection_registry_pin list"
  world_issued :: "ck_connection_handle list"
  world_retired :: "ck_connection_handle list"
  world_registrations :: nat

definition initial_world :: registry_world where
  "initial_world =
     \<lparr>world_registry = snd (ck_connection_registry_init False 0 undefined), world_readers = [],
      world_outputs = [], world_issued = [], world_retired = [], world_registrations = 0\<rparr>"

definition PIN_LIMIT :: nat where "PIN_LIMIT = 2 ^ 32 - 1"

text \<open>
  One operation of one thread.  The 32-bit user counts of a slot are not checked for overflow,
  so an acquire is taken only while fewer than \<open>2\<^sup>3\<^sup>2 - 1\<close> pins are held.  \<open>use\<close> is what the
  holder of a pin may do through it: change the connection in any way that keeps its invariant and
  does not close it.
\<close>

inductive world_step :: "registry_world \<Rightarrow> registry_world \<Rightarrow> bool" where
  register: "ck_connection_registry_register False m mr mw mb mp (world_registry w) cid rid ot lt = (r, reg, h) \<Longrightarrow>
    world_step w (w\<lparr>world_registry := reg, world_issued := world_issued w @ (case h of None \<Rightarrow> [] | Some x \<Rightarrow> [x]),
      world_registrations := Suc (world_registrations w)\<rparr>)"
| attach: "ck_connection_registry_attach_socket False m (world_registry w) handle rid ot lt fd = (r, reg, u) \<Longrightarrow>
    world_step w (w\<lparr>world_registry := reg\<rparr>)"
| start_cycle: "ck_connection_registry_start_async_cycle False m (world_registry w) handle rid ot lt n = (r, reg, u) \<Longrightarrow>
    world_step w (w\<lparr>world_registry := reg\<rparr>)"
| terminal: "ck_connection_registry_try_terminal False m (world_registry w) handle rid ot lt n e = (r, reg, u) \<Longrightarrow>
    world_step w (w\<lparr>world_registry := reg\<rparr>)"
| close: "ck_connection_registry_close False m res (world_registry w) handle rid ot lt = (r, reg, fd') \<Longrightarrow>
    world_step w (w\<lparr>world_registry := reg\<rparr>)"
| retire: "ck_connection_registry_retire False m (world_registry w) handle rid ot lt = (r, reg, u) \<Longrightarrow>
    world_step w (w\<lparr>world_registry := reg, world_retired := world_retired w @
      (if ck_connection_registry_find (world_registry w) handle \<noteq> None
          \<and> ck_connection_registry_find reg handle = None then [handle] else [])\<rparr>)"
| reader_acquire: "length (world_readers w) < PIN_LIMIT \<Longrightarrow>
    ck_connection_registry_reader_acquire False m (world_registry w) handle rid ot lt empty_pin = (r, reg, p) \<Longrightarrow>
    world_step w (w\<lparr>world_registry := reg,
      world_readers := (case p of None \<Rightarrow> [] | Some x \<Rightarrow> [x]) @ world_readers w\<rparr>)"
| reader_release: "pin \<in> set (world_readers w) \<Longrightarrow>
    ck_connection_registry_reader_release False m (world_registry w) pin = (r, reg, pin') \<Longrightarrow>
    world_step w (w\<lparr>world_registry := reg,
      world_readers := if pin' = empty_pin then remove1 pin (world_readers w) else world_readers w\<rparr>)"
| output_acquire: "length (world_outputs w) < PIN_LIMIT \<Longrightarrow>
    ck_connection_registry_output_acquire False m (world_registry w) handle rid ot lt empty_pin = (r, reg, p) \<Longrightarrow>
    world_step w (w\<lparr>world_registry := reg,
      world_outputs := (case p of None \<Rightarrow> [] | Some x \<Rightarrow> [x]) @ world_outputs w\<rparr>)"
| output_release: "pin \<in> set (world_outputs w) \<Longrightarrow>
    ck_connection_registry_output_release False m (world_registry w) pin = (r, reg, pin') \<Longrightarrow>
    world_step w (w\<lparr>world_registry := reg,
      world_outputs := if pin' = empty_pin then remove1 pin (world_outputs w) else world_outputs w\<rparr>)"
| use: "pin \<in> set (world_readers w) \<union> set (world_outputs w) \<Longrightarrow> pin_connection pin = Some i \<Longrightarrow>
    conn_wf c \<Longrightarrow> \<not> conn_closed c \<Longrightarrow>
    world_step w (w\<lparr>world_registry := put_connection (world_registry w) i c\<rparr>)"

section \<open>The invariant\<close>

definition pins_on :: "ck_connection_registry_pin list \<Rightarrow> nat \<Rightarrow> ck_connection_registry_pin list" where
  "pins_on pins i = filter (\<lambda>p. pin_connection p = Some i) pins"

definition pin_ok :: "nat \<Rightarrow> ck_connection_registry_entry \<Rightarrow> ck_connection_registry_pin \<Rightarrow> bool" where
  "pin_ok i e p \<longleftrightarrow> entry_active e \<and> \<not> conn_closed (entry_connection e) \<and> entry_generation e \<noteq> 0
     \<and> pin_handle p = ck_connection_registry_make_handle i (entry_generation e)
     \<and> pin_block p = Some (i, entry_generation e)"

definition slot_ok ::
  "ck_connection_registry_pin list \<Rightarrow> ck_connection_registry_pin list \<Rightarrow> nat
   \<Rightarrow> ck_connection_registry_entry \<Rightarrow> bool" where
  "slot_ok rs os i e \<longleftrightarrow> (entry_active e \<longrightarrow> conn_wf (entry_connection e))
     \<and> entry_reader_users e = of_nat (length (pins_on rs i))
     \<and> entry_output_users e = of_nat (length (pins_on os i))
     \<and> (\<forall>p \<in> set (pins_on rs i) \<union> set (pins_on os i). pin_ok i e p)"

definition pins_inv ::
  "ck_connection_registry \<Rightarrow> ck_connection_registry_pin list \<Rightarrow> ck_connection_registry_pin list \<Rightarrow> bool" where
  "pins_inv reg rs os \<longleftrightarrow>
     length (registry_entries reg) = CK_CONNECTION_REGISTRY_CAPACITY \<and> registry_initialized reg
   \<and> (\<forall>i < CK_CONNECTION_REGISTRY_CAPACITY. slot_ok rs os i (registry_entries reg ! i))
   \<and> (\<forall>p \<in> set rs \<union> set os. \<exists>i < CK_CONNECTION_REGISTRY_CAPACITY. pin_connection p = Some i)
   \<and> length rs \<le> PIN_LIMIT \<and> length os \<le> PIN_LIMIT"

lemma pins_inv_slot:
  "pins_inv reg rs os \<Longrightarrow> i < CK_CONNECTION_REGISTRY_CAPACITY \<Longrightarrow> slot_ok rs os i (registry_entries reg ! i)"
  by (simp add: pins_inv_def)

lemma pins_inv_put:
  assumes "pins_inv reg rs os" and "i < CK_CONNECTION_REGISTRY_CAPACITY" and "slot_ok rs os i e"
  shows "pins_inv (put_entry reg i e) rs os"
  using assms by (auto simp: pins_inv_def put_entry_def nth_list_update)

text \<open>The user count of a slot is zero exactly when nothing on it is pinned.\<close>

lemma users_zero:
  assumes "length ps \<le> PIN_LIMIT"
  shows "(of_nat (length (pins_on ps i)) :: u32) = 0 \<longleftrightarrow> pins_on ps i = []"
proof -
  have "length (pins_on ps i) \<le> length ps" by (simp add: pins_on_def)
  with assms have "length (pins_on ps i) < 2 ^ 32" by (simp add: PIN_LIMIT_def)
  then have "unat (of_nat (length (pins_on ps i)) :: u32) = length (pins_on ps i)" by simp
  moreover have "w = 0 \<longleftrightarrow> unat w = 0" for w :: u32 by (simp add: unat_eq_zero)
  ultimately show ?thesis by (simp only: length_0_conv)
qed

lemma slot_ok_connection:
  assumes "slot_ok rs os i e" and "conn_wf c" and "conn_closed c \<longrightarrow> conn_closed (entry_connection e)"
  shows "slot_ok rs os i (e\<lparr>entry_connection := c\<rparr>)"
  using assms by (auto simp: slot_ok_def pin_ok_def)

text \<open>An operation of the shared frame either does nothing or acts on an active slot.\<close>

lemma with_entry_cases:
  assumes "with_entry n m reg handle validate f = (r, reg', out)"
  shows "reg' = reg \<and> out = None
    \<or> (\<exists>i. ck_connection_registry_find reg handle = Some i
          \<and> f i (registry_entries reg ! i) = (r, reg', out))"
  using assms by (auto simp: with_entry_def split: if_splits option.splits)

lemma put_connection_inv:
  assumes "pins_inv reg rs os" and "ck_connection_registry_find reg handle = Some i"
    and "\<And>c. conn_wf (entry_connection (registry_entries reg ! i)) \<Longrightarrow>
      conn_wf c' \<and> (conn_closed c' \<longrightarrow> conn_closed (entry_connection (registry_entries reg ! i)))"
  shows "pins_inv (put_connection reg i c') rs os"
proof -
  note f = find_Some [OF assms(2)]
  have "slot_ok rs os i (registry_entries reg ! i)" using pins_inv_slot [OF assms(1) f(1)] .
  with f(2) assms(3) show ?thesis
    unfolding put_connection_def
    by (intro pins_inv_put [OF assms(1) f(1)] slot_ok_connection) (auto simp: slot_ok_def)
qed

lemma attach_inv:
  assumes "pins_inv reg rs os"
    and "ck_connection_registry_attach_socket False m reg handle rid ot lt fd = (r, reg', u)"
  shows "pins_inv reg' rs os"
  using with_entry_cases [OF assms(2) [unfolded ck_connection_registry_attach_socket_def]]
proof (elim disjE conjE exE)
  fix i assume f: "ck_connection_registry_find reg handle = Some i"
    and op: "(case ck_connection_attach_socket False (entry_connection (registry_entries reg ! i)) fd of
      (result, c) \<Rightarrow> (result, put_connection reg i c, None)) = (r, reg', u)"
  then show ?thesis
    using attach_wf by (auto split: prod.splits intro!: put_connection_inv [OF assms(1) f])
qed (use assms(1) in simp)

lemma start_cycle_inv:
  assumes "pins_inv reg rs os"
    and "ck_connection_registry_start_async_cycle False m reg handle rid ot lt n = (r, reg', u)"
  shows "pins_inv reg' rs os"
  using with_entry_cases [OF assms(2) [unfolded ck_connection_registry_start_async_cycle_def]]
proof (elim disjE conjE exE)
  fix i assume f: "ck_connection_registry_find reg handle = Some i"
    and "(case ck_connection_start_async_cycle False (entry_connection (registry_entries reg ! i)) n of
      (result, c) \<Rightarrow> (result, put_connection reg i c, None)) = (r, reg', u)"
  then obtain c where step: "ck_connection_start_async_cycle False (entry_connection (registry_entries reg ! i)) n
      = (r, c)" and reg': "reg' = put_connection reg i c" by (auto split: prod.splits)
  show ?thesis unfolding reg'
    using start_cycle_refines [OF _ step]
    by (intro put_connection_inv [OF assms(1) f])
      (auto simp: connection_consts split: if_splits elim: life_next.cases)
qed (use assms(1) in simp)

lemma terminal_inv:
  assumes "pins_inv reg rs os"
    and "ck_connection_registry_try_terminal False m reg handle rid ot lt n e = (r, reg', u)"
  shows "pins_inv reg' rs os"
  using with_entry_cases [OF assms(2) [unfolded ck_connection_registry_try_terminal_def]]
proof (elim disjE conjE exE)
  fix i assume f: "ck_connection_registry_find reg handle = Some i"
    and "(case ck_connection_try_terminal False (entry_connection (registry_entries reg ! i)) e of
      (result, c) \<Rightarrow> (result, put_connection reg i c, None)) = (r, reg', u)"
  then obtain c where step: "ck_connection_try_terminal False (entry_connection (registry_entries reg ! i)) e
      = (r, c)" and reg': "reg' = put_connection reg i c" by (auto split: prod.splits)
  show ?thesis unfolding reg'
    using try_terminal_refines [OF _ step]
    by (intro put_connection_inv [OF assms(1) f])
      (auto simp: connection_consts split: if_splits elim: life_next.cases)
qed (use assms(1) in simp)

lemma unpinned_slot:
  assumes "pins_inv reg rs os" and "i < CK_CONNECTION_REGISTRY_CAPACITY"
    and "entry_reader_users (registry_entries reg ! i) = 0"
    and "entry_output_users (registry_entries reg ! i) = 0"
  shows "pins_on rs i = []" and "pins_on os i = []"
proof -
  have "slot_ok rs os i (registry_entries reg ! i)" using pins_inv_slot [OF assms(1,2)] .
  with assms show "pins_on rs i = []" and "pins_on os i = []"
    using users_zero [of rs i] users_zero [of os i] by (auto simp: slot_ok_def pins_inv_def)
qed

lemma slot_ok_unpinned:
  "pins_on rs i = [] \<Longrightarrow> pins_on os i = [] \<Longrightarrow>
   slot_ok rs os i e \<longleftrightarrow> (entry_active e \<longrightarrow> conn_wf (entry_connection e))
     \<and> entry_reader_users e = 0 \<and> entry_output_users e = 0"
  by (simp add: slot_ok_def)

lemma close_inv:
  assumes "pins_inv reg rs os"
    and "ck_connection_registry_close False m res reg handle rid ot lt = (r, reg', fd)"
  shows "pins_inv reg' rs os"
  using with_entry_cases [OF assms(2) [unfolded ck_connection_registry_close_def]]
proof (elim disjE conjE exE)
  fix i assume f: "ck_connection_registry_find reg handle = Some i"
    and op: "(if entry_reader_users (registry_entries reg ! i) \<noteq> 0
        \<or> entry_output_users (registry_entries reg ! i) \<noteq> 0 then (2, reg, None)
      else case ck_connection_close False res (entry_connection (registry_entries reg ! i)) of
        (result, c, fd) \<Rightarrow> (result, put_connection reg i c, fd)) = (r, reg', fd)"
  note fs = find_Some [OF f]
  show ?thesis
  proof (cases "entry_reader_users (registry_entries reg ! i) = 0
      \<and> entry_output_users (registry_entries reg ! i) = 0")
    case True
    then obtain c where step: "ck_connection_close False res (entry_connection (registry_entries reg ! i))
        = (r, c, fd)" and reg': "reg' = put_connection reg i c"
      using op by (auto split: prod.splits)
    note free = unpinned_slot [OF assms(1) fs(1) conjunct1 [OF True] conjunct2 [OF True]]
    have "conn_wf (entry_connection (registry_entries reg ! i))"
      using pins_inv_slot [OF assms(1) fs(1)] fs(2) by (simp add: slot_ok_def)
    from close_refines [OF this step] True show ?thesis
      unfolding reg' put_connection_def
      by (intro pins_inv_put [OF assms(1) fs(1)]) (simp add: slot_ok_unpinned [OF free])
  qed (use op assms(1) in auto)
qed (use assms(1) in simp)

lemma retire_cases:
  assumes "ck_connection_registry_retire False m reg handle rid ot lt = (r, reg', u)"
  shows "reg' = reg
    \<or> (\<exists>i. ck_connection_registry_find reg handle = Some i
        \<and> entry_reader_users (registry_entries reg ! i) = 0 \<and> entry_output_users (registry_entries reg ! i) = 0
        \<and> reg' = put_entry reg i ((registry_entries reg ! i)\<lparr>entry_active := False\<rparr>))"
  using with_entry_cases [OF assms [unfolded ck_connection_registry_retire_def]]
  by (auto split: if_splits)

lemma retire_inv:
  assumes "pins_inv reg rs os"
    and "ck_connection_registry_retire False m reg handle rid ot lt = (r, reg', u)"
  shows "pins_inv reg' rs os"
  using retire_cases [OF assms(2)]
proof (elim disjE conjE exE)
  fix i assume f: "ck_connection_registry_find reg handle = Some i"
    and z: "entry_reader_users (registry_entries reg ! i) = 0" "entry_output_users (registry_entries reg ! i) = 0"
    and reg': "reg' = put_entry reg i ((registry_entries reg ! i)\<lparr>entry_active := False\<rparr>)"
  note free = unpinned_slot [OF assms(1) find_Some(1) [OF f] z]
  show ?thesis unfolding reg'
    by (intro pins_inv_put [OF assms(1) find_Some(1) [OF f]]) (simp add: slot_ok_unpinned [OF free] z)
qed (use assms(1) in simp)

lemma first_inactive_Some:
  "first_inactive es k = Some i \<Longrightarrow> k \<le> i \<and> i < k + length es \<and> \<not> entry_active (es ! (i - k))"
proof (induction es k rule: first_inactive.induct)
  case (2 e es k)
  then show ?case by (cases "i = k") (auto split: if_splits simp: nth_Cons' Suc_diff_le)
qed simp

definition next_generation :: "u32 \<Rightarrow> u32" where
  "next_generation g = (if g + 1 = 0 then 1 else g + 1)"

lemma register_cases:
  assumes "ck_connection_registry_register False m mr mw mb mp reg cid rid ot lt = (r, reg', h)"
  shows "reg' = reg \<and> h = None
    \<or> (\<exists>i e. i < length (registry_entries reg) \<and> \<not> entry_active (registry_entries reg ! i)
        \<and> reg' = put_entry reg i e
        \<and> entry_generation e = next_generation (entry_generation (registry_entries reg ! i))
        \<and> entry_reader_users e = 0 \<and> entry_output_users e = 0
        \<and> (if entry_active e then conn_wf (entry_connection e)
              \<and> h = Some (ck_connection_registry_make_handle i (entry_generation e)) else h = None))"
proof (cases "first_inactive (registry_entries reg) 0")
  case None
  with assms show ?thesis by (auto simp: ck_connection_registry_register_def split: if_splits)
next
  case (Some i)
  note slot = first_inactive_Some [OF Some]
  obtain code c where init: "ck_connection_init False mr mw mb mp (entry_connection (registry_entries reg ! i))
      cid rid ot lt = (code, c)" by fastforce
  have wf: "code = 0 \<Longrightarrow> conn_wf c" using conn_init_wf(1) init by auto
  define e1 where "e1 = (registry_entries reg ! i)\<lparr>entry_generation :=
      next_generation (entry_generation (registry_entries reg ! i)),
      entry_reader_users := 0, entry_output_users := 0, entry_connection := c\<rparr>"
  define e where "e = (if code = 0 then e1\<lparr>entry_active := True\<rparr> else e1)"
  show ?thesis
  proof (cases "registry_initialized reg \<and> cid \<noteq> 0 \<and> rid \<noteq> 0 \<and> lock_result m = 0")
    case False
    with assms show ?thesis by (auto simp: ck_connection_registry_register_def split: if_splits)
  next
    case True
    with assms Some init
    have "reg' = put_entry reg i e \<and> h = (if code = 0
        then Some (ck_connection_registry_make_handle i (entry_generation e)) else None)"
      by (auto simp: ck_connection_registry_register_def Let_def next_generation_def e_def e1_def
          split: if_splits)
    with slot wf show ?thesis
      by (intro disjI2 exI [of _ i] exI [of _ e]) (simp add: e_def e1_def)
  qed
qed

lemma pins_on_inactive:
  assumes "pins_inv reg rs os" and "i < CK_CONNECTION_REGISTRY_CAPACITY"
    and "\<not> entry_active (registry_entries reg ! i)"
  shows "pins_on rs i = []" and "pins_on os i = []"
proof -
  have "p \<notin> set (pins_on rs i) \<union> set (pins_on os i)" for p
    using pins_inv_slot [OF assms(1,2)] assms(3) by (auto simp: slot_ok_def pin_ok_def)
  then show "pins_on rs i = []" and "pins_on os i = []"
    by (metis UnI1 UnI2 list.set_intros(1) neq_Nil_conv)+
qed

lemma register_inv:
  assumes "pins_inv reg rs os"
    and "ck_connection_registry_register False m mr mw mb mp reg cid rid ot lt = (r, reg', h)"
  shows "pins_inv reg' rs os"
  using register_cases [OF assms(2)]
proof (elim disjE conjE exE)
  fix i e assume "i < length (registry_entries reg)"
    and idle: "\<not> entry_active (registry_entries reg ! i)"
    and reg': "reg' = put_entry reg i e"
    and e: "entry_reader_users e = 0" "entry_output_users e = 0"
      "if entry_active e then conn_wf (entry_connection e)
         \<and> h = Some (ck_connection_registry_make_handle i (entry_generation e)) else h = None"
  then have i: "i < CK_CONNECTION_REGISTRY_CAPACITY" using assms(1) by (simp add: pins_inv_def)
  show ?thesis unfolding reg'
    using e by (intro pins_inv_put [OF assms(1) i])
      (auto simp: slot_ok_unpinned [OF pins_on_inactive [OF assms(1) i idle]] split: if_splits)
qed (use assms(1) in simp)

text \<open>Adding and removing a pin on a slot.\<close>

lemma pins_on_simps [simp]:
  "pins_on [] i = []"
  "pins_on (p # ps) i = (if pin_connection p = Some i then p # pins_on ps i else pins_on ps i)"
  by (simp_all add: pins_on_def)

lemma set_pins_on: "set (pins_on ps i) = {p \<in> set ps. pin_connection p = Some i}"
  by (auto simp: pins_on_def)

lemma pins_on_remove1:
  "pins_on (remove1 p ps) i = (if pin_connection p = Some i then remove1 p (pins_on ps i) else pins_on ps i)"
  by (induction ps) auto

lemma conn_objects:
  assumes "conn_wf c" and "\<not> conn_closed c"
  shows "conn_http_reader c \<noteq> None" and "conn_http_writer c \<noteq> None"
  using assms by (auto simp: conn_wf_def)

lemma reader_acquire_inv:
  assumes inv: "pins_inv reg rs os" and len: "length rs < PIN_LIMIT"
    and "ck_connection_registry_reader_acquire False m reg handle rid ot lt empty_pin = (r, reg', p)"
  shows "pins_inv reg' ((case p of None \<Rightarrow> [] | Some x \<Rightarrow> [x]) @ rs) os"
  using with_entry_cases [OF assms(3) [unfolded ck_connection_registry_reader_acquire_def]]
proof (elim disjE conjE exE)
  fix i assume f: "ck_connection_registry_find reg handle = Some i"
    and op: "(if ck_connection_state (Some (entry_connection (registry_entries reg ! i))) = CK_CONNECTION_CLOSED
             \<or> conn_http_reader (entry_connection (registry_entries reg ! i)) = None
          then (1, reg, None)
          else (0, put_entry reg i ((registry_entries reg ! i)
                     \<lparr>entry_reader_users := entry_reader_users (registry_entries reg ! i) + 1\<rparr>),
                Some \<lparr>pin_connection = Some i, pin_block = reader_address i (registry_entries reg ! i),
                      pin_handle = handle\<rparr>)) = (r, reg', p)"
  let ?e = "registry_entries reg ! i"
  note fs = find_Some [OF f]
  have slot: "slot_ok rs os i ?e" using pins_inv_slot [OF inv fs(1)] .
  show ?thesis
  proof (cases "p = None")
    case True
    with op inv show ?thesis by (auto split: if_splits)
  next
    case False
    with op have p: "p = Some \<lparr>pin_connection = Some i, pin_block = reader_address i ?e, pin_handle = handle\<rparr>"
      and reg': "reg' = put_entry reg i (?e\<lparr>entry_reader_users := entry_reader_users ?e + 1\<rparr>)"
      and st: "ck_connection_state (Some (entry_connection ?e)) \<noteq> CK_CONNECTION_CLOSED"
      and rd: "conn_http_reader (entry_connection ?e) \<noteq> None"
      by (auto split: if_splits)
    let ?p = "\<lparr>pin_connection = Some i, pin_block = reader_address i ?e, pin_handle = handle\<rparr>"
    have "conn_wf (entry_connection ?e)" using slot fs(2) by (simp add: slot_ok_def)
    then have "pin_ok i ?e ?p"
      using st rd fs conn_state_life by (auto simp: pin_ok_def reader_address_def)
    then have "slot_ok (?p # rs) os i (?e\<lparr>entry_reader_users := entry_reader_users ?e + 1\<rparr>)"
      using slot by (auto simp: slot_ok_def pin_ok_def)
    moreover have "slot_ok (?p # rs) os j (registry_entries reg ! j)"
      if "j < CK_CONNECTION_REGISTRY_CAPACITY" "j \<noteq> i" for j
      using pins_inv_slot [OF inv that(1)] that(2) by (simp add: slot_ok_def)
    ultimately show ?thesis
      using inv len fs(1) by (auto simp: pins_inv_def p reg' put_entry_def nth_list_update)
  qed
qed (use inv in simp)

lemma reader_release_inv:
  assumes inv: "pins_inv reg rs os" and pin: "pin \<in> set rs"
    and "ck_connection_registry_reader_release False m reg pin = (r, reg', pin')"
  shows "pins_inv reg' (if pin' = empty_pin then remove1 pin rs else rs) os"
proof -
  obtain i where i: "i < CK_CONNECTION_REGISTRY_CAPACITY" "pin_connection pin = Some i"
    using inv pin by (auto simp: pins_inv_def)
  let ?e = "registry_entries reg ! i"
  have slot: "slot_ok rs os i ?e" using pins_inv_slot [OF inv i(1)] .
  then have ok: "pin_ok i ?e pin" using pin i(2) by (auto simp: slot_ok_def set_pins_on)
  have dec: "ck_connection_registry_decode_handle (pin_handle pin) = Some (i, entry_generation ?e)"
    using ok decode_make [OF i(1)] by (simp add: pin_ok_def)
  have ne: "pin \<noteq> empty_pin" using i(2) by (auto simp: empty_pin_def)
  show ?thesis
  proof (cases "pin' = empty_pin")
    case False
    with assms(3) inv show ?thesis
      by (auto simp: ck_connection_registry_reader_release_def Let_def split: if_splits option.splits)
  next
    case True
    with assms(3) dec ne have reg': "reg' = put_entry reg i (?e\<lparr>entry_reader_users := entry_reader_users ?e - 1\<rparr>)"
      by (auto simp: ck_connection_registry_reader_release_def Let_def split: if_splits)
    have "pin \<in> set (pins_on rs i)" using pin i(2) by (simp add: set_pins_on)
    then have "(of_nat (length (remove1 pin (pins_on rs i))) :: u32) = of_nat (length (pins_on rs i)) - 1"
      by (cases "length (pins_on rs i)") (auto simp: length_remove1)
    then have "slot_ok (remove1 pin rs) os i (?e\<lparr>entry_reader_users := entry_reader_users ?e - 1\<rparr>)"
      using slot i(2) by (auto simp: slot_ok_def pins_on_remove1 pin_ok_def
        dest: subsetD [OF set_remove1_subset])
    moreover have "slot_ok (remove1 pin rs) os j (registry_entries reg ! j)"
      if "j < CK_CONNECTION_REGISTRY_CAPACITY" "j \<noteq> i" for j
      using pins_inv_slot [OF inv that(1)] that(2) i(2) by (simp add: slot_ok_def pins_on_remove1)
    ultimately show ?thesis
      using inv True i(1) set_remove1_subset [of pin rs]
      by (auto simp: pins_inv_def reg' put_entry_def nth_list_update length_remove1)
  qed
qed

lemma output_acquire_inv:
  assumes inv: "pins_inv reg rs os" and len: "length os < PIN_LIMIT"
    and "ck_connection_registry_output_acquire False m reg handle rid ot lt empty_pin = (r, reg', p)"
  shows "pins_inv reg' rs ((case p of None \<Rightarrow> [] | Some x \<Rightarrow> [x]) @ os)"
  using with_entry_cases [OF assms(3) [unfolded ck_connection_registry_output_acquire_def]]
proof (elim disjE conjE exE)
  fix i assume f: "ck_connection_registry_find reg handle = Some i"
    and op: "(if ck_connection_state (Some (entry_connection (registry_entries reg ! i))) = CK_CONNECTION_CLOSED
             \<or> conn_http_writer (entry_connection (registry_entries reg ! i)) = None
          then (1, reg, None)
          else (0, put_entry reg i ((registry_entries reg ! i)
                     \<lparr>entry_output_users := entry_output_users (registry_entries reg ! i) + 1\<rparr>),
                Some \<lparr>pin_connection = Some i, pin_block = writer_address i (registry_entries reg ! i),
                      pin_handle = handle\<rparr>)) = (r, reg', p)"
  let ?e = "registry_entries reg ! i"
  note fs = find_Some [OF f]
  have slot: "slot_ok rs os i ?e" using pins_inv_slot [OF inv fs(1)] .
  show ?thesis
  proof (cases "p = None")
    case True
    with op inv show ?thesis by (auto split: if_splits)
  next
    case False
    with op have p: "p = Some \<lparr>pin_connection = Some i, pin_block = writer_address i ?e, pin_handle = handle\<rparr>"
      and reg': "reg' = put_entry reg i (?e\<lparr>entry_output_users := entry_output_users ?e + 1\<rparr>)"
      and st: "ck_connection_state (Some (entry_connection ?e)) \<noteq> CK_CONNECTION_CLOSED"
      and rd: "conn_http_writer (entry_connection ?e) \<noteq> None"
      by (auto split: if_splits)
    let ?p = "\<lparr>pin_connection = Some i, pin_block = writer_address i ?e, pin_handle = handle\<rparr>"
    have "conn_wf (entry_connection ?e)" using slot fs(2) by (simp add: slot_ok_def)
    then have "pin_ok i ?e ?p"
      using st rd fs conn_state_life by (auto simp: pin_ok_def writer_address_def)
    then have "slot_ok rs (?p # os) i (?e\<lparr>entry_output_users := entry_output_users ?e + 1\<rparr>)"
      using slot by (auto simp: slot_ok_def pin_ok_def)
    moreover have "slot_ok rs (?p # os) j (registry_entries reg ! j)"
      if "j < CK_CONNECTION_REGISTRY_CAPACITY" "j \<noteq> i" for j
      using pins_inv_slot [OF inv that(1)] that(2) by (simp add: slot_ok_def)
    ultimately show ?thesis
      using inv len fs(1) by (auto simp: pins_inv_def p reg' put_entry_def nth_list_update)
  qed
qed (use inv in simp)

lemma output_release_inv:
  assumes inv: "pins_inv reg rs os" and pin: "pin \<in> set os"
    and "ck_connection_registry_output_release False m reg pin = (r, reg', pin')"
  shows "pins_inv reg' rs (if pin' = empty_pin then remove1 pin os else os)"
proof -
  obtain i where i: "i < CK_CONNECTION_REGISTRY_CAPACITY" "pin_connection pin = Some i"
    using inv pin by (auto simp: pins_inv_def)
  let ?e = "registry_entries reg ! i"
  have slot: "slot_ok rs os i ?e" using pins_inv_slot [OF inv i(1)] .
  then have ok: "pin_ok i ?e pin" using pin i(2) by (auto simp: slot_ok_def set_pins_on)
  have dec: "ck_connection_registry_decode_handle (pin_handle pin) = Some (i, entry_generation ?e)"
    using ok decode_make [OF i(1)] by (simp add: pin_ok_def)
  have ne: "pin \<noteq> empty_pin" using i(2) by (auto simp: empty_pin_def)
  show ?thesis
  proof (cases "pin' = empty_pin")
    case False
    with assms(3) inv show ?thesis
      by (auto simp: ck_connection_registry_output_release_def Let_def split: if_splits option.splits)
  next
    case True
    with assms(3) dec ne have reg': "reg' = put_entry reg i (?e\<lparr>entry_output_users := entry_output_users ?e - 1\<rparr>)"
      by (auto simp: ck_connection_registry_output_release_def Let_def split: if_splits)
    have "pin \<in> set (pins_on os i)" using pin i(2) by (simp add: set_pins_on)
    then have "(of_nat (length (remove1 pin (pins_on os i))) :: u32) = of_nat (length (pins_on os i)) - 1"
      by (cases "length (pins_on os i)") (auto simp: length_remove1)
    then have "slot_ok rs (remove1 pin os) i (?e\<lparr>entry_output_users := entry_output_users ?e - 1\<rparr>)"
      using slot i(2) by (auto simp: slot_ok_def pins_on_remove1 pin_ok_def
        dest: subsetD [OF set_remove1_subset])
    moreover have "slot_ok rs (remove1 pin os) j (registry_entries reg ! j)"
      if "j < CK_CONNECTION_REGISTRY_CAPACITY" "j \<noteq> i" for j
      using pins_inv_slot [OF inv that(1)] that(2) i(2) by (simp add: slot_ok_def pins_on_remove1)
    ultimately show ?thesis
      using inv True i(1) set_remove1_subset [of pin os]
      by (auto simp: pins_inv_def reg' put_entry_def nth_list_update length_remove1)
  qed
qed

lemma use_inv:
  assumes inv: "pins_inv reg rs os" and "pin \<in> set rs \<union> set os" and "pin_connection pin = Some i"
    and "conn_wf c" and "\<not> conn_closed c"
  shows "pins_inv (put_connection reg i c) rs os"
proof -
  have i: "i < CK_CONNECTION_REGISTRY_CAPACITY"
    using assms(1-3) unfolding pins_inv_def by (metis option.inject)
  show ?thesis
    unfolding put_connection_def
    using assms(4,5) by (intro pins_inv_put [OF inv i] slot_ok_connection pins_inv_slot [OF inv i]) simp_all
qed

lemma world_step_pins:
  assumes "world_step w w'"
    and "pins_inv (world_registry w) (world_readers w) (world_outputs w)"
  shows "pins_inv (world_registry w') (world_readers w') (world_outputs w')"
  using assms
proof (induction rule: world_step.induct)
  case register
  from register_inv [OF register.prems register.hyps] show ?case by simp
next
  case attach
  from attach_inv [OF attach.prems attach.hyps] show ?case by simp
next
  case start_cycle
  from start_cycle_inv [OF start_cycle.prems start_cycle.hyps] show ?case by simp
next
  case terminal
  from terminal_inv [OF terminal.prems terminal.hyps] show ?case by simp
next
  case close
  from close_inv [OF close.prems close.hyps] show ?case by simp
next
  case retire
  from retire_inv [OF retire.prems retire.hyps] show ?case by simp
next
  case reader_acquire
  from reader_acquire_inv [OF reader_acquire.prems reader_acquire.hyps] show ?case by simp
next
  case reader_release
  from reader_release_inv [OF reader_release.prems reader_release.hyps] show ?case by simp
next
  case output_acquire
  from output_acquire_inv [OF output_acquire.prems output_acquire.hyps] show ?case by simp
next
  case output_release
  from output_release_inv [OF output_release.prems output_release.hyps] show ?case by simp
next
  case use
  from use_inv [OF use.prems use.hyps] show ?case by simp
qed

lemma initial_pins:
  "pins_inv (world_registry initial_world) (world_readers initial_world) (world_outputs initial_world)"
  by (auto simp: pins_inv_def initial_world_def ck_connection_registry_init_def slot_ok_def zero_entry_def)

lemma reachable_pins:
  "world_step\<^sup>*\<^sup>* initial_world w \<Longrightarrow> pins_inv (world_registry w) (world_readers w) (world_outputs w)"
  by (induction rule: rtranclp_induct) (auto intro: initial_pins world_step_pins)

section \<open>Generations\<close>

lemma make_handle_inj:
  assumes "ck_connection_registry_make_handle i g = ck_connection_registry_make_handle j k"
    and "i < CK_CONNECTION_REGISTRY_CAPACITY" "g \<noteq> 0" "j < CK_CONNECTION_REGISTRY_CAPACITY" "k \<noteq> 0"
  shows "i = j \<and> g = k"
  using decode_make [OF assms(2,3)] decode_make [OF assms(4,5), folded assms(1)] by simp

lemma unat_next_generation:
  assumes "unat g < 2 ^ 32 - 1"
  shows "unat (next_generation g) = Suc (unat g)" and "next_generation g \<noteq> 0"
proof -
  have "unat (g + 1) = Suc (unat g)" using assms by (simp add: unat_word_ariths)
  moreover have "g + 1 \<noteq> 0"
  proof
    assume "g + 1 = 0"
    then have "unat (g + 1) = 0" by simp
    with calculation show False by linarith
  qed
  ultimately show "unat (next_generation g) = Suc (unat g)" and "next_generation g \<noteq> 0"
    by (simp_all add: next_generation_def)
qed

abbreviation slot_gen :: "ck_connection_registry \<Rightarrow> nat \<Rightarrow> u32" where
  "slot_gen reg i \<equiv> entry_generation (registry_entries reg ! i)"

abbreviation slot_active :: "ck_connection_registry \<Rightarrow> nat \<Rightarrow> bool" where
  "slot_active reg i \<equiv> entry_active (registry_entries reg ! i)"

definition issued_ok :: "ck_connection_registry \<Rightarrow> ck_connection_handle \<Rightarrow> bool" where
  "issued_ok reg h \<longleftrightarrow> (\<exists>i < CK_CONNECTION_REGISTRY_CAPACITY. \<exists>g. g \<noteq> 0
     \<and> h = ck_connection_registry_make_handle i g \<and> unat g \<le> unat (slot_gen reg i))"

definition retired_ok :: "ck_connection_registry \<Rightarrow> ck_connection_handle \<Rightarrow> bool" where
  "retired_ok reg h \<longleftrightarrow> (\<exists>i < CK_CONNECTION_REGISTRY_CAPACITY. \<exists>g. g \<noteq> 0
     \<and> h = ck_connection_registry_make_handle i g \<and> unat g \<le> unat (slot_gen reg i)
     \<and> (slot_gen reg i = g \<longrightarrow> \<not> slot_active reg i))"

definition handles_inv ::
  "ck_connection_registry \<Rightarrow> ck_connection_handle list \<Rightarrow> ck_connection_handle list \<Rightarrow> nat \<Rightarrow> bool" where
  "handles_inv reg issued retired n \<longleftrightarrow>
     length (registry_entries reg) = CK_CONNECTION_REGISTRY_CAPACITY
   \<and> (\<forall>i < CK_CONNECTION_REGISTRY_CAPACITY. unat (slot_gen reg i) \<le> n
        \<and> (slot_active reg i \<longrightarrow> ck_connection_registry_make_handle i (slot_gen reg i) \<in> set issued))
   \<and> distinct issued
   \<and> (\<forall>h \<in> set issued. issued_ok reg h) \<and> (\<forall>h \<in> set retired. retired_ok reg h)"

text \<open>A slot may only move to a later generation, or be given up in the present one.\<close>

definition slots_advance :: "ck_connection_registry \<Rightarrow> ck_connection_registry \<Rightarrow> bool" where
  "slots_advance reg reg' \<longleftrightarrow> (\<forall>i. unat (slot_gen reg i) < unat (slot_gen reg' i)
     \<or> (slot_gen reg' i = slot_gen reg i \<and> (slot_active reg' i \<longrightarrow> slot_active reg i)))"

lemma advance_issued_ok:
  assumes "slots_advance reg reg'" and "issued_ok reg h"
  shows "issued_ok reg' h"
proof -
  obtain i g where ig: "i < CK_CONNECTION_REGISTRY_CAPACITY" "g \<noteq> 0"
      "h = ck_connection_registry_make_handle i g" "unat g \<le> unat (slot_gen reg i)"
    using assms(2) by (auto simp: issued_ok_def)
  moreover have "unat (slot_gen reg i) \<le> unat (slot_gen reg' i)"
    using assms(1) unfolding slots_advance_def by (metis le_refl less_imp_le)
  ultimately show ?thesis unfolding issued_ok_def by (blast intro: le_trans)
qed

lemma advance_retired_ok:
  assumes "slots_advance reg reg'" and "retired_ok reg h"
  shows "retired_ok reg' h"
proof -
  obtain i g where ig: "i < CK_CONNECTION_REGISTRY_CAPACITY" "g \<noteq> 0"
      "h = ck_connection_registry_make_handle i g" "unat g \<le> unat (slot_gen reg i)"
      "slot_gen reg i = g \<longrightarrow> \<not> slot_active reg i"
    using assms(2) by (auto simp: retired_ok_def)
  have "unat (slot_gen reg i) < unat (slot_gen reg' i)
      \<or> (slot_gen reg' i = slot_gen reg i \<and> (slot_active reg' i \<longrightarrow> slot_active reg i))"
    using assms(1) by (simp add: slots_advance_def)
  then have "unat g \<le> unat (slot_gen reg' i) \<and> (slot_gen reg' i = g \<longrightarrow> \<not> slot_active reg' i)"
    using ig(4,5) by auto
  with ig(1-3) show ?thesis unfolding retired_ok_def by blast
qed

text \<open>Operations that touch neither a generation nor an active flag.\<close>

definition same_slots :: "ck_connection_registry \<Rightarrow> ck_connection_registry \<Rightarrow> bool" where
  "same_slots reg reg' \<longleftrightarrow> length (registry_entries reg') = length (registry_entries reg)
     \<and> (\<forall>i. slot_gen reg' i = slot_gen reg i \<and> slot_active reg' i = slot_active reg i)"

lemma same_slots_refl [simp]: "same_slots reg reg"
  by (simp add: same_slots_def)

lemma same_slots_put:
  assumes "entry_generation e = slot_gen reg i" and "entry_active e = slot_active reg i"
  shows "same_slots reg (put_entry reg i e)"
proof -
  have "slot_gen (put_entry reg i e) j = slot_gen reg j \<and> slot_active (put_entry reg i e) j = slot_active reg j" for j
    using assms by (cases "j = i \<and> i < length (registry_entries reg)")
      (auto simp: put_entry_def nth_list_update list_update_beyond)
  then show ?thesis by (simp add: same_slots_def put_entry_def)
qed

lemma same_slots_inv:
  assumes "handles_inv reg issued retired n" and "same_slots reg reg'" and "n \<le> n'"
  shows "handles_inv reg' issued retired n'"
proof -
  have "length (registry_entries reg') = length (registry_entries reg)"
    "slot_gen reg' i = slot_gen reg i" "slot_active reg' i = slot_active reg i" for i
    using assms(2) by (simp_all add: same_slots_def)
  moreover have "unat w \<le> n \<Longrightarrow> unat w \<le> n'" for w :: u32 using assms(3) by simp
  ultimately show ?thesis using assms(1) unfolding handles_inv_def issued_ok_def retired_ok_def by simp
qed

lemma with_entry_same_slots:
  assumes "with_entry n m reg handle validate f = (r, reg', out)"
    and "\<And>i r reg' out. f i (registry_entries reg ! i) = (r, reg', out) \<Longrightarrow> same_slots reg reg'"
  shows "same_slots reg reg'"
  using with_entry_cases [OF assms(1)] assms(2) by auto

lemma same_slots_put_connection [simp]: "same_slots reg (put_connection reg i c)"
  unfolding put_connection_def by (rule same_slots_put) simp_all

lemma attach_socket_same_slots:
  "ck_connection_registry_attach_socket False m reg handle rid ot lt fd = (r, reg', u) \<Longrightarrow> same_slots reg reg'"
  unfolding ck_connection_registry_attach_socket_def
  by (erule with_entry_same_slots) (auto split: if_splits prod.splits intro!: same_slots_put)

lemma start_async_cycle_same_slots:
  "ck_connection_registry_start_async_cycle False m reg handle rid ot lt n = (r, reg', u) \<Longrightarrow> same_slots reg reg'"
  unfolding ck_connection_registry_start_async_cycle_def
  by (erule with_entry_same_slots) (auto split: if_splits prod.splits intro!: same_slots_put)

lemma try_terminal_same_slots:
  "ck_connection_registry_try_terminal False m reg handle rid ot lt n e = (r, reg', u) \<Longrightarrow> same_slots reg reg'"
  unfolding ck_connection_registry_try_terminal_def
  by (erule with_entry_same_slots) (auto split: if_splits prod.splits intro!: same_slots_put)

lemma reader_acquire_same_slots:
  "ck_connection_registry_reader_acquire False m reg handle rid ot lt pin = (r, reg', p) \<Longrightarrow> same_slots reg reg'"
  unfolding ck_connection_registry_reader_acquire_def
  by (erule with_entry_same_slots) (auto split: if_splits prod.splits intro!: same_slots_put)

lemma output_acquire_same_slots:
  "ck_connection_registry_output_acquire False m reg handle rid ot lt pin = (r, reg', p) \<Longrightarrow> same_slots reg reg'"
  unfolding ck_connection_registry_output_acquire_def
  by (erule with_entry_same_slots) (auto split: if_splits prod.splits intro!: same_slots_put)

lemma close_same_slots:
  "ck_connection_registry_close False m res reg handle rid ot lt = (r, reg', fd) \<Longrightarrow> same_slots reg reg'"
  unfolding ck_connection_registry_close_def
  by (erule with_entry_same_slots) (auto split: if_splits prod.splits)

lemma reader_release_same_slots:
  "ck_connection_registry_reader_release False m reg pin = (r, reg', pin') \<Longrightarrow> same_slots reg reg'"
  by (auto simp: ck_connection_registry_reader_release_def Let_def split: if_splits option.splits
      intro!: same_slots_put)

lemma output_release_same_slots:
  "ck_connection_registry_output_release False m reg pin = (r, reg', pin') \<Longrightarrow> same_slots reg reg'"
  by (auto simp: ck_connection_registry_output_release_def Let_def split: if_splits option.splits
      intro!: same_slots_put)

lemma put_entry_slots:
  assumes "i < length (registry_entries reg)"
  shows "length (registry_entries (put_entry reg i e)) = length (registry_entries reg)"
    and "slot_gen (put_entry reg i e) j = (if j = i then entry_generation e else slot_gen reg j)"
    and "slot_active (put_entry reg i e) j = (if j = i then entry_active e else slot_active reg j)"
  using assms by (simp_all add: put_entry_def nth_list_update)

lemma register_handles:
  assumes inv: "handles_inv reg issued retired n" and n: "n < 2 ^ 32 - 1"
    and "ck_connection_registry_register False m mr mw mb mp reg cid rid ot lt = (r, reg', h)"
  shows "handles_inv reg' (issued @ (case h of None \<Rightarrow> [] | Some x \<Rightarrow> [x])) retired (Suc n)"
  using register_cases [OF assms(3)]
proof (elim disjE conjE exE)
  assume "reg' = reg" "h = None"
  with same_slots_inv [OF inv same_slots_refl, of "Suc n"] show ?thesis by simp
next
  fix i e
  assume i: "i < length (registry_entries reg)" and reg': "reg' = put_entry reg i e"
    and gen: "entry_generation e = next_generation (slot_gen reg i)"
    and out: "if entry_active e then conn_wf (entry_connection e)
        \<and> h = Some (ck_connection_registry_make_handle i (entry_generation e)) else h = None"
  note slots = put_entry_slots [OF i, of e, folded reg']
  have cap: "length (registry_entries reg) = CK_CONNECTION_REGISTRY_CAPACITY"
    using inv by (simp add: handles_inv_def)
  have le: "unat (slot_gen reg j) \<le> n" if "j < CK_CONNECTION_REGISTRY_CAPACITY" for j
    using inv that by (simp add: handles_inv_def)
  have up: "unat (entry_generation e) = Suc (unat (slot_gen reg i))" "entry_generation e \<noteq> 0"
    unfolding gen using unat_next_generation [of "slot_gen reg i"] le [of i] n i cap by linarith+
  have adv: "slots_advance reg reg'" using up(1) by (auto simp: slots_advance_def slots)
  have fresh: "ck_connection_registry_make_handle i (entry_generation e) \<notin> set issued"
  proof
    assume "ck_connection_registry_make_handle i (entry_generation e) \<in> set issued"
    then obtain j g where jg: "j < CK_CONNECTION_REGISTRY_CAPACITY" "g \<noteq> 0" "unat g \<le> unat (slot_gen reg j)"
        "ck_connection_registry_make_handle i (entry_generation e) = ck_connection_registry_make_handle j g"
      using inv by (auto simp: handles_inv_def issued_ok_def)
    with make_handle_inj [OF jg(4)] i cap up show False by auto
  qed
  have "issued_ok reg' (ck_connection_registry_make_handle i (entry_generation e))"
    unfolding issued_ok_def using i cap up(2)
    by (intro exI [of _ i] conjI exI [of _ "entry_generation e"]) (simp_all add: slots)
  moreover have "unat (slot_gen reg' j) \<le> Suc n
      \<and> (slot_active reg' j \<longrightarrow> ck_connection_registry_make_handle j (slot_gen reg' j)
           \<in> set issued \<union> (case h of None \<Rightarrow> {} | Some x \<Rightarrow> {x}))" if "j < CK_CONNECTION_REGISTRY_CAPACITY" for j
    using inv that le [of j] le [of i] up(1) i cap out unfolding handles_inv_def slots
    by (auto split: if_splits option.splits intro: le_SucI)
  moreover have "h = None \<or> h = Some (ck_connection_registry_make_handle i (entry_generation e))"
    using out by (auto split: if_splits)
  ultimately show ?thesis
    using inv fresh slots(1) cap advance_issued_ok [OF adv] advance_retired_ok [OF adv]
    unfolding handles_inv_def by (cases h) auto
qed

lemma retire_handles:
  assumes inv: "handles_inv reg issued retired n"
    and "ck_connection_registry_retire False m reg handle rid ot lt = (r, reg', u)"
  shows "handles_inv reg' issued (retired @
    (if ck_connection_registry_find reg handle \<noteq> None \<and> ck_connection_registry_find reg' handle = None
     then [handle] else [])) n"
  using retire_cases [OF assms(2)]
proof (elim disjE conjE exE)
  assume "reg' = reg"
  with inv show ?thesis by auto
next
  fix i assume f: "ck_connection_registry_find reg handle = Some i"
    and reg': "reg' = put_entry reg i ((registry_entries reg ! i)\<lparr>entry_active := False\<rparr>)"
  note fs = find_Some [OF f]
  have cap: "length (registry_entries reg) = CK_CONNECTION_REGISTRY_CAPACITY"
    using inv by (simp add: handles_inv_def)
  then have i: "i < length (registry_entries reg)" using fs(1) by simp
  note slots = put_entry_slots [OF i, of "(registry_entries reg ! i)\<lparr>entry_active := False\<rparr>", folded reg']
  have adv: "slots_advance reg reg'" by (auto simp: slots_advance_def slots)
  have "retired_ok reg' handle"
    unfolding retired_ok_def using fs
    by (intro exI [of _ i] conjI exI [of _ "slot_gen reg i"]) (simp_all add: slots)
  moreover have "unat (slot_gen reg' j) \<le> n
      \<and> (slot_active reg' j \<longrightarrow> ck_connection_registry_make_handle j (slot_gen reg' j) \<in> set issued)"
    if "j < CK_CONNECTION_REGISTRY_CAPACITY" for j
    using inv that by (auto simp: handles_inv_def slots)
  ultimately show ?thesis
    using inv cap slots(1) advance_issued_ok [OF adv] advance_retired_ok [OF adv]
    unfolding handles_inv_def by auto
qed

lemma world_step_handles:
  assumes "world_step w w'"
    and "handles_inv (world_registry w) (world_issued w) (world_retired w) (world_registrations w)"
    and "world_registrations w' < 2 ^ 32"
  shows "handles_inv (world_registry w') (world_issued w') (world_retired w') (world_registrations w')"
  using assms
proof (induction rule: world_step.induct)
  case register
  from register.prems(2) register_handles [OF register.prems(1) _ register.hyps] show ?case by simp
next
  case retire
  from retire_handles [OF retire.prems(1) retire.hyps] show ?case by simp
next
  case attach
  from same_slots_inv [OF attach.prems(1) attach_socket_same_slots [OF attach.hyps] order_refl] show ?case by simp
next
  case start_cycle
  from same_slots_inv [OF start_cycle.prems(1) start_async_cycle_same_slots [OF start_cycle.hyps] order_refl] show ?case by simp
next
  case terminal
  from same_slots_inv [OF terminal.prems(1) try_terminal_same_slots [OF terminal.hyps] order_refl] show ?case by simp
next
  case close
  from same_slots_inv [OF close.prems(1) close_same_slots [OF close.hyps] order_refl] show ?case by simp
next
  case reader_acquire
  from same_slots_inv [OF reader_acquire.prems(1) reader_acquire_same_slots [OF reader_acquire.hyps(2)] order_refl] show ?case by simp
next
  case reader_release
  from same_slots_inv [OF reader_release.prems(1) reader_release_same_slots [OF reader_release.hyps(2)] order_refl] show ?case by simp
next
  case output_acquire
  from same_slots_inv [OF output_acquire.prems(1) output_acquire_same_slots [OF output_acquire.hyps(2)] order_refl] show ?case by simp
next
  case output_release
  from same_slots_inv [OF output_release.prems(1) output_release_same_slots [OF output_release.hyps(2)] order_refl] show ?case by simp
next
  case use
  from same_slots_inv [OF use.prems(1) same_slots_put_connection order_refl] show ?case by simp
qed

lemma world_step_registrations: "world_step w w' \<Longrightarrow> world_registrations w \<le> world_registrations w'"
  by (induction rule: world_step.induct) simp_all

lemma initial_handles: "handles_inv (world_registry initial_world) [] [] 0"
  by (simp add: handles_inv_def initial_world_def ck_connection_registry_init_def zero_entry_def)

lemma reachable_handles:
  "world_step\<^sup>*\<^sup>* initial_world w \<Longrightarrow> world_registrations w < 2 ^ 32 \<Longrightarrow>
   handles_inv (world_registry w) (world_issued w) (world_retired w) (world_registrations w)"
proof (induction rule: rtranclp_induct)
  case base
  then show ?case using initial_handles by (simp add: initial_world_def)
next
  case (step w w')
  then show ?case
    using world_step_handles [OF step.hyps(2)] world_step_registrations [OF step.hyps(2)] by simp
qed

section \<open>Properties\<close>


text \<open>
  C15. Handles are never confused: as long as fewer than \<open>2\<^sup>3\<^sup>2\<close> registrations have been attempted,
  all issued handles are distinct, a retired handle never resolves again even when its slot is
  registered anew, and every handle that resolves has been issued.
\<close>

theorem handles_never_reused:
  assumes "world_step\<^sup>*\<^sup>* initial_world w" and "world_registrations w < 2 ^ 32"
  shows "distinct (world_issued w)
    \<and> (\<forall>h \<in> set (world_retired w). ck_connection_registry_find (world_registry w) h = None)
    \<and> (\<forall>h. ck_connection_registry_find (world_registry w) h \<noteq> None \<longrightarrow> h \<in> set (world_issued w))"
proof -
  let ?reg = "world_registry w"
  have inv: "handles_inv ?reg (world_issued w) (world_retired w) (world_registrations w)"
    using reachable_handles [OF assms] .
  have "ck_connection_registry_find ?reg h = None" if "h \<in> set (world_retired w)" for h
    using inv that find_make by (auto simp: handles_inv_def retired_ok_def)
  moreover have "h \<in> set (world_issued w)" if "ck_connection_registry_find ?reg h = Some i" for h i
    using inv find_Some [OF that] by (auto simp: handles_inv_def)
  ultimately show ?thesis using inv by (auto simp: handles_inv_def)
qed

text \<open>
  A handle is an exact encoding of a slot and a non-zero generation: decoding succeeds on
  precisely the handles that \<open>make_handle\<close> produces for the 256 slots, and gives back the slot
  and the generation.
\<close>

theorem handle_exact:
  "ck_connection_registry_decode_handle h = Some (index, generation) \<longleftrightarrow>
     index < CK_CONNECTION_REGISTRY_CAPACITY \<and> generation \<noteq> 0
     \<and> h = ck_connection_registry_make_handle index generation"
  by (metis decode_make make_decode)

text \<open>
  Registration: with the lock, valid ids and memory available, it fails exactly when all 256
  slots are active; otherwise it returns a handle that was never issued before (within the
  generation bound), that resolves to a fresh open connection with the given tokens, and the
  number of active slots grows by one.
\<close>

theorem register_resolves:
  assumes "length (registry_entries reg) = CK_CONNECTION_REGISTRY_CAPACITY" and "registry_initialized reg"
    and "lock_result m = 0" and "unlock_result m = 0" and "cid \<noteq> 0" and "rid \<noteq> 0"
  shows "case ck_connection_registry_register False m (Some r) (Some wr) (Some b) (Some resp) reg cid rid ot lt of
      (code, reg', out) \<Rightarrow>
        if list_all entry_active (registry_entries reg) then code = ENOSPC \<and> reg' = reg \<and> out = None
        else code = 0 \<and> (\<exists>h i. out = Some h \<and> ck_connection_registry_find reg' h = Some i
          \<and> ck_connection_state (Some (entry_connection (registry_entries reg' ! i))) = CK_CONNECTION_OPEN
          \<and> ck_connection_validate False (entry_connection (registry_entries reg' ! i)) rid ot lt = 0
          \<and> ck_connection_registry_active_count False m reg'
              = ck_connection_registry_active_count False m reg + 1)"
proof (cases "first_inactive (registry_entries reg) 0")
  case None
  have "first_inactive es k = None \<Longrightarrow> list_all entry_active es" for es k
    by (induction es k rule: first_inactive.induct) (auto split: if_splits)
  with None assms show ?thesis by (simp add: ck_connection_registry_register_def)
next
  case (Some i)
  note slot = first_inactive_Some [OF Some]
  then have i: "i < length (registry_entries reg)" "i < CK_CONNECTION_REGISTRY_CAPACITY"
    and idle: "\<not> entry_active (registry_entries reg ! i)" using assms(1) by simp_all
  then have some: "\<not> list_all entry_active (registry_entries reg)" by (auto simp: list_all_length)
  let ?g = "next_generation (slot_gen reg i)"
  have g: "?g \<noteq> 0" by (simp add: next_generation_def)
  obtain c where init: "ck_connection_init False (Some r) (Some wr) (Some b) (Some resp)
      (entry_connection (registry_entries reg ! i)) cid rid ot lt = (0, c)"
    and ids: "conn_request_id c = rid" "conn_owner_token c = ot" "conn_lifetime_token c = lt"
    using assms(5,6) by (simp add: ck_connection_init_def Let_def)
  let ?e = "(registry_entries reg ! i)\<lparr>entry_generation := ?g, entry_reader_users := 0,
      entry_output_users := 0, entry_connection := c, entry_active := True\<rparr>"
  have res: "ck_connection_registry_register False m (Some r) (Some wr) (Some b) (Some resp) reg cid rid ot lt
      = (0, put_entry reg i ?e, Some (ck_connection_registry_make_handle i ?g))"
    using assms Some init by (simp add: ck_connection_registry_register_def Let_def next_generation_def)
  have "ck_connection_registry_find (put_entry reg i ?e) (ck_connection_registry_make_handle i ?g) = Some i"
    using i find_make [OF i(2) g] by (simp add: put_entry_def)
  moreover have "ck_connection_state (Some c) = CK_CONNECTION_OPEN"
    using conn_init_wf [OF init] by (simp add: conn_state_life)
  moreover have "length (filter entry_active ((registry_entries reg)[i := ?e]))
      = Suc (length (filter entry_active (registry_entries reg)))"
    using idle by (subst (2) id_take_nth_drop [OF i(1)]) (simp add: upd_conv_take_nth_drop [OF i(1)])
  ultimately show ?thesis
    using res some i ids assms
    by (auto simp: put_entry_def ck_connection_validate_def ck_connection_registry_active_count_def)
qed

text \<open>
  A connection that has not started an async cycle cannot be ended through the registry: its
  cycle id is 0, which \<open>try_terminal\<close> never accepts, so no event can be recorded, and close
  without an event refuses.
\<close>

theorem open_connection_not_terminable:
  assumes "ck_connection_registry_find reg h = Some i"
    and "conn_lifecycle (entry_connection (registry_entries reg ! i)) = ck_connection_pack CK_CONNECTION_OPEN (-1) 0"
  shows "fst (ck_connection_registry_try_terminal False m reg h rid ot lt n e) < 0
    \<and> fst (snd (ck_connection_registry_try_terminal False m reg h rid ot lt n e)) = reg
    \<and> fst (ck_connection_registry_close False m res reg h rid ot lt) \<noteq> 0"
proof -
  let ?c = "entry_connection (registry_entries reg ! i)"
  have code: "conn_lifecycle ?c = life_code Life_open" using assms(2) by simp
  have "ck_connection_unpack_cycle (conn_lifecycle ?c) = 0"
    unfolding code by (simp only: unpack_life_code life_ok.simps life_cycle.simps)
  then have "ck_connection_validate_cycle False ?c rid ot lt n \<noteq> 0"
    by (auto simp: ck_connection_validate_cycle_def ck_connection_valid_cycle_id_def)
  moreover have "close_decide (conn_lifecycle ?c) = Inl 1"
    unfolding code using close_decide_life [of Life_open] by simp
  ultimately show ?thesis
    using assms(1)
    by (auto simp: ck_connection_registry_try_terminal_def ck_connection_registry_close_def with_entry_def
        ck_connection_close_def)
qed

section \<open>Witnesses\<close>

definition sample_entry :: ck_connection_registry_entry where
  "sample_entry = \<lparr>entry_connection = sample_connection, entry_generation = 1, entry_reader_users = 0,
     entry_output_users = 0, entry_active = True\<rparr>"

definition sample_registry :: ck_connection_registry where
  "sample_registry = put_entry (world_registry initial_world) 0 sample_entry"

definition sample_handle :: ck_connection_handle where
  "sample_handle = ck_connection_registry_make_handle 0 1"

lemma sample_find: "ck_connection_registry_find sample_registry sample_handle = Some 0"
  unfolding sample_handle_def
  by (subst find_make) (simp_all add: CK_CONNECTION_REGISTRY_CAPACITY_def sample_registry_def
    put_entry_def initial_world_def ck_connection_registry_init_def sample_entry_def)

lemma sample_slot: "registry_entries sample_registry ! 0 = sample_entry"
  by (simp add: sample_registry_def put_entry_def initial_world_def ck_connection_registry_init_def
    CK_CONNECTION_REGISTRY_CAPACITY_def)

lemma sample_register:
  "ck_connection_registry_register False quiet_mutex (Some sample_reader) (Some sample_writer)
     (Some sample_body) (Some sample_response) (world_registry initial_world) 1 1 7 7
   = (0, sample_registry, Some sample_handle)"
proof -
  have "first_inactive (replicate (Suc 255) zero_entry) 0 = Some 0"
    by (simp only: replicate_Suc first_inactive.simps) (simp add: zero_entry_def)
  then have f: "first_inactive (registry_entries (world_registry initial_world)) 0 = Some 0"
    by (simp add: initial_world_def ck_connection_registry_init_def CK_CONNECTION_REGISTRY_CAPACITY_def)
  have e: "registry_entries (world_registry initial_world) ! 0 = zero_entry"
    by (simp add: initial_world_def ck_connection_registry_init_def CK_CONNECTION_REGISTRY_CAPACITY_def)
  have "registry_initialized (world_registry initial_world)"
    by (simp add: initial_world_def ck_connection_registry_init_def)
  then show ?thesis
    by (simp add: ck_connection_registry_register_def f e Let_def zero_entry_def sample_init sample_registry_def sample_handle_def sample_entry_def)
qed

lemma sample_open: "ck_connection_state (Some sample_connection) = CK_CONNECTION_OPEN"
  using conn_init_wf [OF sample_init] by (simp add: conn_state_life)

lemma sample_tokens: "ck_connection_validate False sample_connection 1 7 7 = 0"
  "conn_http_reader sample_connection \<noteq> None"
  by (simp_all add: sample_connection_def ck_connection_init_def Let_def ck_connection_validate_def)

definition sample_pin :: ck_connection_registry_pin where
  "sample_pin = \<lparr>pin_connection = Some 0, pin_block = Some (0, 1), pin_handle = sample_handle\<rparr>"

definition sample_world :: registry_world where
  "sample_world = initial_world\<lparr>world_registry := put_entry sample_registry 0 (sample_entry\<lparr>entry_reader_users := 1\<rparr>),
     world_issued := [sample_handle], world_readers := [sample_pin], world_registrations := 1\<rparr>"

lemma sample_reachable: "world_step\<^sup>*\<^sup>* initial_world sample_world"
proof -
  let ?w1 = "initial_world\<lparr>world_registry := sample_registry, world_issued := [sample_handle],
      world_registrations := 1\<rparr>"
  have "world_step initial_world ?w1"
    using world_step.register [OF sample_register] by (simp add: initial_world_def)
  moreover have "ck_connection_registry_reader_acquire False quiet_mutex sample_registry sample_handle 1 7 7
      empty_pin = (0, put_entry sample_registry 0 (sample_entry\<lparr>entry_reader_users := 1\<rparr>), Some sample_pin)"
    using sample_find sample_open sample_tokens
    by (auto simp: ck_connection_registry_reader_acquire_def with_entry_def sample_slot sample_entry_def
        pin_in_use_def empty_pin_def reader_address_def sample_pin_def sample_registry_def put_entry_def
        connection_consts initial_world_def ck_connection_registry_init_def CK_CONNECTION_REGISTRY_CAPACITY_def)
  then have "world_step ?w1 sample_world"
    using world_step.reader_acquire [of ?w1 quiet_mutex sample_handle 1 7 7]
    by (simp add: sample_world_def initial_world_def PIN_LIMIT_def)
  ultimately show ?thesis by simp
qed


theorem handles_never_reused_witness: "distinct (world_issued sample_world)"
  using handles_never_reused [OF sample_reachable] by (simp add: sample_world_def)

theorem register_resolves_witness:
  "case ck_connection_registry_register False quiet_mutex (Some sample_reader) (Some sample_writer)
     (Some sample_body) (Some sample_response) (world_registry initial_world) 1 1 7 7 of
     (code, reg', out) \<Rightarrow> code = (if list_all entry_active (registry_entries (world_registry initial_world))
       then ENOSPC else 0)"
  using register_resolves [where reg = "world_registry initial_world" and m = quiet_mutex and cid = 1
      and rid = 1 and r = sample_reader and wr = sample_writer and b = sample_body
      and resp = sample_response and ot = 7 and lt = 7]
  by (auto simp: initial_world_def ck_connection_registry_init_def split: prod.splits if_splits)

theorem open_connection_not_terminable_witness:
  "fst (ck_connection_registry_try_terminal False quiet_mutex sample_registry sample_handle 1 7 7 1 1) < 0"
proof -
  have "conn_lifecycle (entry_connection (registry_entries sample_registry ! 0))
      = ck_connection_pack CK_CONNECTION_OPEN (-1) 0"
    by (simp add: sample_slot sample_entry_def sample_connection_def ck_connection_init_def Let_def)
  from open_connection_not_terminable [OF sample_find this] show ?thesis by blast
qed

end
