(* ===== verification/Ck_Async_Bridge.thy ===== *)
theory Ck_Async_Bridge
  imports Ck_Registry_Safe
begin

text \<open>
  The native side of Java's asynchronous cycles, \<open>c/jni/ck_async_bridge.c\<close>: two static native methods
  over the connection registry, and the registration of their table.

  A \<open>jlong\<close> is an \<open>int\<close> in the signed 64-bit range, and Java holds a 64-bit handle as its signed
  value.  The registry pointer behind \<open>registry_handle\<close> is the argument \<open>registry\<close>.
\<close>

section \<open>The native methods\<close>

definition CK_CONNECTION_TERMINAL_CLIENT_DISCONNECT :: int where "CK_CONNECTION_TERMINAL_CLIENT_DISCONNECT = 1"
definition CK_CONNECTION_TERMINAL_TIMEOUT :: int where "CK_CONNECTION_TERMINAL_TIMEOUT = 2"
definition CK_CONNECTION_TERMINAL_ERROR :: int where "CK_CONNECTION_TERMINAL_ERROR = 3"

text \<open>The address of the registry, if the handle can be one.\<close>

definition ck_jni_registry_from_handle :: "int \<Rightarrow> u64 option" where
  "ck_jni_registry_from_handle registry_handle =
    (if registry_handle \<le> 0 then None else Some (word_of_int registry_handle))"

definition ck_native_start_async_cycle ::
  "mutex_calls \<Rightarrow> ck_connection_registry \<Rightarrow> int \<Rightarrow> int \<Rightarrow> int \<Rightarrow> int \<Rightarrow> int \<Rightarrow> int
   \<Rightarrow> int \<times> ck_connection_registry" where
  "ck_native_start_async_cycle m registry registry_handle connection_handle request_id owner_token
     lifetime_token cycle_id =
    (if ck_jni_registry_from_handle registry_handle = None \<or> connection_handle \<le> 0
        \<or> request_id \<le> 0 \<or> owner_token < 0 \<or> lifetime_token < 0 \<or> cycle_id \<le> 0
     then (-1, registry)
     else
       case ck_connection_registry_start_async_cycle False m registry (word_of_int connection_handle)
              (word_of_int request_id) (word_of_int owner_token) (word_of_int lifetime_token)
              (word_of_int cycle_id) of
         (result, registry1, _) \<Rightarrow> (result, registry1))"

definition ck_native_try_terminal ::
  "mutex_calls \<Rightarrow> ck_connection_registry \<Rightarrow> int \<Rightarrow> int \<Rightarrow> int \<Rightarrow> int \<Rightarrow> int \<Rightarrow> int \<Rightarrow> int
   \<Rightarrow> int \<times> ck_connection_registry" where
  "ck_native_try_terminal m registry registry_handle connection_handle request_id owner_token
     lifetime_token cycle_id event =
    (if ck_jni_registry_from_handle registry_handle = None \<or> connection_handle \<le> 0
        \<or> request_id \<le> 0 \<or> owner_token < 0 \<or> lifetime_token < 0 \<or> cycle_id \<le> 0
        \<or> event < CK_CONNECTION_TERMINAL_COMPLETE \<or> event > CK_CONNECTION_TERMINAL_SHUTDOWN
     then (-1, registry)
     else
       case ck_connection_registry_try_terminal False m registry (word_of_int connection_handle)
              (word_of_int request_id) (word_of_int owner_token) (word_of_int lifetime_token)
              (word_of_int cycle_id) event of
         (result, registry1, _) \<Rightarrow> (result, registry1))"

text \<open>
  Registration; the class lookup and \<open>RegisterNatives\<close> are arguments.  The second component is the
  number of local references the call leaves behind.
\<close>

definition ck_jni_async_bridge_register :: "bool \<Rightarrow> bool \<Rightarrow> bool \<Rightarrow> int \<times> nat" where
  "ck_jni_async_bridge_register null_env class_found register_ok =
    (if null_env then (-1, 0)
     else if \<not> class_found then (-1, 0)
     else
       let refs = 1 :: nat in
       if \<not> register_ok then (-1, refs - 1)
       else (0, refs - 1))"

text \<open>Java's \<open>CkartaAsyncContext.TerminalEvent\<close>, which is passed by its ordinal.\<close>

datatype terminal_event = COMPLETE | TIMEOUT | ERROR | CLIENT_DISCONNECT | SHUTDOWN

fun ordinal :: "terminal_event \<Rightarrow> int" where
  "ordinal COMPLETE = 0"
| "ordinal TIMEOUT = 1"
| "ordinal ERROR = 2"
| "ordinal CLIENT_DISCONNECT = 3"
| "ordinal SHUTDOWN = 4"

text \<open>The event of the same name in C.\<close>

fun native_event :: "terminal_event \<Rightarrow> int" where
  "native_event COMPLETE = CK_CONNECTION_TERMINAL_COMPLETE"
| "native_event TIMEOUT = CK_CONNECTION_TERMINAL_TIMEOUT"
| "native_event ERROR = CK_CONNECTION_TERMINAL_ERROR"
| "native_event CLIENT_DISCONNECT = CK_CONNECTION_TERMINAL_CLIENT_DISCONNECT"
| "native_event SHUTDOWN = CK_CONNECTION_TERMINAL_SHUTDOWN"

section \<open>Properties\<close>

lemma sint_zero: "sint (w :: u64) = 0 \<longleftrightarrow> w = 0"
proof
  assume "sint w = 0"
  then have "word_of_int (sint w) = (0 :: u64)" by simp
  then show "w = 0" by simp
qed simp

lemma make_handle_sign:
  assumes "index < CK_CONNECTION_REGISTRY_CAPACITY"
  shows "sint (ck_connection_registry_make_handle index generation) < 0 \<longleftrightarrow> bit generation 31"
proof -
  have "\<not> bit (of_nat (Suc index) :: u64) 63"
  proof -
    have "take_bit 32 (of_nat (Suc index) :: u64) = of_nat (Suc index)"
      using assms by (intro take_bit_small) (simp add: CK_CONNECTION_REGISTRY_CAPACITY_def)
    then have "bit (of_nat (Suc index) :: u64) 63 \<longleftrightarrow> bit (take_bit 32 (of_nat (Suc index) :: u64)) 63" by simp
    then show ?thesis by (simp add: bit_take_bit_iff)
  qed
  then have "\<not> bit (of_nat index + 1 :: u64) 63" by (simp add: add.commute)
  then have "bit (ck_connection_registry_make_handle index generation) 63 \<longleftrightarrow> bit generation 31"
    by (simp add: ck_connection_registry_make_handle_def bit_or_iff bit_push_bit_iff bit_unsigned_iff)
  then show ?thesis using bit_last_iff [of "ck_connection_registry_make_handle index generation"] by simp
qed

text \<open>
  C35. Which handles Java can use: a handle, passed as the signed number that Java holds, reaches the
  registry unchanged exactly while the generation of its slot is below \<open>2\<^sup>3\<^sup>1\<close>; from there on the
  bridge refuses every call on the slot although the registry would accept it.
\<close>

theorem bridge_handle_range:
  assumes "index < CK_CONNECTION_REGISTRY_CAPACITY" "generation \<noteq> 0"
    and "0 < rh" "0 < rid" "0 \<le> ot" "0 \<le> lt" "0 < n"
    and "h = ck_connection_registry_make_handle index generation"
  shows "ck_native_start_async_cycle m reg rh (sint h) rid ot lt n =
    (if unat generation < 2 ^ 31
     then (case ck_connection_registry_start_async_cycle False m reg h (word_of_int rid) (word_of_int ot)
             (word_of_int lt) (word_of_int n) of (r, reg', _) \<Rightarrow> (r, reg'))
     else (-1, reg))"
proof -
  have sign: "sint h < 0 \<longleftrightarrow> bit generation 31" using make_handle_sign assms(1,8) by blast
  have "bit generation 31 \<longleftrightarrow> \<not> unat generation < 2 ^ 31"
  proof -
    have "bit generation 31 \<longleftrightarrow> odd (unat generation div 2 ^ 31)"
      using bit_iff_odd [of "unat generation" 31] by (simp add: bit_unsigned_iff)
    moreover have "unat generation < 2 ^ 32" using unsigned_less [of generation] by simp
    then have "unat generation div 2 ^ 31 < 2" by simp
    then have "odd (unat generation div 2 ^ 31) \<longleftrightarrow> unat generation div 2 ^ 31 \<noteq> 0"
      by (metis One_nat_def dvd_0_right less_2_cases odd_one)
    ultimately show ?thesis by (simp add: div_eq_0_iff)
  qed
  moreover have "h \<noteq> 0"
    using decode_make [OF assms(1,2)] assms(8) by (auto simp: ck_connection_registry_decode_handle_def)
  then have "sint h \<noteq> 0" by (simp add: sint_zero)
  ultimately show ?thesis
    using sign assms(3-7) by (auto simp: ck_native_start_async_cycle_def ck_jni_registry_from_handle_def)
qed

theorem bridge_handle_range_witness:
  "ck_native_start_async_cycle quiet_mutex sample_registry 4096 (sint (ck_connection_registry_make_handle 0 0x80000000))
     1 7 7 1 = (-1, sample_registry)"
  using bridge_handle_range [of 0 "0x80000000" 4096 1 7 7 1 _ quiet_mutex sample_registry, OF _ _ _ _ _ _ _ refl]
  by (simp add: CK_CONNECTION_REGISTRY_CAPACITY_def)

lemma claimed_event:
  assumes "conn_wf c" "ck_connection_try_terminal False c e = (CK_CONNECTION_TERMINAL_CLAIMED, c')"
  shows "ck_connection_terminal_event (Some c') = e"
proof -
  from try_terminal_refines [OF assms] have wf: "conn_wf c'"
    and step: "life_next (Try_terminal e) (conn_life c) (conn_life c')" by simp_all
  from step have "conn_life c' = Life_closing e (life_cycle (conn_life c))"
    by (cases rule: life_next.cases) simp_all
  then have "life_event (conn_life c') = Some e" by simp
  moreover have "life_ok (conn_life c')" "conn_lifecycle c' = life_code (conn_life c')"
    using wf by (simp_all add: conn_wf_def)
  ultimately show ?thesis
    using unpack_life_code [of "conn_life c'"] by (simp add: ck_connection_terminal_event_def del: life_code.simps)
qed

text \<open>
  C39. What a terminal event of Java is recorded as: when the bridge reports that it claimed the end of
  a cycle, the connection carries the ordinal of Java's event as its code, which is the event of the
  same name for COMPLETE and SHUTDOWN only; a timeout is recorded as a disconnect of the client, an
  error as a timeout and a disconnect as an error.
\<close>

theorem bridge_event_codes:
  assumes "pins_inv reg rs os"
    and "ck_connection_registry_find reg (word_of_int h) = Some i"
    and "ck_native_try_terminal m reg rh h rid ot lt n (ordinal e) = (CK_CONNECTION_TERMINAL_CLAIMED, reg')"
  shows "ck_connection_terminal_event (Some (entry_connection (registry_entries reg' ! i))) = ordinal e
    \<and> (ordinal e = native_event e \<longleftrightarrow> e = COMPLETE \<or> e = SHUTDOWN)"
proof
  have i: "i < CK_CONNECTION_REGISTRY_CAPACITY" "entry_active (registry_entries reg ! i)"
    using find_Some [OF assms(2)] by auto
  then have wf: "conn_wf (entry_connection (registry_entries reg ! i))"
    using pins_inv_slot [OF assms(1)] by (auto simp: slot_ok_def)
  obtain c where c: "ck_connection_try_terminal False (entry_connection (registry_entries reg ! i)) (ordinal e)
        = (CK_CONNECTION_TERMINAL_CLAIMED, c)" "reg' = put_connection reg i c"
    using assms(2,3)
    by (auto simp: ck_native_try_terminal_def ck_connection_registry_try_terminal_def with_entry_def
        CK_CONNECTION_TERMINAL_CLAIMED_def split: if_splits prod.splits)
  have "i < length (registry_entries reg)" using assms(1) i(1) by (simp add: pins_inv_def)
  then show "ck_connection_terminal_event (Some (entry_connection (registry_entries reg' ! i))) = ordinal e"
    using claimed_event [OF wf c(1)] by (simp add: c(2) put_connection_def put_entry_def)
  show "ordinal e = native_event e \<longleftrightarrow> e = COMPLETE \<or> e = SHUTDOWN"
    by (cases e) (simp_all add: CK_CONNECTION_TERMINAL_COMPLETE_def CK_CONNECTION_TERMINAL_SHUTDOWN_def
        CK_CONNECTION_TERMINAL_TIMEOUT_def CK_CONNECTION_TERMINAL_ERROR_def
        CK_CONNECTION_TERMINAL_CLIENT_DISCONNECT_def)
qed

text \<open>The sample connection of the registry, waiting in cycle 1.\<close>

definition async_connection :: ck_connection where
  "async_connection = sample_connection\<lparr>conn_lifecycle := life_code (Life_async 1)\<rparr>"

lemma async_start:
  "ck_connection_registry_start_async_cycle False quiet_mutex sample_registry sample_handle 1 7 7 1
    = (0, put_connection sample_registry 0 async_connection, None)"
proof -
  have "conn_lifecycle sample_connection = ck_connection_pack CK_CONNECTION_OPEN (-1) 0"
    by (simp add: sample_connection_def ck_connection_init_def Let_def)
  moreover have "ck_connection_valid_cycle_id 1"
    by (simp add: ck_connection_valid_cycle_id_def)
  ultimately have "ck_connection_start_async_cycle False sample_connection 1 = (0, async_connection)"
    by (simp add: ck_connection_start_async_cycle_def async_connection_def)
  moreover have "registry_initialized sample_registry"
    by (simp add: sample_registry_def put_entry_def initial_world_def ck_connection_registry_init_def)
  ultimately show ?thesis
    using sample_find sample_tokens(1)
    by (simp add: ck_connection_registry_start_async_cycle_def with_entry_def sample_slot sample_entry_def)
qed

definition async_registry :: ck_connection_registry where
  "async_registry = put_connection sample_registry 0 async_connection"

lemma async_registry_ok:
  "pins_inv async_registry [] []"
  "ck_connection_registry_find async_registry sample_handle = Some 0"
  "entry_connection (registry_entries async_registry ! 0) = async_connection"
  "registry_initialized async_registry"
proof -
  have "pins_inv sample_registry [] []"
    using register_inv [OF initial_pins sample_register] by (simp add: initial_world_def)
  from start_cycle_inv [OF this async_start] show "pins_inv async_registry [] []"
    by (simp add: async_registry_def)
  have slots: "0 < length (registry_entries sample_registry)"
    by (simp add: sample_registry_def put_entry_def initial_world_def ck_connection_registry_init_def
        CK_CONNECTION_REGISTRY_CAPACITY_def)
  then have e: "registry_entries async_registry ! 0 = sample_entry\<lparr>entry_connection := async_connection\<rparr>"
    by (simp add: async_registry_def put_connection_def put_entry_def sample_slot)
  then show "entry_connection (registry_entries async_registry ! 0) = async_connection" by simp
  show "ck_connection_registry_find async_registry sample_handle = Some 0"
    unfolding sample_handle_def using e
    by (subst find_make) (simp_all add: CK_CONNECTION_REGISTRY_CAPACITY_def sample_entry_def)
  show "registry_initialized async_registry"
    by (simp add: async_registry_def put_connection_def put_entry_def sample_registry_def initial_world_def
        ck_connection_registry_init_def)
qed

lemma async_terminal:
  assumes "ck_connection_valid_event e"
  obtains c where "ck_connection_try_terminal False async_connection e = (CK_CONNECTION_TERMINAL_CLAIMED, c)"
proof -
  have "life_ok (Life_async 1)"
    by (simp add: ck_connection_valid_cycle_id_def)
  from try_terminal_decide_life [OF this, of e] assms show ?thesis
    by (intro that) (simp add: ck_connection_try_terminal_def async_connection_def del: life_code.simps)
qed

theorem bridge_event_codes_witness:
  "\<exists>reg'. ck_native_try_terminal quiet_mutex async_registry 4096 (sint sample_handle) 1 7 7 1 (ordinal TIMEOUT)
      = (CK_CONNECTION_TERMINAL_CLAIMED, reg')
    \<and> ck_connection_terminal_event (Some (entry_connection (registry_entries reg' ! 0)))
      = CK_CONNECTION_TERMINAL_CLIENT_DISCONNECT"
proof -
  have valid: "ck_connection_valid_event 1"
    by (simp add: ck_connection_valid_event_def connection_consts)
  obtain c where c: "ck_connection_try_terminal False async_connection 1 = (CK_CONNECTION_TERMINAL_CLAIMED, c)"
    using async_terminal [OF valid] by blast
  have cycle: "ck_connection_validate_cycle False async_connection 1 7 7 1 = 0"
  proof -
    have "life_ok (Life_async 1)" "ck_connection_valid_cycle_id 1"
      by (simp_all add: ck_connection_valid_cycle_id_def)
    then show ?thesis
      using unpack_life_code(3) [of "Life_async 1"]
      by (simp add: ck_connection_validate_cycle_def async_connection_def sample_connection_def
          ck_connection_init_def Let_def del: life_code.simps)
  qed
  have "\<not> sint sample_handle < 0"
    using make_handle_sign [of 0 1] by (simp add: sample_handle_def CK_CONNECTION_REGISTRY_CAPACITY_def)
  moreover have "sint sample_handle \<noteq> 0"
    using sample_find by (auto simp: sint_zero ck_connection_registry_find_def
        ck_connection_registry_decode_handle_def)
  ultimately have call: "ck_native_try_terminal quiet_mutex async_registry 4096 (sint sample_handle) 1 7 7 1 (ordinal TIMEOUT)
      = (CK_CONNECTION_TERMINAL_CLAIMED, put_connection async_registry 0 c)"
    using async_registry_ok cycle c
    by (simp add: ck_native_try_terminal_def ck_jni_registry_from_handle_def connection_consts
        ck_connection_registry_try_terminal_def with_entry_def)
  from bridge_event_codes [OF async_registry_ok(1) _ call, of 0] async_registry_ok(2) call show ?thesis
    by (simp add: CK_CONNECTION_TERMINAL_CLIENT_DISCONNECT_def)
qed

end
