(* ===== verification/Ck_Body_Spsc.thy ===== *)
theory Ck_Body_Spsc
  imports Ck_Http_Request_Body
begin

text \<open>
  The request-body FIFO between two threads.  \<open>Ck_Http_Request_Body\<close> treats each operation of
  \<open>c/http/ck_http_request_body.c\<close> as one step; here a write, a read and a test for the end are taken
  apart into their atomic loads and stores and the single bytes of their copies, and a producer, a
  consumer and an observer take these steps in any order.

  Loads see the latest store.  That is no restriction for the counters: each has one writer, which
  does not reload it, and a reload of the other side's counter that comes late is the same load taken
  earlier.
\<close>

section \<open>The steps\<close>

text \<open>Where the two \<open>memcpy\<close> calls of an operation put (or find) its byte number \<open>i\<close>.\<close>

definition copy_index :: "u64 \<Rightarrow> nat \<Rightarrow> nat \<Rightarrow> nat" where
  "copy_index position len i =
    (let start = unat position mod CK_HTTP_REQUEST_BODY_BUFFER_BYTES;
         room = CK_HTTP_REQUEST_BODY_BUFFER_BYTES - start;
         first = (if room > len then len else room) in
     if i < first then start + i else i - first)"

datatype writer_pc =
    W_begin "u8 list"
  | W_load_eof "u8 list"
  | W_load_error "u8 list"
  | W_load_head "u8 list"
  | W_load_tail "u8 list" u64
  | W_copy "u8 list" u64 nat
  | W_returned ck_http_request_body_write_result nat

fun write_step :: "ck_http_request_body \<Rightarrow> writer_pc \<Rightarrow> ck_http_request_body \<times> writer_pc" where
  "write_step b (W_begin data) =
    (b, if length data = 0 then W_returned CK_HTTP_REQUEST_BODY_WRITE_OK 0 else W_load_eof data)"
| "write_step b (W_load_eof data) =
    (b, if body_eof b then W_returned CK_HTTP_REQUEST_BODY_WRITE_CLOSED 0 else W_load_error data)"
| "write_step b (W_load_error data) =
    (b, if body_error b then W_returned CK_HTTP_REQUEST_BODY_WRITE_CLOSED 0 else W_load_head data)"
| "write_step b (W_load_head data) = (b, W_load_tail data (body_head b))"
| "write_step b (W_load_tail data head) =
    (b, let used = body_used head (body_tail b) in
        if used > of_nat CK_HTTP_REQUEST_BODY_BUFFER_BYTES then W_returned CK_HTTP_REQUEST_BODY_WRITE_INVALID 0
        else if CK_HTTP_REQUEST_BODY_BUFFER_BYTES - unat used < length data
        then W_returned CK_HTTP_REQUEST_BODY_WRITE_WOULD_BLOCK 0
        else W_copy data head 0)"
| "write_step b (W_copy data head i) =
    (if i < length data
     then (b\<lparr>body_buffer := (body_buffer b)[copy_index head (length data) i := data ! i]\<rparr>, W_copy data head (Suc i))
     else (b\<lparr>body_head := head + of_nat (length data)\<rparr>, W_returned CK_HTTP_REQUEST_BODY_WRITE_OK (length data)))"
| "write_step b (W_returned r n) = (b, W_returned r n)"

datatype reader_pc =
    R_load_head nat
  | R_load_tail nat u64
  | R_load_error
  | R_load_eof
  | R_copy u64 nat nat "u8 list"
  | R_returned ck_http_request_body_read_result "u8 list"

fun read_step :: "ck_http_request_body \<Rightarrow> reader_pc \<Rightarrow> ck_http_request_body \<times> reader_pc" where
  "read_step b (R_load_head capacity) = (b, R_load_tail capacity (body_head b))"
| "read_step b (R_load_tail capacity head) =
    (b, let available = body_used head (body_tail b) in
        if available > of_nat CK_HTTP_REQUEST_BODY_BUFFER_BYTES then R_returned CK_HTTP_REQUEST_BODY_READ_INVALID []
        else if available = 0 then R_load_error
        else if capacity = 0 then R_returned CK_HTTP_REQUEST_BODY_READ_WOULD_BLOCK []
        else R_copy (body_tail b) (if unat available > capacity then capacity else unat available) 0 [])"
| "read_step b R_load_error =
    (b, if body_error b then R_returned CK_HTTP_REQUEST_BODY_READ_ERROR [] else R_load_eof)"
| "read_step b R_load_eof =
    (b, R_returned (if body_eof b then CK_HTTP_REQUEST_BODY_READ_EOF else CK_HTTP_REQUEST_BODY_READ_WOULD_BLOCK) [])"
| "read_step b (R_copy tail len i bytes) =
    (if i < len then (b, R_copy tail len (Suc i) (bytes @ [body_buffer b ! copy_index tail len i]))
     else (b\<lparr>body_tail := tail + of_nat len\<rparr>, R_returned CK_HTTP_REQUEST_BODY_READ_DATA bytes))"
| "read_step b (R_returned r bytes) = (b, R_returned r bytes)"

text \<open>\<open>ck_http_request_body_is_finished\<close> and the \<open>ck_http_request_body_available\<close> it calls.\<close>

datatype observer_pc = F_load_eof | F_load_head | F_load_tail u64 | F_returned bool

fun finished_step :: "ck_http_request_body \<Rightarrow> observer_pc \<Rightarrow> observer_pc" where
  "finished_step b F_load_eof = (if body_eof b then F_load_head else F_returned False)"
| "finished_step b F_load_head = F_load_tail (body_head b)"
| "finished_step b (F_load_tail head) =
    (let available = body_used head (body_tail b) in
     F_returned ((if available > of_nat CK_HTTP_REQUEST_BODY_BUFFER_BYTES then 0 else unat available) = 0))"
| "finished_step b (F_returned r) = F_returned r"

section \<open>Two threads and an observer\<close>

text \<open>
  \<open>spsc_accepted\<close> collects the bytes of the writes that have published their head, and
  \<open>spsc_delivered\<close> those of the reads that have published their tail.  A thread starts an operation
  when its last one has returned.  The producer marks the end of the body between writes; an error
  may be marked at any time.
\<close>

record spsc =
  spsc_body :: ck_http_request_body
  spsc_writer :: writer_pc
  spsc_reader :: reader_pc
  spsc_observer :: observer_pc
  spsc_accepted :: "u8 list"
  spsc_delivered :: "u8 list"

datatype spsc_event =
    Write_call "u8 list" | Write_go | Mark_eof | Mark_error
  | Read_call nat | Read_go | Finished_call | Finished_go

definition published :: "writer_pc \<Rightarrow> writer_pc \<Rightarrow> u8 list" where
  "published w w' = (case (w, w') of (W_copy data head i, W_returned r n) \<Rightarrow> data | _ \<Rightarrow> [])"

definition released :: "reader_pc \<Rightarrow> reader_pc \<Rightarrow> u8 list" where
  "released r r' = (case (r, r') of (R_copy tail len i acc, R_returned q bytes) \<Rightarrow> bytes | _ \<Rightarrow> [])"

fun spsc_exec :: "spsc_event \<Rightarrow> spsc \<Rightarrow> spsc option" where
  "spsc_exec (Write_call data) s =
    (case spsc_writer s of W_returned r n \<Rightarrow> Some (s\<lparr>spsc_writer := W_begin data\<rparr>) | _ \<Rightarrow> None)"
| "spsc_exec Write_go s =
    (let (b, w) = write_step (spsc_body s) (spsc_writer s) in
     Some (s\<lparr>spsc_body := b, spsc_writer := w,
             spsc_accepted := spsc_accepted s @ published (spsc_writer s) w\<rparr>))"
| "spsc_exec Mark_eof s =
    (case spsc_writer s of
       W_returned r n \<Rightarrow> Some (s\<lparr>spsc_body := ck_http_request_body_mark_eof (spsc_body s)\<rparr>)
     | _ \<Rightarrow> None)"
| "spsc_exec Mark_error s = Some (s\<lparr>spsc_body := ck_http_request_body_mark_error (spsc_body s)\<rparr>)"
| "spsc_exec (Read_call capacity) s =
    (case spsc_reader s of R_returned r bytes \<Rightarrow> Some (s\<lparr>spsc_reader := R_load_head capacity\<rparr>) | _ \<Rightarrow> None)"
| "spsc_exec Read_go s =
    (let (b, r) = read_step (spsc_body s) (spsc_reader s) in
     Some (s\<lparr>spsc_body := b, spsc_reader := r,
             spsc_delivered := spsc_delivered s @ released (spsc_reader s) r\<rparr>))"
| "spsc_exec Finished_call s =
    (case spsc_observer s of F_returned r \<Rightarrow> Some (s\<lparr>spsc_observer := F_load_eof\<rparr>) | _ \<Rightarrow> None)"
| "spsc_exec Finished_go s = Some (s\<lparr>spsc_observer := finished_step (spsc_body s) (spsc_observer s)\<rparr>)"

fun spsc_run :: "spsc_event list \<Rightarrow> spsc \<Rightarrow> spsc option" where
  "spsc_run [] s = Some s"
| "spsc_run (e # es) s = (case spsc_exec e s of None \<Rightarrow> None | Some s' \<Rightarrow> spsc_run es s')"

definition spsc_init :: "ck_http_request_body \<Rightarrow> spsc" where
  "spsc_init b = \<lparr>spsc_body = ck_http_request_body_init b,
     spsc_writer = W_returned CK_HTTP_REQUEST_BODY_WRITE_OK 0,
     spsc_reader = R_returned CK_HTTP_REQUEST_BODY_READ_WOULD_BLOCK [],
     spsc_observer = F_returned False, spsc_accepted = [], spsc_delivered = []\<rparr>"

lemma spsc_run_append:
  "spsc_run (es @ fs) s = (case spsc_run es s of None \<Rightarrow> None | Some s' \<Rightarrow> spsc_run fs s')"
  by (induction es arbitrary: s) (auto split: option.splits)

section \<open>Counters and cells\<close>

lemma buffer_bytes_dvd: "CK_HTTP_REQUEST_BODY_BUFFER_BYTES dvd 2 ^ 64"
  by (simp add: CK_HTTP_REQUEST_BODY_BUFFER_BYTES_def)

lemma copy_index_mod:
  assumes "i < len" "len \<le> CK_HTTP_REQUEST_BODY_BUFFER_BYTES"
  shows "copy_index (of_nat p) len i = (p + i) mod CK_HTTP_REQUEST_BODY_BUFFER_BYTES"
proof -
  let ?N = CK_HTTP_REQUEST_BODY_BUFFER_BYTES
  have start: "unat (of_nat p :: u64) mod ?N = p mod ?N"
    using unat_plus_mod [OF buffer_bytes_dvd, of 0 p] by simp
  have "p mod ?N < ?N" by (simp add: CK_HTTP_REQUEST_BODY_BUFFER_BYTES_def)
  from mod_wrap [OF this, of i] assms
  have "(p + i) mod ?N = (if p mod ?N + i < ?N then p mod ?N + i else p mod ?N + i - ?N)"
    by (simp add: mod_add_left_eq)
  with assms show ?thesis by (auto simp: copy_index_def Let_def start)
qed

lemma counter_diff:
  assumes "t \<le> h" "h \<le> t + CK_HTTP_REQUEST_BODY_BUFFER_BYTES"
  shows "unat (of_nat h - of_nat t :: u64) = h - t"
proof -
  have "(of_nat h - of_nat t :: u64) = of_nat (h - t)" using assms(1) by (simp add: of_nat_diff)
  moreover have "h - t < 2 ^ 64" using assms by (simp add: CK_HTTP_REQUEST_BODY_BUFFER_BYTES_def)
  ultimately show ?thesis by simp
qed

lemma used_too_large:
  fixes w :: u64
  shows "w > of_nat CK_HTTP_REQUEST_BODY_BUFFER_BYTES \<longleftrightarrow> unat w > CK_HTTP_REQUEST_BODY_BUFFER_BYTES"
  by (simp add: word_less_nat_alt CK_HTTP_REQUEST_BODY_BUFFER_BYTES_def)

text \<open>Cells of different positions within one lap differ.\<close>

lemma cell_neq:
  assumes "j < k" "k < j + CK_HTTP_REQUEST_BODY_BUFFER_BYTES"
  shows "j mod CK_HTTP_REQUEST_BODY_BUFFER_BYTES \<noteq> k mod CK_HTTP_REQUEST_BODY_BUFFER_BYTES"
proof
  assume "j mod CK_HTTP_REQUEST_BODY_BUFFER_BYTES = k mod CK_HTTP_REQUEST_BODY_BUFFER_BYTES"
  moreover have "k - j < CK_HTTP_REQUEST_BODY_BUFFER_BYTES" using assms by linarith
  ultimately have "0 = k - j"
    using assms(1) ring_offset_inj [of 0 CK_HTTP_REQUEST_BODY_BUFFER_BYTES "k - j" j] by simp
  with assms(1) show False by simp
qed

section \<open>The invariant\<close>

text \<open>The shared memory, against the bytes accepted and delivered so far.\<close>

definition queue_ok :: "ck_http_request_body \<Rightarrow> u8 list \<Rightarrow> u8 list \<Rightarrow> bool" where
  "queue_ok b acc del \<longleftrightarrow> length (body_buffer b) = CK_HTTP_REQUEST_BODY_BUFFER_BYTES
     \<and> body_head b = of_nat (length acc) \<and> body_tail b = of_nat (length del)
     \<and> length del \<le> length acc \<and> length acc \<le> length del + CK_HTTP_REQUEST_BODY_BUFFER_BYTES
     \<and> take (length del) acc = del
     \<and> (\<forall>k. length del \<le> k \<longrightarrow> k < length acc \<longrightarrow>
          body_buffer b ! (k mod CK_HTTP_REQUEST_BODY_BUFFER_BYTES) = acc ! k)"

text \<open>What a thread knows in the middle of its operation.\<close>

fun writer_ok :: "ck_http_request_body \<Rightarrow> u8 list \<Rightarrow> u8 list \<Rightarrow> writer_pc \<Rightarrow> bool" where
  "writer_ok b acc del (W_begin data) = True"
| "writer_ok b acc del (W_load_eof data) = True"
| "writer_ok b acc del (W_load_error data) = (\<not> body_eof b)"
| "writer_ok b acc del (W_load_head data) = (\<not> body_eof b)"
| "writer_ok b acc del (W_load_tail data head) = (\<not> body_eof b \<and> head = of_nat (length acc))"
| "writer_ok b acc del (W_copy data head i) =
    (\<not> body_eof b \<and> head = of_nat (length acc) \<and> i \<le> length data
     \<and> length acc + length data \<le> length del + CK_HTTP_REQUEST_BODY_BUFFER_BYTES
     \<and> (\<forall>j<i. body_buffer b ! ((length acc + j) mod CK_HTTP_REQUEST_BODY_BUFFER_BYTES) = data ! j))"
| "writer_ok b acc del (W_returned r n) = (r \<noteq> CK_HTTP_REQUEST_BODY_WRITE_INVALID)"

fun reader_ok :: "u8 list \<Rightarrow> u8 list \<Rightarrow> reader_pc \<Rightarrow> bool" where
  "reader_ok acc del (R_load_tail capacity head) =
    (\<exists>h. length del \<le> h \<and> h \<le> length acc \<and> head = of_nat h)"
| "reader_ok acc del (R_copy tail len i bytes) =
    (tail = of_nat (length del) \<and> length del + len \<le> length acc \<and> i \<le> len
     \<and> bytes = take i (drop (length del) acc))"
| "reader_ok acc del (R_returned r bytes) = (r \<noteq> CK_HTTP_REQUEST_BODY_READ_INVALID)"
| "reader_ok acc del pc = True"

fun observer_ok :: "ck_http_request_body \<Rightarrow> u8 list \<Rightarrow> u8 list \<Rightarrow> observer_pc \<Rightarrow> bool" where
  "observer_ok b acc del F_load_eof = True"
| "observer_ok b acc del F_load_head = body_eof b"
| "observer_ok b acc del (F_load_tail head) = (body_eof b \<and> head = of_nat (length acc))"
| "observer_ok b acc del (F_returned r) = (r \<longrightarrow> body_eof b \<and> del = acc)"

definition spsc_inv :: "spsc \<Rightarrow> bool" where
  "spsc_inv s \<longleftrightarrow> queue_ok (spsc_body s) (spsc_accepted s) (spsc_delivered s)
     \<and> writer_ok (spsc_body s) (spsc_accepted s) (spsc_delivered s) (spsc_writer s)
     \<and> reader_ok (spsc_accepted s) (spsc_delivered s) (spsc_reader s)
     \<and> observer_ok (spsc_body s) (spsc_accepted s) (spsc_delivered s) (spsc_observer s)"

lemma queue_used:
  assumes "queue_ok b acc del"
  shows "unat (of_nat (length acc) - body_tail b) = length acc - length del"
  using assms counter_diff by (auto simp: queue_ok_def)

text \<open>The producer.\<close>

lemma queue_ok_store:
  assumes "queue_ok b acc del" "writer_ok b acc del (W_copy data head i)" "i < length data"
  defines "b' \<equiv> b\<lparr>body_buffer := (body_buffer b)[copy_index head (length data) i := data ! i]\<rparr>"
  shows "queue_ok b' acc del" "writer_ok b' acc del (W_copy data head (Suc i))"
proof -
  let ?N = CK_HTTP_REQUEST_BODY_BUFFER_BYTES
  have room: "length acc + length data \<le> length del + ?N" and head: "head = of_nat (length acc)"
    and le: "length del \<le> length acc" and len: "length (body_buffer b) = ?N"
    using assms(1,2) by (auto simp: queue_ok_def)
  have index: "copy_index head (length data) i = (length acc + i) mod ?N"
    unfolding head using assms(3) room le by (intro copy_index_mod) auto
  have N: "0 < ?N" by (simp add: CK_HTTP_REQUEST_BODY_BUFFER_BYTES_def)
  have keep: "body_buffer b' ! (k mod ?N) = body_buffer b ! (k mod ?N)"
    if "length del \<le> k" "k < length acc + i" for k
    using cell_neq [of k "length acc + i"] that room assms(3) by (simp add: b'_def index)
  have new: "body_buffer b' ! ((length acc + i) mod ?N) = data ! i"
    using N len by (simp add: b'_def index)
  show "queue_ok b' acc del"
    using assms(1) keep by (auto simp: queue_ok_def b'_def)
  show "writer_ok b' acc del (W_copy data head (Suc i))"
    using assms(2,3) keep new le by (auto simp: less_Suc_eq) (auto simp: b'_def)
qed

lemma queue_ok_publish:
  assumes "queue_ok b acc del" "writer_ok b acc del (W_copy data head (length data))"
  shows "queue_ok (b\<lparr>body_head := head + of_nat (length data)\<rparr>) (acc @ data) del"
proof -
  have "\<forall>k. length del \<le> k \<longrightarrow> k < length (acc @ data) \<longrightarrow>
      body_buffer b ! (k mod CK_HTTP_REQUEST_BODY_BUFFER_BYTES) = (acc @ data) ! k"
  proof (intro allI impI)
    fix k
    assume k: "length del \<le> k" "k < length (acc @ data)"
    show "body_buffer b ! (k mod CK_HTTP_REQUEST_BODY_BUFFER_BYTES) = (acc @ data) ! k"
    proof (cases "k < length acc")
      case False
      then obtain j where "k = length acc + j" "j < length data"
        using k by (metis add_diff_inverse_nat length_append nat_add_left_cancel_less)
      then show ?thesis using assms(2) by simp
    qed (use assms(1) k in \<open>simp add: queue_ok_def nth_append\<close>)
  qed
  moreover have "length (acc @ data) \<le> length del + CK_HTTP_REQUEST_BODY_BUFFER_BYTES"
    "head + of_nat (length data) = of_nat (length (acc @ data))"
    using assms(2) by simp_all
  ultimately show ?thesis using assms(1) unfolding queue_ok_def by (simp del: length_append) simp
qed

lemma reader_ok_append: "reader_ok acc del r \<Longrightarrow> reader_ok (acc @ data) del r"
  by (cases r) (auto intro: le_trans)

lemma write_go_inv:
  assumes "spsc_inv s" "spsc_exec Write_go s = Some s'"
  shows "spsc_inv s'"
proof (cases "spsc_writer s")
  case (W_load_tail data head)
  with assms queue_used [of "spsc_body s" "spsc_accepted s" "spsc_delivered s"] show ?thesis
    by (auto simp: spsc_inv_def published_def body_used_def used_too_large Let_def queue_ok_def)
next
  case (W_copy data head i)
  show ?thesis
  proof (cases "i < length data")
    case True
    with assms W_copy queue_ok_store [of "spsc_body s" "spsc_accepted s" "spsc_delivered s" data head i]
    show ?thesis by (cases "spsc_observer s") (auto simp: spsc_inv_def published_def)
  next
    case False
    then have "i = length data" using assms(1) W_copy by (simp add: spsc_inv_def)
    with assms W_copy queue_ok_publish [of "spsc_body s" "spsc_accepted s" "spsc_delivered s" data head]
    show ?thesis
      by (cases "spsc_observer s") (auto simp: spsc_inv_def published_def intro: reader_ok_append)
  qed
qed (use assms in \<open>auto simp: spsc_inv_def published_def queue_ok_def\<close>)

text \<open>The consumer.\<close>

lemma read_copy_byte:
  assumes "queue_ok b acc del" "reader_ok acc del (R_copy tail len i bytes)" "i < len"
  shows "reader_ok acc del (R_copy tail len (Suc i) (bytes @ [body_buffer b ! copy_index tail len i]))"
proof -
  have "copy_index tail len i = (length del + i) mod CK_HTTP_REQUEST_BODY_BUFFER_BYTES"
    using assms copy_index_mod [of i len "length del"] by (auto simp: queue_ok_def)
  then have "body_buffer b ! copy_index tail len i = acc ! (length del + i)"
    using assms by (auto simp: queue_ok_def)
  moreover have "take (Suc i) (drop (length del) acc) = take i (drop (length del) acc) @ [acc ! (length del + i)]"
    using assms(2,3) by (subst take_Suc_conv_app_nth) auto
  ultimately show ?thesis using assms(2,3) by simp
qed

lemma queue_ok_release:
  assumes "queue_ok b acc del" "reader_ok acc del (R_copy tail len len bytes)"
  shows "queue_ok (b\<lparr>body_tail := tail + of_nat len\<rparr>) acc (del @ bytes)" "length bytes = len"
proof -
  show len: "length bytes = len" using assms(2) by auto
  have "take (length del + len) acc = take (length del) acc @ take len (drop (length del) acc)"
    by (rule take_add)
  then show "queue_ok (b\<lparr>body_tail := tail + of_nat len\<rparr>) acc (del @ bytes)"
    using assms len by (auto simp: queue_ok_def)
qed

text \<open>The other sides do not mind that the tail moves.\<close>

lemma writer_ok_release:
  "writer_ok b acc del w \<Longrightarrow> writer_ok (b\<lparr>body_tail := t\<rparr>) acc (del @ bytes) w"
  by (cases w) auto

lemma observer_ok_release:
  assumes "observer_ok b acc del f" "queue_ok b' acc (del @ bytes)"
  shows "observer_ok (b\<lparr>body_tail := t\<rparr>) acc (del @ bytes) f"
  using assms by (cases f) (auto simp: queue_ok_def)

lemma read_go_inv:
  assumes "spsc_inv s" "spsc_exec Read_go s = Some s'"
  shows "spsc_inv s'"
proof (cases "spsc_reader s")
  case (R_load_tail capacity head)
  then obtain h where h: "length (spsc_delivered s) \<le> h" "h \<le> length (spsc_accepted s)" "head = of_nat h"
    using assms(1) by (auto simp: spsc_inv_def)
  then have "unat (head - body_tail (spsc_body s)) = h - length (spsc_delivered s)"
    using assms(1) counter_diff [OF h(1)] by (auto simp: spsc_inv_def queue_ok_def)
  with assms h R_load_tail show ?thesis
    by (auto simp: spsc_inv_def released_def body_used_def used_too_large Let_def queue_ok_def)
next
  case (R_copy tail len i bytes)
  show ?thesis
  proof (cases "i < len")
    case True
    with assms R_copy read_copy_byte [of "spsc_body s" "spsc_accepted s" "spsc_delivered s" tail len i bytes]
    show ?thesis by (auto simp: spsc_inv_def released_def)
  next
    case False
    then have "i = len" using assms(1) R_copy by (simp add: spsc_inv_def)
    then have ok: "reader_ok (spsc_accepted s) (spsc_delivered s) (R_copy tail len len bytes)"
      using assms(1) R_copy by (simp add: spsc_inv_def)
    have q: "queue_ok (spsc_body s) (spsc_accepted s) (spsc_delivered s)"
      using assms(1) by (simp add: spsc_inv_def)
    let ?s = "s\<lparr>spsc_body := (spsc_body s)\<lparr>body_tail := tail + of_nat len\<rparr>,
        spsc_reader := R_returned CK_HTTP_REQUEST_BODY_READ_DATA bytes, spsc_delivered := spsc_delivered s @ bytes\<rparr>"
    have "spsc_inv ?s"
      using assms(1) queue_ok_release(1) [OF q ok]
      by (simp add: spsc_inv_def writer_ok_release observer_ok_release)
    moreover have "s' = ?s" using assms(2) R_copy \<open>i = len\<close> by (simp add: released_def)
    ultimately show ?thesis by simp
  qed
qed (use assms in \<open>auto simp: spsc_inv_def released_def queue_ok_def\<close>)

lemma finished_go_inv:
  assumes "spsc_inv s" "spsc_exec Finished_go s = Some s'"
  shows "spsc_inv s'"
proof (cases "spsc_observer s")
  case (F_load_tail head)
  let ?acc = "spsc_accepted s" and ?del = "spsc_delivered s"
  have q: "queue_ok (spsc_body s) ?acc ?del" "body_eof (spsc_body s)" "head = of_nat (length ?acc)"
    using assms(1) F_load_tail by (auto simp: spsc_inv_def)
  have "length ?acc - length ?del = 0 \<longleftrightarrow> ?del = ?acc"
  proof
    assume "length ?acc - length ?del = 0"
    moreover have "take (length ?del) ?acc = ?del" using q(1) unfolding queue_ok_def by blast
    ultimately show "?del = ?acc" by (metis diff_is_0_eq take_all)
  qed simp
  moreover have "length ?acc - length ?del \<le> CK_HTTP_REQUEST_BODY_BUFFER_BYTES"
    using q(1) by (auto simp: queue_ok_def)
  ultimately have "finished_step (spsc_body s) (F_load_tail head) = F_returned (?del = ?acc)"
    unfolding finished_step.simps Let_def body_used_def used_too_large q(3) queue_used [OF q(1)] by simp
  with assms q(2) F_load_tail show ?thesis
    by (auto simp: spsc_inv_def simp del: finished_step.simps)
qed (use assms in \<open>auto simp: spsc_inv_def queue_ok_def\<close>)

lemma spsc_exec_inv:
  assumes "spsc_inv s" "spsc_exec e s = Some s'"
  shows "spsc_inv s'"
proof (cases e)
  case Mark_eof
  with assms show ?thesis
    by (cases "spsc_observer s")
      (auto simp: spsc_inv_def queue_ok_def ck_http_request_body_mark_eof_def split: writer_pc.splits)
next
  case Mark_error
  have "writer_ok (b\<lparr>body_error := True\<rparr>) acc del w = writer_ok b acc del w" for b acc del w
    by (cases w) simp_all
  moreover have "observer_ok (b\<lparr>body_error := True\<rparr>) acc del f = observer_ok b acc del f" for b acc del f
    by (cases f) simp_all
  ultimately show ?thesis
    using assms Mark_error by (auto simp: spsc_inv_def queue_ok_def ck_http_request_body_mark_error_def)
next
  case (Write_call data)
  with assms show ?thesis by (auto simp: spsc_inv_def split: writer_pc.splits)
next
  case (Read_call capacity)
  with assms show ?thesis by (auto simp: spsc_inv_def split: reader_pc.splits)
next
  case Finished_call
  with assms show ?thesis by (auto simp: spsc_inv_def split: observer_pc.splits)
next
  case Write_go
  with assms show ?thesis using write_go_inv by blast
next
  case Read_go
  with assms show ?thesis using read_go_inv by blast
next
  case Finished_go
  with assms show ?thesis using finished_go_inv by blast
qed

lemma spsc_run_inv: "spsc_run es s = Some s' \<Longrightarrow> spsc_inv s \<Longrightarrow> spsc_inv s'"
  by (induction es arbitrary: s) (auto split: option.splits intro: spsc_exec_inv)

lemma spsc_init_inv:
  "length (body_buffer b) = CK_HTTP_REQUEST_BODY_BUFFER_BYTES \<Longrightarrow> spsc_inv (spsc_init b)"
  by (simp add: spsc_init_def spsc_inv_def queue_ok_def ck_http_request_body_init_def)

text \<open>The cells that a copying producer and a copying consumer touch next are different.\<close>

lemma copies_disjoint:
  assumes "spsc_inv s" "spsc_writer s = W_copy data head i" "i < length data"
    "spsc_reader s = R_copy tail len j bytes" "j < len"
  shows "copy_index head (length data) i \<noteq> copy_index tail len j"
proof -
  let ?h = "length (spsc_accepted s)" and ?t = "length (spsc_delivered s)"
  have w: "head = of_nat ?h" "?h + length data \<le> ?t + CK_HTTP_REQUEST_BODY_BUFFER_BYTES" "?t \<le> ?h"
    and r: "tail = of_nat ?t" "?t + len \<le> ?h" "?h \<le> ?t + CK_HTTP_REQUEST_BODY_BUFFER_BYTES"
    using assms by (auto simp: spsc_inv_def queue_ok_def)
  have "copy_index head (length data) i = (?h + i) mod CK_HTTP_REQUEST_BODY_BUFFER_BYTES"
    unfolding w(1) using w assms(3) by (intro copy_index_mod) auto
  moreover have "copy_index tail len j = (?t + j) mod CK_HTTP_REQUEST_BODY_BUFFER_BYTES"
    unfolding r(1) using r assms(5) by (intro copy_index_mod) auto
  ultimately show ?thesis
    using cell_neq [of "?t + j" "?h + i"] w(2) r(2) assms(3,5) by simp
qed

section \<open>A write that is not disturbed\<close>

lemma ring_cell:
  assumes "c < n"
  obtains i where "i < n" "c = (p + i) mod (n :: nat)"
proof
  let ?i = "(c + n - p mod n) mod n"
  have "p mod n < n" using assms by simp
  then have "p mod n + (c + n - p mod n) = c + n" by simp
  then have "(p + ?i) mod n = (c + n) mod n" by (metis mod_add_left_eq mod_add_right_eq)
  then show "c = (p + ?i) mod n" using assms by simp
qed (use assms in simp)

lemma ring_write_snoc:
  assumes "length data < length arr"
  shows "(ring_write arr p data)[(p + length data) mod length arr := x] = ring_write arr p (data @ [x])"
proof (rule nth_equalityI)
  fix c assume "c < length ((ring_write arr p data)[(p + length data) mod length arr := x])"
  then have c: "c < length arr" using assms by simp
  then obtain i where i: "i < length arr" "c = (p + i) mod length arr" by (rule ring_cell)
  have "(p + length data) mod length arr = (p + i) mod length arr \<longleftrightarrow> i = length data"
    using ring_offset_inj [OF i(1) assms, of p] by auto
  then show "(ring_write arr p data)[(p + length data) mod length arr := x] ! c = ring_write arr p (data @ [x]) ! c"
    using i c assms nth_ring_write [of data arr i p] nth_ring_write [of "data @ [x]" arr i p]
    by (auto simp: nth_list_update nth_append)
qed (use assms in simp)

lemma replicate_Suc_snoc: "replicate (Suc k) x = replicate k x @ [x]"
  by (simp add: replicate_append_same)

lemma write_copy_run:
  assumes "spsc_writer s = W_copy data head 0" "k \<le> length data"
    "length data \<le> CK_HTTP_REQUEST_BODY_BUFFER_BYTES"
    "length (body_buffer (spsc_body s)) = CK_HTTP_REQUEST_BODY_BUFFER_BYTES"
  shows "spsc_run (replicate k Write_go) s = Some (s\<lparr>spsc_body := (spsc_body s)\<lparr>body_buffer :=
      ring_write (body_buffer (spsc_body s)) (unat head) (take k data)\<rparr>, spsc_writer := W_copy data head k\<rparr>)"
  using assms(2)
proof (induction k)
  case 0
  then show ?case using assms(1) by (simp add: ring_write_def memcpy_at_def)
next
  case (Suc k)
  have index: "copy_index head (length data) k
      = (unat head + length (take k data)) mod length (body_buffer (spsc_body s))"
    using copy_index_mod [of k "length data" "unat head"] Suc.prems assms(3,4) by simp
  have "take (Suc k) data = take k data @ [data ! k]"
    using Suc.prems by (simp add: take_Suc_conv_app_nth)
  then show ?case
    using Suc assms ring_write_snoc [of "take k data" "body_buffer (spsc_body s)" "unat head" "data ! k"]
    by (simp add: replicate_Suc_snoc spsc_run_append published_def index del: replicate_Suc)
qed

text \<open>
  The steps of a write, taken in a row, are the operation of \<open>Ck_Http_Request_Body\<close>, on every branch.
\<close>

definition write_alone :: "u8 list \<Rightarrow> spsc_event list" where
  "write_alone data = [Write_call data, Write_go, Write_go, Write_go, Write_go, Write_go]
     @ replicate (Suc (length data)) Write_go"

lemma write_returned_run:
  "spsc_writer s = W_returned r n \<Longrightarrow> spsc_run (replicate k Write_go) s = Some s"
proof (induction k)
  case (Suc k)
  then have "spsc_exec Write_go s = Some s" by (cases s) (simp add: published_def)
  with Suc show ?case by (simp del: spsc_exec.simps)
qed simp

lemma write_copies:
  assumes "spsc_writer s = W_copy data head 0" "length data \<le> CK_HTTP_REQUEST_BODY_BUFFER_BYTES"
    "length (body_buffer (spsc_body s)) = CK_HTTP_REQUEST_BODY_BUFFER_BYTES"
  shows "spsc_run (replicate (Suc (length data)) Write_go) s = Some (s\<lparr>spsc_body := (spsc_body s)\<lparr>
      body_buffer := ring_write (body_buffer (spsc_body s)) (unat head) data,
      body_head := head + of_nat (length data)\<rparr>,
      spsc_writer := W_returned CK_HTTP_REQUEST_BODY_WRITE_OK (length data),
      spsc_accepted := spsc_accepted s @ data\<rparr>)"
  using write_copy_run [OF assms(1) order_refl assms(2,3)]
  by (simp add: replicate_Suc_snoc spsc_run_append published_def del: replicate_Suc)

theorem spsc_write_alone:
  assumes "spsc_writer s = W_returned q m" and "body_wf (spsc_body s)"
    and "ck_http_request_body_write False (spsc_body s) data = (r, n, b)"
  shows "spsc_run (write_alone data) s
    = Some (s\<lparr>spsc_body := b, spsc_writer := W_returned r n, spsc_accepted := spsc_accepted s @ take n data\<rparr>)"
proof -
  let ?b = "spsc_body s"
  have len: "length (body_buffer ?b) = CK_HTTP_REQUEST_BODY_BUFFER_BYTES"
    and used: "unat (body_head ?b - body_tail ?b) \<le> CK_HTTP_REQUEST_BODY_BUFFER_BYTES"
    using assms(2) by (simp_all add: body_wf_def)
  consider "data = []" | "data \<noteq> []" "body_eof ?b \<or> body_error ?b"
    | "data \<noteq> []" "\<not> (body_eof ?b \<or> body_error ?b)"
      "CK_HTTP_REQUEST_BODY_BUFFER_BYTES < length (body_bytes ?b) + length data"
    | "data \<noteq> []" "\<not> (body_eof ?b \<or> body_error ?b)"
      "length (body_bytes ?b) + length data \<le> CK_HTTP_REQUEST_BODY_BUFFER_BYTES"
    by linarith
  then show ?thesis
  proof cases
    case 4
    let ?s = "s\<lparr>spsc_writer := W_copy data (body_head ?b) 0\<rparr>"
    have "spsc_run (replicate (Suc (length data)) Write_go) ?s
      = Some (s\<lparr>spsc_body := b, spsc_writer := W_returned r n, spsc_accepted := spsc_accepted s @ take n data\<rparr>)"
      using write_copies [of ?s data "body_head ?b"] 4 assms(2,3) len
      by (auto simp: body_write_unfold simp del: replicate_Suc)
    moreover have "\<not> CK_HTTP_REQUEST_BODY_BUFFER_BYTES - unat (body_head ?b - body_tail ?b) < length data"
      using 4(3) by (simp add: length_body_bytes)
    ultimately show ?thesis
      using 4 assms(1) used
      by (simp add: write_alone_def published_def body_used_def used_too_large length_body_bytes Let_def
          del: replicate_Suc)
  qed (use assms used in \<open>auto simp: write_alone_def published_def body_write_unfold body_used_def used_too_large
      length_body_bytes Let_def write_returned_run simp del: replicate_Suc\<close>)
qed

section \<open>Properties\<close>

text \<open>
  C12. The queue between two threads: however the loads, stores and copied bytes of a producer, a consumer
  and an observer interleave, and however often the counters and the ring wrap, the bytes
  delivered are a prefix of the bytes accepted and at most one buffer behind them; no call finds the counters
  inconsistent; the producer never stores into the cell that the consumer is about to copy; and when
  \<open>ck_http_request_body_is_finished\<close> answers yes, the end has been marked and every byte was
  delivered.
\<close>

theorem spsc_safe:
  assumes "length (body_buffer b) = CK_HTTP_REQUEST_BODY_BUFFER_BYTES"
    and "spsc_run es (spsc_init b) = Some s"
  shows "(\<exists>rest. spsc_accepted s = spsc_delivered s @ rest \<and> length rest \<le> CK_HTTP_REQUEST_BODY_BUFFER_BYTES)
    \<and> (\<forall>n. spsc_writer s \<noteq> W_returned CK_HTTP_REQUEST_BODY_WRITE_INVALID n)
    \<and> (\<forall>bytes. spsc_reader s \<noteq> R_returned CK_HTTP_REQUEST_BODY_READ_INVALID bytes)
    \<and> (\<forall>data head i tail len j bytes.
         spsc_writer s = W_copy data head i \<and> i < length data \<and> spsc_reader s = R_copy tail len j bytes \<and> j < len
         \<longrightarrow> copy_index head (length data) i \<noteq> copy_index tail len j)
    \<and> (spsc_observer s = F_returned True \<longrightarrow> body_eof (spsc_body s) \<and> spsc_delivered s = spsc_accepted s)"
proof (intro conjI)
  have inv: "spsc_inv s" using assms spsc_run_inv spsc_init_inv by blast
  then have "spsc_accepted s = spsc_delivered s @ drop (length (spsc_delivered s)) (spsc_accepted s)"
    by (metis append_take_drop_id queue_ok_def spsc_inv_def)
  then show "\<exists>rest. spsc_accepted s = spsc_delivered s @ rest \<and> length rest \<le> CK_HTTP_REQUEST_BODY_BUFFER_BYTES"
    using inv by (intro exI) (auto simp: spsc_inv_def queue_ok_def)
  show "\<forall>data head i tail len j bytes.
         spsc_writer s = W_copy data head i \<and> i < length data \<and> spsc_reader s = R_copy tail len j bytes \<and> j < len
         \<longrightarrow> copy_index head (length data) i \<noteq> copy_index tail len j"
    using copies_disjoint [OF inv] by blast
qed (use spsc_run_inv [OF assms(2) spsc_init_inv [OF assms(1)]] in \<open>auto simp: spsc_inv_def\<close>)

definition sample_body_queue :: ck_http_request_body where
  "sample_body_queue = \<lparr>body_head = 9, body_tail = 3, body_eof = True, body_error = False,
     body_buffer = replicate CK_HTTP_REQUEST_BODY_BUFFER_BYTES 0\<rparr>"

text \<open>The consumer loads the head between the two bytes of a write, and reads both afterwards.\<close>

definition sample_schedule :: "spsc_event list" where
  "sample_schedule = [Write_call [7, 8], Write_go, Write_go, Write_go, Write_go, Write_go, Write_go,
     Read_call 4, Read_go, Write_go, Write_go, Mark_eof, Read_go, Read_go, Read_go,
     Read_call 4, Read_go, Read_go, Read_go, Read_go, Read_go,
     Finished_call, Finished_go, Finished_go, Finished_go]"

theorem spsc_safe_witness:
  "\<exists>s. spsc_run sample_schedule (spsc_init sample_body_queue) = Some s \<and> spsc_observer s = F_returned True
     \<and> spsc_delivered s = spsc_accepted s \<and> spsc_accepted s = [7, 8]"
proof -
  have len: "length (body_buffer sample_body_queue) = CK_HTTP_REQUEST_BODY_BUFFER_BYTES"
    by (simp add: sample_body_queue_def)
  obtain s where s: "spsc_run sample_schedule (spsc_init sample_body_queue) = Some s"
      "spsc_observer s = F_returned True" "spsc_accepted s = [7, 8]"
    by (simp add: sample_schedule_def spsc_init_def ck_http_request_body_init_def published_def released_def
        body_used_def Let_def ck_http_request_body_mark_eof_def copy_index_def sample_body_queue_def
        CK_HTTP_REQUEST_BODY_BUFFER_BYTES_def)
  with spsc_safe [OF len s(1)] show ?thesis by auto
qed

text \<open>
  C36. A consumer can be told that the body has ended while bytes of it are unread.  For every body that fits
  there is an interleaving in which the read loads an equal head and tail, the producer then writes the
  body and marks its end, and the read goes on to load the end mark: it returns
  \<open>CK_HTTP_REQUEST_BODY_READ_EOF\<close>, nothing has been delivered and all the bytes are in the queue.
\<close>

theorem spsc_eof_race:
  assumes "length (body_buffer b) = CK_HTTP_REQUEST_BODY_BUFFER_BYTES"
    and "data \<noteq> []" "length data \<le> CK_HTTP_REQUEST_BODY_BUFFER_BYTES"
  shows "\<exists>s. spsc_run ([Read_call capacity, Read_go, Read_go] @ write_alone data @ [Mark_eof, Read_go, Read_go])
       (spsc_init b) = Some s
    \<and> spsc_reader s = R_returned CK_HTTP_REQUEST_BODY_READ_EOF []
    \<and> spsc_accepted s = data \<and> spsc_delivered s = [] \<and> body_bytes (spsc_body s) = data"
proof -
  let ?b = "ck_http_request_body_init b" and ?s = "(spsc_init b)\<lparr>spsc_reader := R_load_error\<rparr>"
  have wf: "body_wf ?b" and empty: "body_bytes ?b = []"
    using assms(1) by (simp_all add: body_wf_def body_bytes_def ck_http_request_body_init_def)
  have read: "spsc_run [Read_call capacity, Read_go, Read_go] (spsc_init b) = Some ?s"
    by (simp add: spsc_init_def ck_http_request_body_init_def released_def body_used_def Let_def)
  obtain r n b' where op: "ck_http_request_body_write False ?b data = (r, n, b')" using prod_cases3 by blast
  have "n = length data" and b': "body_bytes b' = data" "\<not> body_error b'"
    using body_write_refines [OF wf, of data] op empty assms(2,3)
    by (auto simp: ck_http_request_body_init_def)
  moreover have "spsc_run (write_alone data) ?s
      = Some (?s\<lparr>spsc_body := b', spsc_writer := W_returned r n, spsc_accepted := spsc_accepted ?s @ take n data\<rparr>)"
    by (rule spsc_write_alone) (use wf op in \<open>simp_all add: spsc_init_def\<close>)
  ultimately have "spsc_run ([Read_call capacity, Read_go, Read_go] @ write_alone data @ [Mark_eof, Read_go, Read_go])
      (spsc_init b) = Some (?s\<lparr>spsc_body := b'\<lparr>body_eof := True\<rparr>, spsc_writer := W_returned r n,
        spsc_accepted := data, spsc_reader := R_returned CK_HTTP_REQUEST_BODY_READ_EOF []\<rparr>)"
    unfolding spsc_run_append read
    by (simp add: spsc_init_def released_def ck_http_request_body_mark_eof_def)
  then show ?thesis using b' by (auto simp: spsc_init_def body_bytes_def)
qed

theorem spsc_eof_race_witness:
  "\<exists>s. spsc_run ([Read_call 16, Read_go, Read_go] @ write_alone [7] @ [Mark_eof, Read_go, Read_go])
      (spsc_init sample_body_queue) = Some s
     \<and> spsc_reader s = R_returned CK_HTTP_REQUEST_BODY_READ_EOF [] \<and> body_bytes (spsc_body s) = [7]"
  using spsc_eof_race [of sample_body_queue "[7]" 16]
  by (auto simp: sample_body_queue_def CK_HTTP_REQUEST_BODY_BUFFER_BYTES_def)

end
