(* ===== verification/Ck_Config.thy ===== *)
theory Ck_Config
  imports Ck_Prelude
begin

text \<open>
  The configuration file: \<open>c/config/ck_config.[ch]\<close> and the handler and directive table of
  \<open>c/core/main.c\<close>.

  A C string is the bytes before its NUL, a cursor is the rest of the string, so that the test for
  NUL is the test for the empty list.  The file is the bytes it holds and whether reading past them
  is an error instead of the end of the file.  An error text is kept before \<open>snprintf\<close> cuts it to
  the caller's buffer; a call that leaves the buffer alone gives \<open>None\<close>.  The locale is the one C
  starts with, so \<open>isspace\<close> is the six ASCII characters.
\<close>

section \<open>The configuration record\<close>

definition CK_CONFIG_LINE_SIZE :: nat where "CK_CONFIG_LINE_SIZE = 4096"
definition CK_CONFIG_MAX_ARGS :: nat where "CK_CONFIG_MAX_ARGS = 8"

definition CK_CONFIG_DEFAULT_CLASS_PATH :: "u8 list" where
  "CK_CONFIG_DEFAULT_CLASS_PATH = bytes_of ''build/classes''"

abbreviation QUOTE :: u8 where "QUOTE \<equiv> 34"
abbreviation HASH :: u8 where "HASH \<equiv> 35"
abbreviation BACKSLASH :: u8 where "BACKSLASH \<equiv> 92"
abbreviation LBRACE :: u8 where "LBRACE \<equiv> 123"
abbreviation RBRACE :: u8 where "RBRACE \<equiv> 125"

datatype config_message = At_Line nat string | Message string

record ck_config =
  class_path :: "u8 list option"
  class_path_configured :: bool

text \<open>\<open>ck_config_set_error\<close> returns \<open>-1\<close>; here it is the text it writes.\<close>

definition ck_config_set_error :: "nat \<Rightarrow> string \<Rightarrow> config_message" where
  "ck_config_set_error line message = At_Line line message"

text \<open>The copy is \<open>None\<close> when \<open>malloc\<close> fails.\<close>

definition ck_config_copy_string :: "bool \<Rightarrow> u8 list \<Rightarrow> u8 list option" where
  "ck_config_copy_string malloc_ok value = (if malloc_ok then Some value else None)"

definition ck_config_init :: "bool \<Rightarrow> bool \<Rightarrow> ck_config \<Rightarrow> int \<times> ck_config" where
  "ck_config_init null_arg malloc_ok config =
    (if null_arg then (-1, config)
     else
       case ck_config_copy_string malloc_ok CK_CONFIG_DEFAULT_CLASS_PATH of
         None \<Rightarrow> (-1, config\<lparr>class_path := None\<rparr>)
       | Some path \<Rightarrow> (0, config\<lparr>class_path := Some path, class_path_configured := False\<rparr>))"

definition ck_config_set_class_path ::
  "bool \<Rightarrow> bool \<Rightarrow> ck_config \<Rightarrow> u8 list \<Rightarrow> int \<times> config_message option \<times> ck_config" where
  "ck_config_set_class_path null_arg malloc_ok config value =
    (if null_arg \<or> value = [] then (-1, Some (Message ''class_path requires a non-empty value''), config)
     else if class_path_configured config
     then (-1, Some (Message ''duplicate class_path directive''), config)
     else
       case ck_config_copy_string malloc_ok value of
         None \<Rightarrow> (-1, Some (Message ''out of memory''), config)
       | Some path \<Rightarrow> (0, None, config\<lparr>class_path := Some path, class_path_configured := True\<rparr>))"

definition ck_config_destroy :: "bool \<Rightarrow> ck_config \<Rightarrow> ck_config" where
  "ck_config_destroy null_arg config =
    (if null_arg then config else config\<lparr>class_path := None, class_path_configured := False\<rparr>)"

section \<open>Tokens\<close>

definition c_isspace :: "u8 \<Rightarrow> bool" where
  "c_isspace ch \<longleftrightarrow> ch = SP \<or> (9 \<le> ch \<and> ch \<le> 13)"

definition unescape :: "u8 \<Rightarrow> u8 option" where
  "unescape ch =
    (if ch = QUOTE \<or> ch = BACKSLASH then Some ch
     else if ch = 110 then Some LF
     else if ch = 116 then Some TAB
     else None)"

text \<open>
  The loop of \<open>ck_config_parse_token\<close> with its test for a closed quote: the message of an error, or
  the token and the rest of the string.
\<close>

function token_loop :: "nat \<Rightarrow> bool \<Rightarrow> u8 list \<Rightarrow> u8 list \<Rightarrow> string + u8 list \<times> u8 list" where
  "token_loop token_size quoted p token =
    (case p of
       [] \<Rightarrow> if quoted then Inl ''unterminated quoted string'' else Inr (token, [])
     | ch # p1 \<Rightarrow>
         if quoted then
           if ch = QUOTE then Inr (token, p1)
           else if ch = BACKSLASH then
             (case p1 of
                [] \<Rightarrow> Inl ''unterminated escape''
              | e # p2 \<Rightarrow>
                  (case unescape e of
                     None \<Rightarrow> Inl ''unsupported escape''
                   | Some ch1 \<Rightarrow>
                       if length token + 1 \<ge> token_size then Inl ''token is too long''
                       else token_loop token_size quoted p2 (token @ [ch1])))
           else if length token + 1 \<ge> token_size then Inl ''token is too long''
           else token_loop token_size quoted p1 (token @ [ch])
         else if c_isspace ch \<or> ch = SEMICOLON \<or> ch = HASH then Inr (token, p)
         else if length token + 1 \<ge> token_size then Inl ''token is too long''
         else token_loop token_size quoted p1 (token @ [ch]))"
  by pat_completeness auto
termination by (relation "measure (\<lambda>(_, _, p, _). length p)") auto

declare token_loop.simps [simp del]

text \<open>An empty token is a failure that writes no text.\<close>

definition ck_config_parse_token ::
  "nat \<Rightarrow> nat \<Rightarrow> u8 list \<Rightarrow> config_message option + u8 list \<times> u8 list" where
  "ck_config_parse_token token_size line cursor =
    (let (quoted, p) = (case cursor of [] \<Rightarrow> (False, []) | ch # p \<Rightarrow> if ch = QUOTE then (True, p) else (False, cursor)) in
     case token_loop token_size quoted p [] of
       Inl message \<Rightarrow> Inl (Some (ck_config_set_error line message))
     | Inr (token, rest) \<Rightarrow> if length token = 0 then Inl None else Inr (token, rest))"

section \<open>Directives\<close>

type_synonym config_handler =
  "ck_config \<Rightarrow> u8 list list \<Rightarrow> nat \<Rightarrow> int \<times> config_message option \<times> ck_config"

record ck_config_directive =
  directive_name :: "u8 list"
  directive_handler :: "config_handler option"

fun ck_config_find_directive :: "ck_config_directive list \<Rightarrow> u8 list \<Rightarrow> ck_config_directive option" where
  "ck_config_find_directive [] name = None"
| "ck_config_find_directive (d # ds) name =
     (if directive_name d = name then Some d else ck_config_find_directive ds name)"

abbreviation skip_space :: "u8 list \<Rightarrow> u8 list" where
  "skip_space \<equiv> dropWhile c_isspace"

lemma token_loop_keeps:
  "token_loop n q p token = Inr (token', rest) \<Longrightarrow>
     \<exists>more. token' = token @ more \<and> length rest \<le> length p \<and> (more \<noteq> [] \<longrightarrow> length rest < length p)"
proof (induction "length p" arbitrary: p token rule: less_induct)
  case less
  have step: "\<exists>more. token' = token @ more \<and> length rest \<le> length p \<and> (more \<noteq> [] \<longrightarrow> length rest < length p)"
    if "token_loop n q p1 (token @ [c]) = Inr (token', rest)" "length p1 < length p" for p1 c
    using less.hyps [OF that(2,1)] that(2) by auto
  show ?case
  proof (cases p)
    case Nil
    with less.prems show ?thesis by (subst (asm) token_loop.simps) (simp split: if_splits)
  next
    case (Cons ch p1)
    show ?thesis
    proof (cases "p1 = []")
      case True
      with less.prems Cons step [unfolded Cons] show ?thesis
        by (subst (asm) token_loop.simps) (auto split: if_splits)
    next
      case False
      then obtain e p2 where "p1 = e # p2" by (cases p1) auto
      with less.prems Cons step [unfolded Cons] show ?thesis
        by (subst (asm) token_loop.simps) (auto split: if_splits option.splits)
    qed
  qed
qed

lemma parse_token_shorter:
  assumes "ck_config_parse_token n line cursor = Inr (token, rest)"
  shows "length rest < length cursor"
proof -
  obtain q p where *: "token_loop n q p [] = Inr (token, rest)" "length p \<le> length cursor" "token \<noteq> []"
    using assms by (auto simp: ck_config_parse_token_def split: list.splits if_splits sum.splits prod.splits)
  from token_loop_keeps [OF *(1)] *(2,3) show ?thesis by auto
qed

text \<open>The argument loop: the arguments and the rest behind the semicolon.\<close>

function argument_loop ::
  "nat \<Rightarrow> u8 list \<Rightarrow> u8 list list \<Rightarrow> config_message option + u8 list list \<times> u8 list" where
  "argument_loop line cursor args =
    (case skip_space cursor of
       [] \<Rightarrow> Inl (Some (ck_config_set_error line ''missing semicolon''))
     | ch # p \<Rightarrow>
         if ch = HASH then Inl (Some (ck_config_set_error line ''missing semicolon''))
         else if ch = SEMICOLON then Inr (args, p)
         else if length args = CK_CONFIG_MAX_ARGS
         then Inl (Some (ck_config_set_error line ''too many directive arguments''))
         else
           case ck_config_parse_token CK_CONFIG_LINE_SIZE line (ch # p) of
             Inl e \<Rightarrow> Inl e
           | Inr (token, rest) \<Rightarrow> argument_loop line rest (args @ [token]))"
  by pat_completeness auto
termination
proof (relation "measure (\<lambda>(_, cursor, _). length cursor)", goal_cases)
  case (2 line cursor args ch p b token rest)
  have "length (skip_space cursor) \<le> length cursor" by (rule length_dropWhile_le)
  with 2 show ?case by (auto dest!: parse_token_shorter)
qed simp

declare argument_loop.simps [simp del]

text \<open>The end of a line: the directive is looked up and its handler called.\<close>

definition config_call ::
  "ck_config_directive list \<Rightarrow> nat \<Rightarrow> u8 list \<Rightarrow> u8 list list \<Rightarrow> ck_config
   \<Rightarrow> int \<times> config_message option \<times> ck_config" where
  "config_call directives line name args config =
    (case ck_config_find_directive directives name of
       None \<Rightarrow> (-1, Some (ck_config_set_error line ''unknown or invalid directive''), config)
     | Some d \<Rightarrow>
         (case directive_handler d of
            None \<Rightarrow> (-1, Some (ck_config_set_error line ''unknown or invalid directive''), config)
          | Some handler \<Rightarrow>
              let (r, e, config1) = handler config args line in
              if r \<noteq> 0 then (-1, e, config1) else (0, None, config1)))"

text \<open>The body of the line loop; \<open>0\<close> goes on with the next line.\<close>

definition config_line ::
  "ck_config_directive list \<Rightarrow> nat \<Rightarrow> u8 list \<Rightarrow> ck_config \<Rightarrow> int \<times> config_message option \<times> ck_config" where
  "config_line directives line str config =
    (case skip_space str of
       [] \<Rightarrow> (0, None, config)
     | ch # p \<Rightarrow>
         if ch = HASH then (0, None, config)
         else if ch = LBRACE \<or> ch = RBRACE
         then (-1, Some (ck_config_set_error line ''blocks are not supported in this configuration version''), config)
         else
           case ck_config_parse_token CK_CONFIG_LINE_SIZE line (ch # p) of
             Inl e \<Rightarrow> (-1, e, config)
           | Inr (name, rest) \<Rightarrow>
               (case argument_loop line rest [] of
                  Inl e \<Rightarrow> (-1, e, config)
                | Inr (args, rest1) \<Rightarrow>
                    if (case skip_space rest1 of [] \<Rightarrow> False | c # _ \<Rightarrow> c \<noteq> HASH)
                    then (-1, Some (ck_config_set_error line ''unexpected characters after semicolon''), config)
                    else
                      config_call directives line name args config))"

section \<open>Files\<close>

text \<open>
  \<open>fgets\<close> with a buffer of \<open>n\<close> bytes: up to \<open>n - 1\<close> bytes, not past a newline.  The end-of-file mark is
  set when the call met the end of the file, a read error gives NULL.  The result is the bytes read,
  the mark and the rest of the file.
\<close>

definition c_fgets :: "nat \<Rightarrow> bool \<Rightarrow> u8 list \<Rightarrow> (u8 list \<times> bool \<times> u8 list) option" where
  "c_fgets n read_error content =
    (let window = take (n - 1) content; line = takeWhile (\<lambda>b. b \<noteq> LF) window in
     if length line < length window
     then Some (line @ [LF], False, drop (length line + 1) content)
     else if length content \<ge> n - 1 then Some (window, False, drop (n - 1) content)
     else if read_error \<or> content = [] then None
     else Some (content, True, []))"

text \<open>The string in the buffer ends at the first NUL.\<close>

definition c_string :: "u8 list \<Rightarrow> u8 list" where
  "c_string bs = takeWhile (\<lambda>b. b \<noteq> NUL) bs"

lemma c_fgets_shorter:
  "c_fgets n err content = Some (bs, eof, rest) \<Longrightarrow> 1 < n \<Longrightarrow> length rest < length content"
  by (auto simp: c_fgets_def Let_def split: if_splits)

function config_loop ::
  "ck_config_directive list \<Rightarrow> bool \<Rightarrow> u8 list \<Rightarrow> nat \<Rightarrow> ck_config
   \<Rightarrow> int \<times> config_message option \<times> ck_config" where
  "config_loop directives read_error content line config =
    (case c_fgets CK_CONFIG_LINE_SIZE read_error content of
       None \<Rightarrow>
         if read_error then (-1, Some (ck_config_set_error line ''error while reading configuration''), config)
         else (0, None, config)
     | Some (bs, eof, rest) \<Rightarrow>
         let line1 = line + 1; str = c_string bs in
         if LF \<notin> set str \<and> \<not> eof
         then (-1, Some (ck_config_set_error line1 ''configuration line is too long''), config)
         else
           let (r, e, config1) = config_line directives line1 str config in
           if r \<noteq> 0 then (r, e, config1)
           else config_loop directives read_error rest line1 config1)"
  by pat_completeness auto
termination
proof (relation "measure (\<lambda>(_, _, content, _, _). length content)", goal_cases)
  case (2 directives read_error content)
  then show ?case by (auto simp: CK_CONFIG_LINE_SIZE_def dest: c_fgets_shorter)
qed simp

declare config_loop.simps [simp del]

text \<open>\<open>fopen\<close> gives the file or the text of \<open>errno\<close>.\<close>

definition ck_config_load_file ::
  "bool \<Rightarrow> ck_config_directive list \<Rightarrow> string + u8 list \<times> bool \<Rightarrow> ck_config
   \<Rightarrow> int \<times> config_message option \<times> ck_config" where
  "ck_config_load_file null_arg directives fopen_result config =
    (if null_arg \<or> directives = [] then (-1, None, config)
     else
       case fopen_result of
         Inl strerror \<Rightarrow> (-1, Some (Message (''cannot open configuration: '' @ strerror)), config)
       | Inr (content, read_error) \<Rightarrow> config_loop directives read_error content 0 config)"

text \<open>The text that \<open>ck_config_dump\<close> prints.\<close>

definition ck_config_dump :: "bool \<Rightarrow> ck_config \<Rightarrow> int \<times> u8 list" where
  "ck_config_dump null_arg config =
    (if null_arg then (-1, [])
     else
       case class_path config of
         None \<Rightarrow> (-1, [])
       | Some path \<Rightarrow> (0, bytes_of ''class_path '' @ [QUOTE] @ path @ [QUOTE, SEMICOLON, LF]))"

section \<open>The directive table of main\<close>

definition apply_class_path :: "bool \<Rightarrow> config_handler" where
  "apply_class_path malloc_ok config args line =
    (case args of
       [value] \<Rightarrow>
         let (r, e, config1) = ck_config_set_class_path False malloc_ok config value in
         if r \<noteq> 0
         then (-1, Some (At_Line line (case e of Some (Message m) \<Rightarrow> take 511 m | _ \<Rightarrow> [])), config1)
         else (0, None, config1)
     | _ \<Rightarrow> (-1, Some (At_Line line ''class_path requires one value''), config))"

definition main_directives :: "bool \<Rightarrow> ck_config_directive list" where
  "main_directives malloc_ok =
     [\<lparr>directive_name = bytes_of ''class_path'', directive_handler = Some (apply_class_path malloc_ok)\<rparr>]"

section \<open>Printing and parsing\<close>

text \<open>
  A directive as it may stand in a file: each token quoted or plain.  A quoted token escapes the
  quote, the backslash and the newline; a plain one has no separator and does not start like a
  quoted one.
\<close>

type_synonym layout_token = "bool \<times> u8 list"
type_synonym layout_directive = "layout_token \<times> layout_token list"

definition escape_byte :: "u8 \<Rightarrow> u8 list" where
  "escape_byte b = (if b = QUOTE \<or> b = BACKSLASH then [BACKSLASH, b] else if b = LF then [BACKSLASH, 110] else [b])"

definition separator :: "u8 \<Rightarrow> bool" where
  "separator ch \<longleftrightarrow> c_isspace ch \<or> ch = SEMICOLON \<or> ch = HASH"

definition print_token :: "layout_token \<Rightarrow> u8 list" where
  "print_token t = (if fst t then QUOTE # concat (map escape_byte (snd t)) @ [QUOTE] else snd t)"

definition print_directive :: "layout_directive \<Rightarrow> u8 list" where
  "print_directive d =
     print_token (fst d) @ concat (map (\<lambda>t. SP # print_token t) (snd d)) @ [SEMICOLON, LF]"

definition token_ok :: "layout_token \<Rightarrow> bool" where
  "token_ok t \<longleftrightarrow> snd t \<noteq> [] \<and> length (snd t) < CK_CONFIG_LINE_SIZE \<and> NUL \<notin> set (snd t)
     \<and> (\<not> fst t \<longrightarrow> hd (snd t) \<noteq> QUOTE \<and> list_all (\<lambda>b. \<not> separator b) (snd t))"

definition directive_ok :: "layout_directive \<Rightarrow> bool" where
  "directive_ok d \<longleftrightarrow> token_ok (fst d) \<and> list_all token_ok (snd d) \<and> length (snd d) \<le> CK_CONFIG_MAX_ARGS
     \<and> (\<not> fst (fst d) \<longrightarrow> hd (snd (fst d)) \<notin> {LBRACE, RBRACE})
     \<and> length (print_directive d) < CK_CONFIG_LINE_SIZE"

lemma special_bytes [simp]:
  "\<not> c_isspace QUOTE" "\<not> c_isspace SEMICOLON" "\<not> c_isspace HASH" "c_isspace SP" "c_isspace LF"
  by (simp_all add: c_isspace_def)

lemma unescape_simps [simp]: "unescape QUOTE = Some QUOTE" "unescape BACKSLASH = Some BACKSLASH" "unescape 110 = Some LF"
  by (simp_all add: unescape_def)

lemma token_loop_quoted:
  "length token + length t < n \<Longrightarrow>
   token_loop n True (concat (map escape_byte t) @ QUOTE # rest) token = Inr (token @ t, rest)"
proof (induction t arbitrary: token)
  case Nil
  show ?case by (subst token_loop.simps) simp
next
  case (Cons b t)
  then show ?case by (subst token_loop.simps) (auto simp: escape_byte_def [of b])
qed

lemma token_loop_plain:
  "length token + length t < n \<Longrightarrow> list_all (\<lambda>b. \<not> separator b) t \<Longrightarrow> rest \<noteq> [] \<Longrightarrow> separator (hd rest) \<Longrightarrow>
   token_loop n False (t @ rest) token = Inr (token @ t, rest)"
proof (induction t arbitrary: token)
  case Nil
  then show ?case by (subst token_loop.simps) (auto simp: separator_def split: list.splits)
next
  case (Cons b t)
  then show ?case by (subst token_loop.simps) (auto simp: separator_def)
qed

lemma parse_print_token:
  assumes "token_ok t" "rest \<noteq> []" "separator (hd rest)"
  shows "ck_config_parse_token CK_CONFIG_LINE_SIZE line (print_token t @ rest) = Inr (snd t, rest)"
proof (cases "fst t")
  case True
  then show ?thesis
    using assms token_loop_quoted [of "[]" "snd t" CK_CONFIG_LINE_SIZE rest]
    by (simp add: ck_config_parse_token_def print_token_def token_ok_def)
next
  case False
  with assms obtain b bs where t: "snd t = b # bs" "b \<noteq> QUOTE"
    by (cases "snd t") (auto simp: token_ok_def)
  then show ?thesis
    using False assms token_loop_plain [of "[]" "snd t" CK_CONFIG_LINE_SIZE rest]
    by (simp add: ck_config_parse_token_def print_token_def token_ok_def)
qed

text \<open>A printed token starts with a byte that the callers do not treat specially.\<close>

lemma print_token_start:
  assumes "token_ok t"
  obtains ch p where "print_token t = ch # p" "\<not> c_isspace ch" "ch \<noteq> HASH" "ch \<noteq> SEMICOLON"
    "\<not> fst t \<Longrightarrow> ch = hd (snd t)" "fst t \<Longrightarrow> ch = QUOTE"
proof (cases "fst t")
  case True
  then show ?thesis by (intro that) (auto simp: print_token_def)
next
  case False
  with assms obtain b bs where t: "snd t = b # bs" by (cases "snd t") (auto simp: token_ok_def)
  with False assms show ?thesis
    by (intro that [of b bs]) (auto simp: print_token_def token_ok_def separator_def)
qed

lemma argument_loop_print:
  "list_all token_ok ts \<Longrightarrow> length args + length ts \<le> CK_CONFIG_MAX_ARGS \<Longrightarrow>
   argument_loop line (concat (map (\<lambda>t. SP # print_token t) ts) @ SEMICOLON # rest) args
     = Inr (args @ map snd ts, rest)"
proof (induction ts arbitrary: args)
  case Nil
  show ?case by (subst argument_loop.simps) simp
next
  case (Cons t ts)
  obtain ch p where p: "print_token t = ch # p" "\<not> c_isspace ch" "ch \<noteq> HASH" "ch \<noteq> SEMICOLON"
    using Cons.prems by (auto elim: print_token_start [of t])
  let ?more = "concat (map (\<lambda>t. SP # print_token t) ts) @ SEMICOLON # rest"
  have "separator (hd ?more)" by (cases ts) (auto simp: separator_def)
  then have "ck_config_parse_token CK_CONFIG_LINE_SIZE line (ch # p @ ?more) = Inr (snd t, ?more)"
    using Cons.prems parse_print_token [of t ?more line] by (simp add: p)
  then show ?case
    using Cons by (subst argument_loop.simps) (simp add: p)
qed

text \<open>What a line means: its directive is looked up and its handler called.\<close>

lemma config_line_print:
  assumes "directive_ok d"
  shows "config_line directives line (print_directive d) config
    = config_call directives line (snd (fst d)) (map snd (snd d)) config"
proof -
  have ok: "token_ok (fst d)" "list_all token_ok (snd d)" "length (snd d) \<le> CK_CONFIG_MAX_ARGS"
    using assms by (auto simp: directive_ok_def)
  obtain ch p where p: "print_token (fst d) = ch # p" "\<not> c_isspace ch" "ch \<noteq> HASH" "ch \<notin> {LBRACE, RBRACE}"
    using assms ok(1) by (auto simp: directive_ok_def elim!: print_token_start [of "fst d"])
  let ?more = "concat (map (\<lambda>t. SP # print_token t) (snd d)) @ [SEMICOLON, LF]"
  have "separator (hd ?more)" by (cases "snd d") (auto simp: separator_def)
  then have "ck_config_parse_token CK_CONFIG_LINE_SIZE line (ch # p @ ?more) = Inr (snd (fst d), ?more)"
    using ok parse_print_token [of "fst d" ?more line] by (simp add: p)
  then show ?thesis
    using p ok argument_loop_print [of "snd d" "[]" line "[LF]"]
    by (simp add: config_line_def print_directive_def)
qed

lemma print_token_bytes:
  assumes "token_ok t"
  shows "LF \<notin> set (print_token t)" "NUL \<notin> set (print_token t)"
proof -
  have "LF \<notin> set (escape_byte b)" "NUL \<in> set (escape_byte b) \<longleftrightarrow> b = NUL" for b
    by (auto simp: escape_byte_def)
  moreover have "\<not> fst t \<Longrightarrow> LF \<notin> set (snd t)"
    using assms by (auto simp: token_ok_def list_all_iff separator_def)
  ultimately show "LF \<notin> set (print_token t)" "NUL \<notin> set (print_token t)"
    using assms by (auto simp: print_token_def token_ok_def)
qed

lemma print_directive_bytes:
  assumes "directive_ok d"
  obtains l where "print_directive d = l @ [LF]" "LF \<notin> set l" "NUL \<notin> set l" "length l < CK_CONFIG_LINE_SIZE - 1"
proof
  let ?l = "print_token (fst d) @ concat (map (\<lambda>t. SP # print_token t) (snd d)) @ [SEMICOLON]"
  show split: "print_directive d = ?l @ [LF]" by (simp add: print_directive_def)
  show "LF \<notin> set ?l" "NUL \<notin> set ?l"
    using assms print_token_bytes by (auto simp: directive_ok_def list_all_iff)
  have "length (?l @ [LF]) < CK_CONFIG_LINE_SIZE"
    using assms unfolding directive_ok_def split by blast
  then show "length ?l < CK_CONFIG_LINE_SIZE - 1" by simp
qed

lemma c_fgets_line:
  assumes "LF \<notin> set l" "length l < n - 1"
  shows "c_fgets n err (l @ LF # rest) = Some (l @ [LF], False, rest)"
proof -
  obtain k where k: "n - 1 = length l + Suc k"
    using assms(2) less_iff_Suc_add by (metis add_Suc_right)
  then have window: "take (n - 1) (l @ LF # rest) = l @ LF # take k rest" by simp
  have "takeWhile (\<lambda>b. b \<noteq> LF) (l @ LF # take k rest) = l"
    using assms(1) by (subst takeWhile_append2) auto
  then show ?thesis unfolding c_fgets_def Let_def window by simp
qed

text \<open>The meaning of a sequence of directives from a given line on.\<close>

fun config_spec ::
  "ck_config_directive list \<Rightarrow> nat \<Rightarrow> layout_directive list \<Rightarrow> ck_config
   \<Rightarrow> int \<times> config_message option \<times> ck_config" where
  "config_spec directives line [] config = (0, None, config)"
| "config_spec directives line (d # ds) config =
    (let (r, e, config1) = config_call directives line (snd (fst d)) (map snd (snd d)) config in
     if r \<noteq> 0 then (r, e, config1) else config_spec directives (line + 1) ds config1)"

lemma config_loop_print:
  "list_all directive_ok ds \<Longrightarrow>
   config_loop directives False (concat (map print_directive ds)) line config
     = config_spec directives (line + 1) ds config"
proof (induction ds arbitrary: line config)
  case Nil
  show ?case by (subst config_loop.simps) (simp add: c_fgets_def CK_CONFIG_LINE_SIZE_def)
next
  case (Cons d ds)
  obtain l where l: "print_directive d = l @ [LF]" "LF \<notin> set l" "NUL \<notin> set l" "length l < CK_CONFIG_LINE_SIZE - 1"
    using Cons.prems by (auto elim: print_directive_bytes)
  have "c_string (l @ [LF]) = l @ [LF]"
    using l(3) by (simp add: c_string_def takeWhile_eq_all_conv) metis
  then show ?case
    using Cons l c_fgets_line [OF l(2,4), of False "concat (map print_directive ds)"]
      config_line_print [of d directives "Suc line" config]
    by (subst config_loop.simps) (simp add: case_prod_beta)
qed

section \<open>Properties\<close>

text \<open>
  C34. Round trip of the configuration language: a file that prints any sequence of directives, each
  token quoted (with the escapes of the reader) or plain, at most eight arguments and lines that fit
  the buffer, is read as exactly that sequence: the handlers are called in file order with the
  original tokens and the right line numbers, and the first failure ends the load.
\<close>

theorem config_load_printed:
  assumes "directives \<noteq> []" "list_all directive_ok ds"
  shows "ck_config_load_file False directives (Inr (concat (map print_directive ds), False)) config
    = config_spec directives 1 ds config"
  using assms config_loop_print [of ds directives 0 config] by (simp add: ck_config_load_file_def)

text \<open>
  The dump of a configuration is a configuration file for it: for a class path without quote,
  backslash and newline, loading what \<open>ck_config_dump\<close> prints into a fresh configuration gives back
  that class path.
\<close>

theorem config_dump_load:
  assumes "path \<noteq> []" "NUL \<notin> set path" "QUOTE \<notin> set path" "BACKSLASH \<notin> set path" "LF \<notin> set path"
    and "length path + 15 < CK_CONFIG_LINE_SIZE"
    and "ck_config_init False True config0 = (0, config)"
  shows "ck_config_load_file False (main_directives True)
      (Inr (snd (ck_config_dump False \<lparr>class_path = Some path, class_path_configured = configured\<rparr>), False)) config
    = (0, None, \<lparr>class_path = Some path, class_path_configured = True\<rparr>)"
proof -
  let ?d = "((False, bytes_of ''class_path''), [(True, path)]) :: layout_directive"
  have plain: "concat (map escape_byte path) = path"
    using assms(3-5) by (induction path) (auto simp: escape_byte_def)
  then have printed: "print_directive ?d
      = snd (ck_config_dump False \<lparr>class_path = Some path, class_path_configured = configured\<rparr>)"
    by (simp add: print_directive_def print_token_def ck_config_dump_def bytes_of_def)
  have name: "token_ok (False, bytes_of ''class_path'')" "hd (bytes_of ''class_path'') \<notin> {LBRACE, RBRACE}"
    by (simp_all add: token_ok_def bytes_of_def separator_def c_isspace_def CK_CONFIG_LINE_SIZE_def)
  have "directive_ok ?d"
    using assms name plain
    by (simp add: directive_ok_def token_ok_def [of "(True, path)"] CK_CONFIG_MAX_ARGS_def print_directive_def
        print_token_def)
  moreover have "class_path_configured config = False"
    using assms(7) by (auto simp: ck_config_init_def ck_config_copy_string_def)
  ultimately show ?thesis
    using config_loop_print [of "[?d]" "main_directives True" 0 config] assms(1)
    by (simp add: ck_config_load_file_def printed main_directives_def config_call_def apply_class_path_def
        ck_config_set_class_path_def ck_config_copy_string_def)
qed

text \<open>Witnesses.\<close>

definition sample_layout :: "layout_directive list" where
  "sample_layout = [((True, bytes_of ''class_path''), [(True, [97, QUOTE, LF, BACKSLASH])])]"

definition default_config :: ck_config where
  "default_config = \<lparr>class_path = Some CK_CONFIG_DEFAULT_CLASS_PATH, class_path_configured = False\<rparr>"

theorem config_load_printed_witness:
  "ck_config_load_file False (main_directives True)
      (Inr (concat (map print_directive sample_layout), False)) default_config
    = (0, None, \<lparr>class_path = Some [97, QUOTE, LF, BACKSLASH], class_path_configured = True\<rparr>)"
proof -
  have "main_directives True \<noteq> []" by (simp add: main_directives_def)
  moreover have "list_all directive_ok sample_layout" by code_simp
  moreover have "config_spec (main_directives True) 1 sample_layout default_config
      = (0, None, \<lparr>class_path = Some [97, QUOTE, LF, BACKSLASH], class_path_configured = True\<rparr>)"
    by (simp add: sample_layout_def default_config_def main_directives_def config_call_def
        apply_class_path_def ck_config_set_class_path_def ck_config_copy_string_def)
  ultimately show ?thesis using config_load_printed by metis
qed

theorem config_dump_load_witness:
  "ck_config_load_file False (main_directives True)
      (Inr (snd (ck_config_dump False \<lparr>class_path = Some (bytes_of ''lib/a b''), class_path_configured = True\<rparr>), False))
      default_config
    = (0, None, \<lparr>class_path = Some (bytes_of ''lib/a b''), class_path_configured = True\<rparr>)"
  by (rule config_dump_load [where config0 = default_config])
    (simp_all add: bytes_of_def CK_CONFIG_LINE_SIZE_def ck_config_init_def ck_config_copy_string_def default_config_def)

text \<open>
  The dump does not escape: a class path with a backslash, which a configuration file can set,
  is dumped as a line that the loader rejects.
\<close>

theorem config_dump_not_escaped:
  "snd (snd (ck_config_load_file False (main_directives True)
      (Inr (bytes_of ''class_path '' @ [QUOTE, 97, BACKSLASH, BACKSLASH, 98, QUOTE, SEMICOLON, LF], False)) default_config))
    = \<lparr>class_path = Some [97, BACKSLASH, 98], class_path_configured = True\<rparr>
   \<and> fst (ck_config_load_file False (main_directives True)
      (Inr (snd (ck_config_dump False \<lparr>class_path = Some [97, BACKSLASH, 98], class_path_configured = True\<rparr>), False))
      default_config) = -1"
proof
  show "snd (snd (ck_config_load_file False (main_directives True)
      (Inr (bytes_of ''class_path '' @ [QUOTE, 97, BACKSLASH, BACKSLASH, 98, QUOTE, SEMICOLON, LF], False)) default_config))
    = \<lparr>class_path = Some [97, BACKSLASH, 98], class_path_configured = True\<rparr>" by code_simp
  show "fst (ck_config_load_file False (main_directives True)
      (Inr (snd (ck_config_dump False \<lparr>class_path = Some [97, BACKSLASH, 98], class_path_configured = True\<rparr>), False))
      default_config) = -1" by code_simp
qed

text \<open>
  An empty token fails the load without a message: \<open>class_path\<close> with an empty quoted value ends
  with \<open>-1\<close> and an untouched error buffer.
\<close>

theorem config_empty_token_silent:
  "fst (ck_config_load_file False (main_directives True)
      (Inr (bytes_of ''class_path '' @ [QUOTE, QUOTE, SEMICOLON, LF], False)) default_config) = -1
   \<and> fst (snd (ck_config_load_file False (main_directives True)
      (Inr (bytes_of ''class_path '' @ [QUOTE, QUOTE, SEMICOLON, LF], False)) default_config)) = None"
proof
  show "fst (ck_config_load_file False (main_directives True)
      (Inr (bytes_of ''class_path '' @ [QUOTE, QUOTE, SEMICOLON, LF], False)) default_config) = -1" by code_simp
  show "fst (snd (ck_config_load_file False (main_directives True)
      (Inr (bytes_of ''class_path '' @ [QUOTE, QUOTE, SEMICOLON, LF], False)) default_config)) = None" by code_simp
qed

end
