(* ===== verification/Ck_Completion.thy ===== *)
theory Ck_Completion
  imports Ck_Ring
begin

text \<open>
  The completion queue, \<open>c/completion/ck_completion_queue.[ch]\<close>, through which the Java workers
  report finished requests to the event loop, and its wake-up channel
  \<open>c/event/ck_completion_notification.[ch]\<close>, an eventfd in non-blocking mode.

  The eventfd is its 64-bit counter, with the behaviour of the manual page: a write of 1 adds to
  it and fails with EAGAIN if it would exceed \<open>2\<^sup>6\<^sup>4 - 2\<close>, a read takes and clears it and fails
  with EAGAIN on zero.  That a system call fails for another reason is an argument
  (\<open>io_fault\<close>).  The queue's operations run under its mutex; the results of the pthread calls are
  arguments.
\<close>

section \<open>The notification\<close>

definition EAGAIN_code :: int where "EAGAIN_code = 11"
definition EIO_code :: int where "EIO_code = 5"

datatype io_fault = No_fault | Fails int | Short

record ck_completion_notification =
  notification_fd :: int
  notification_initialized :: bool
  notification_counter :: u64

definition EVENTFD_MAX :: u64 where "EVENTFD_MAX = 0xfffffffffffffffe"

text \<open>\<open>new_fd\<close> is the result of \<open>eventfd\<close>, \<open>Inl\<close> an errno.\<close>

definition ck_completion_notification_init ::
  "bool \<Rightarrow> int + int \<Rightarrow> ck_completion_notification \<Rightarrow> int \<times> ck_completion_notification" where
  "ck_completion_notification_init null_arg new_fd notification =
    (if null_arg then (-1, notification)
     else
       case new_fd of
         Inl e \<Rightarrow> (e, notification\<lparr>notification_fd := -1\<rparr>)
       | Inr fd \<Rightarrow> (0, \<lparr>notification_fd = fd, notification_initialized = True, notification_counter = 0\<rparr>))"

text \<open>The errno of the \<open>write\<close>, \<open>None\<close> for a complete write.\<close>

definition eventfd_write :: "io_fault \<Rightarrow> u64 \<Rightarrow> int option \<times> u64" where
  "eventfd_write fault counter =
    (case fault of
       Fails e \<Rightarrow> (Some e, counter)
     | Short \<Rightarrow> (Some EIO_code, counter)
     | No_fault \<Rightarrow> if counter < EVENTFD_MAX then (None, counter + 1) else (Some EAGAIN_code, counter))"

definition ck_completion_notification_signal ::
  "bool \<Rightarrow> io_fault \<Rightarrow> ck_completion_notification \<Rightarrow> int \<times> ck_completion_notification" where
  "ck_completion_notification_signal null_arg fault notification =
    (if null_arg \<or> \<not> notification_initialized notification then (-1, notification)
     else
       case eventfd_write fault (notification_counter notification) of
         (None, counter) \<Rightarrow> (0, notification\<lparr>notification_counter := counter\<rparr>)
       | (Some e, counter) \<Rightarrow> (if e = EAGAIN_code then 0 else e, notification))"

definition ck_completion_notification_fd :: "ck_completion_notification option \<Rightarrow> int" where
  "ck_completion_notification_fd notification =
    (case notification of
       None \<Rightarrow> -1
     | Some n \<Rightarrow> if \<not> notification_initialized n then -1 else notification_fd n)"

text \<open>
  The drain loop: read until EAGAIN.  The faults are those of the successive reads, none once the
  list is exhausted.
\<close>

fun eventfd_read :: "io_fault list \<Rightarrow> u64 \<Rightarrow> int option \<times> u64 \<times> io_fault list" where
  "eventfd_read (Fails e # faults) counter = (Some e, counter, faults)"
| "eventfd_read (Short # faults) counter = (Some EIO_code, counter, faults)"
| "eventfd_read (No_fault # faults) counter =
    (if counter = 0 then (Some EAGAIN_code, 0, faults) else (None, 0, faults))"
| "eventfd_read [] counter = (if counter = 0 then (Some EAGAIN_code, 0, []) else (None, 0, []))"

lemma eventfd_read_progress:
  "eventfd_read faults counter = (None, counter', faults') \<Longrightarrow> counter \<noteq> 0 \<and> counter' = 0"
  by (cases "(faults, counter)" rule: eventfd_read.cases) (auto split: if_splits)

function notification_drain_loop :: "io_fault list \<Rightarrow> u64 \<Rightarrow> int \<times> u64" where
  "notification_drain_loop faults counter =
    (case eventfd_read faults counter of
       (None, counter', faults') \<Rightarrow> notification_drain_loop faults' counter'
     | (Some e, counter', faults') \<Rightarrow> (if e = EAGAIN_code then 0 else e, counter'))"
  by pat_completeness auto
termination
  by (relation "measure (\<lambda>(faults, counter). unat counter)")
    (auto dest!: sym [of "(None, _, _)"] eventfd_read_progress simp: unat_gt_0)

declare notification_drain_loop.simps [simp del]

definition ck_completion_notification_drain ::
  "bool \<Rightarrow> io_fault list \<Rightarrow> ck_completion_notification \<Rightarrow> int \<times> ck_completion_notification" where
  "ck_completion_notification_drain null_arg faults notification =
    (if null_arg \<or> \<not> notification_initialized notification then (-1, notification)
     else
       case notification_drain_loop faults (notification_counter notification) of
         (r, counter) \<Rightarrow> (r, notification\<lparr>notification_counter := counter\<rparr>))"

definition ck_completion_notification_destroy ::
  "ck_completion_notification \<Rightarrow> ck_completion_notification" where
  "ck_completion_notification_destroy notification =
    (if \<not> notification_initialized notification then notification
     else notification\<lparr>notification_fd := -1, notification_initialized := False\<rparr>)"

section \<open>The queue\<close>

definition CK_COMPLETION_QUEUE_CAPACITY :: nat where "CK_COMPLETION_QUEUE_CAPACITY = 64"

record ck_completion_record =
  completion_request_id :: u64
  completion_owner_token :: u64
  completion_lifetime_token :: u64
  completion_cycle_id :: u64
  completion_result :: int
  completion_status :: int

record ck_completion_queue =
  queue_entries :: "ck_completion_record list"
  queue_head :: nat
  queue_tail :: nat
  queue_count :: nat
  queue_notification :: ck_completion_notification
  queue_initialized :: bool
  queue_closed :: bool

definition zero_record :: ck_completion_record where
  "zero_record = \<lparr>completion_request_id = 0, completion_owner_token = 0, completion_lifetime_token = 0,
     completion_cycle_id = 0, completion_result = 0, completion_status = 0\<rparr>"

definition ck_completion_queue_init ::
  "bool \<Rightarrow> int \<Rightarrow> int \<Rightarrow> int + int \<Rightarrow> ck_completion_queue \<Rightarrow> int \<times> ck_completion_queue" where
  "ck_completion_queue_init null_arg mutex_init cond_init new_fd queue =
    (if null_arg then (-1, queue)
     else
       let queue1 = \<lparr>queue_entries = replicate CK_COMPLETION_QUEUE_CAPACITY zero_record, queue_head = 0,
             queue_tail = 0, queue_count = 0,
             queue_notification = \<lparr>notification_fd = -1, notification_initialized = False, notification_counter = 0\<rparr>,
             queue_initialized = False, queue_closed = False\<rparr> in
       if mutex_init \<noteq> 0 then (mutex_init, queue1)
       else if cond_init \<noteq> 0 then (cond_init, queue1)
       else
         case ck_completion_notification_init False new_fd (queue_notification queue1) of
           (result, notification) \<Rightarrow>
             if result \<noteq> 0 then (result, queue1\<lparr>queue_notification := notification\<rparr>)
             else (0, queue1\<lparr>queue_notification := notification, queue_initialized := True\<rparr>))"

text \<open>Storing a record and signalling, with the roll-back of both pushes.\<close>

definition queue_store ::
  "mutex_calls \<Rightarrow> io_fault \<Rightarrow> ck_completion_queue \<Rightarrow> ck_completion_record \<Rightarrow> int \<times> ck_completion_queue" where
  "queue_store m fault queue record =
    (let queue1 = queue\<lparr>queue_entries := (queue_entries queue)[queue_tail queue := record],
           queue_tail := (queue_tail queue + 1) mod CK_COMPLETION_QUEUE_CAPACITY,
           queue_count := queue_count queue + 1\<rparr> in
     case ck_completion_notification_signal False fault (queue_notification queue1) of
       (result, notification) \<Rightarrow>
         let queue2 = queue1\<lparr>queue_notification := notification\<rparr> in
         if result \<noteq> 0 then
           (result, queue2\<lparr>queue_tail :=
              (queue_tail queue2 + CK_COMPLETION_QUEUE_CAPACITY - 1) mod CK_COMPLETION_QUEUE_CAPACITY,
              queue_count := queue_count queue2 - 1\<rparr>)
         else (unlock_result m, queue2))"

definition ck_completion_queue_push ::
  "bool \<Rightarrow> mutex_calls \<Rightarrow> io_fault \<Rightarrow> ck_completion_queue \<Rightarrow> ck_completion_record
   \<Rightarrow> int \<times> ck_completion_queue" where
  "ck_completion_queue_push null_arg m fault queue record =
    (if null_arg \<or> \<not> queue_initialized queue then (-1, queue)
     else if lock_result m \<noteq> 0 then (lock_result m, queue)
     else if queue_closed queue then (2, queue)
     else if queue_count queue = CK_COMPLETION_QUEUE_CAPACITY then (1, queue)
     else queue_store m fault queue record)"

text \<open>
  \<open>pthread_cond_wait\<close> gives up the lock and returns with it in a state the other threads have
  made; \<open>wakes\<close> lists, for the successive waits, its result and that state.  The value \<open>None\<close>
  means that the call is still waiting when the list is exhausted.
\<close>

fun queue_await ::
  "ck_completion_queue \<Rightarrow> (int \<times> ck_completion_queue) list \<Rightarrow> (int \<times> ck_completion_queue) option" where
  "queue_await queue wakes =
    (if \<not> queue_closed queue \<and> queue_count queue = CK_COMPLETION_QUEUE_CAPACITY then
       (case wakes of
          [] \<Rightarrow> None
        | (result, queue') # wakes' \<Rightarrow>
            if result \<noteq> 0 then Some (result, queue') else queue_await queue' wakes')
     else Some (0, queue))"

definition ck_completion_queue_push_wait ::
  "bool \<Rightarrow> mutex_calls \<Rightarrow> io_fault \<Rightarrow> (int \<times> ck_completion_queue) list \<Rightarrow> ck_completion_queue
   \<Rightarrow> ck_completion_record \<Rightarrow> (int \<times> ck_completion_queue) option" where
  "ck_completion_queue_push_wait null_arg m fault wakes queue record =
    (if null_arg \<or> \<not> queue_initialized queue then Some (-1, queue)
     else if lock_result m \<noteq> 0 then Some (lock_result m, queue)
     else
       case queue_await queue wakes of
         None \<Rightarrow> None
       | Some (result, queue1) \<Rightarrow>
           if result \<noteq> 0 then Some (result, queue1)
           else if queue_closed queue1 then Some (2, queue1)
           else Some (queue_store m fault queue1 record))"

text \<open>\<open>cond_signal\<close> is the result of \<open>pthread_cond_signal\<close>; the record is what \<open>*record\<close> holds.\<close>

definition ck_completion_queue_pop ::
  "bool \<Rightarrow> mutex_calls \<Rightarrow> int \<Rightarrow> ck_completion_queue
   \<Rightarrow> int \<times> ck_completion_record option \<times> ck_completion_queue" where
  "ck_completion_queue_pop null_arg m cond_signal queue =
    (if null_arg \<or> \<not> queue_initialized queue then (-1, None, queue)
     else if lock_result m \<noteq> 0 then (lock_result m, None, queue)
     else if queue_count queue = 0 then (0, None, queue)
     else
       let record = queue_entries queue ! queue_head queue;
           queue1 = queue\<lparr>queue_head := (queue_head queue + 1) mod CK_COMPLETION_QUEUE_CAPACITY,
             queue_count := queue_count queue - 1\<rparr> in
       if cond_signal \<noteq> 0 then (cond_signal, Some record, queue1)
       else (if unlock_result m = 0 then 1 else unlock_result m, Some record, queue1))"

definition ck_completion_queue_notify_fd :: "ck_completion_queue option \<Rightarrow> int" where
  "ck_completion_queue_notify_fd queue =
    (case queue of
       None \<Rightarrow> -1
     | Some q \<Rightarrow> if \<not> queue_initialized q then -1
                 else ck_completion_notification_fd (Some (queue_notification q)))"

definition ck_completion_queue_drain_notification ::
  "bool \<Rightarrow> io_fault list \<Rightarrow> ck_completion_queue \<Rightarrow> int \<times> ck_completion_queue" where
  "ck_completion_queue_drain_notification null_arg faults queue =
    (if null_arg \<or> \<not> queue_initialized queue then (-1, queue)
     else
       case ck_completion_notification_drain False faults (queue_notification queue) of
         (r, notification) \<Rightarrow> (r, queue\<lparr>queue_notification := notification\<rparr>))"

definition ck_completion_queue_close ::
  "bool \<Rightarrow> mutex_calls \<Rightarrow> int \<Rightarrow> io_fault \<Rightarrow> ck_completion_queue \<Rightarrow> int \<times> ck_completion_queue" where
  "ck_completion_queue_close null_arg m cond_broadcast fault queue =
    (if null_arg \<or> \<not> queue_initialized queue then (-1, queue)
     else if lock_result m \<noteq> 0 then (lock_result m, queue)
     else if queue_closed queue then (1, queue)
     else
       let queue1 = queue\<lparr>queue_closed := True\<rparr> in
       if cond_broadcast \<noteq> 0 then (cond_broadcast, queue1)
       else
         case ck_completion_notification_signal False fault (queue_notification queue1) of
           (result, notification) \<Rightarrow>
             let queue2 = queue1\<lparr>queue_notification := notification\<rparr> in
             if result \<noteq> 0 then (result, queue2) else (unlock_result m, queue2))"

definition ck_completion_queue_destroy ::
  "mutex_calls \<Rightarrow> int \<Rightarrow> io_fault \<Rightarrow> ck_completion_queue \<Rightarrow> ck_completion_queue" where
  "ck_completion_queue_destroy m cond_broadcast fault queue =
    (if \<not> queue_initialized queue then queue
     else
       let queue1 = snd (ck_completion_queue_close False m cond_broadcast fault queue) in
       queue1\<lparr>queue_notification := ck_completion_notification_destroy (queue_notification queue1),
         queue_initialized := False\<rparr>)"

section \<open>The list the queue stands for\<close>

definition queue_wf :: "ck_completion_queue \<Rightarrow> bool" where
  "queue_wf q \<longleftrightarrow> length (queue_entries q) = CK_COMPLETION_QUEUE_CAPACITY
     \<and> queue_head q < CK_COMPLETION_QUEUE_CAPACITY \<and> queue_count q \<le> CK_COMPLETION_QUEUE_CAPACITY
     \<and> queue_tail q = (queue_head q + queue_count q) mod CK_COMPLETION_QUEUE_CAPACITY
     \<and> queue_initialized q \<and> notification_initialized (queue_notification q)"

definition queue_records :: "ck_completion_queue \<Rightarrow> ck_completion_record list" where
  "queue_records q = ring_view (queue_entries q) (queue_head q) (queue_count q)"

abbreviation queue_counter :: "ck_completion_queue \<Rightarrow> u64" where
  "queue_counter q \<equiv> notification_counter (queue_notification q)"

lemma length_queue_records [simp]: "length (queue_records q) = queue_count q"
  by (simp add: queue_records_def)

lemma queue_records_empty: "queue_records q = [] \<longleftrightarrow> queue_count q = 0"
  by (metis length_0_conv length_queue_records)

lemma queue_init_wf:
  assumes "ck_completion_queue_init False mi ci (Inr fd) q0 = (0, q)"
  shows "queue_wf q" and "queue_records q = []" and "\<not> queue_closed q" and "queue_counter q = 0"
  using assms
  by (auto simp: ck_completion_queue_init_def ck_completion_notification_init_def queue_wf_def
      queue_records_empty CK_COMPLETION_QUEUE_CAPACITY_def Let_def split: if_splits sum.splits prod.splits)

text \<open>A fault beside the documented EAGAIN of a full counter; an errno is not zero.\<close>

definition real_fault :: "io_fault \<Rightarrow> bool" where
  "real_fault fault \<longleftrightarrow> fault \<noteq> Fails EAGAIN_code \<and> fault \<noteq> Fails 0"

lemma signal_cases:
  assumes "notification_initialized n" and "ck_completion_notification_signal False fault n = (r, n')"
  shows "notification_initialized n' \<and> (r \<noteq> 0 \<longrightarrow> n' = n)
    \<and> (r = 0 \<longrightarrow> real_fault fault \<longrightarrow> notification_counter n' \<noteq> 0)
    \<and> (notification_counter n \<noteq> 0 \<longrightarrow> notification_counter n' \<noteq> 0)"
proof -
  have "c + 1 \<noteq> 0" if "c < EVENTFD_MAX" for c :: u64
  proof
    assume "c + 1 = 0"
    then have "c = -1" by (simp add: eq_neg_iff_add_eq_0)
    with that show False by (simp add: EVENTFD_MAX_def)
  qed
  moreover have "\<not> c < EVENTFD_MAX \<Longrightarrow> c \<noteq> 0" for c :: u64
    by (auto simp: EVENTFD_MAX_def)
  ultimately show ?thesis
    using assms by (auto simp: ck_completion_notification_signal_def eventfd_write_def EIO_code_def
        EAGAIN_code_def real_fault_def split: io_fault.splits if_splits)
qed

text \<open>Storing behind the queue, and the exact roll-back when the signal fails.\<close>

lemma store_post:
  assumes "queue_wf q" and "queue_count q < CK_COMPLETION_QUEUE_CAPACITY"
    and "ck_completion_notification_signal False fault (queue_notification q) = (s, n)"
  shows "queue_store m fault q rc =
      (if s = 0
       then (unlock_result m, q\<lparr>queue_entries := (queue_entries q)[queue_tail q := rc],
         queue_tail := (queue_tail q + 1) mod CK_COMPLETION_QUEUE_CAPACITY,
         queue_count := queue_count q + 1, queue_notification := n\<rparr>)
       else (s, q\<lparr>queue_entries := (queue_entries q)[queue_tail q := rc], queue_notification := n\<rparr>))"
proof -
  let ?N = CK_COMPLETION_QUEUE_CAPACITY
  have "queue_tail q < ?N" using assms(1) by (auto simp: queue_wf_def CK_COMPLETION_QUEUE_CAPACITY_def)
  then have "((queue_tail q + 1) mod ?N + ?N - 1) mod ?N = queue_tail q"
    by (cases "queue_tail q + 1 = ?N") (auto simp: CK_COMPLETION_QUEUE_CAPACITY_def)
  then show ?thesis using assms(3) by (simp add: queue_store_def Let_def)
qed

lemma store_records:
  assumes "queue_wf q" and "queue_count q < CK_COMPLETION_QUEUE_CAPACITY"
    and "notification_initialized n"
  shows "queue_wf (q\<lparr>queue_entries := (queue_entries q)[queue_tail q := rc],
         queue_tail := (queue_tail q + 1) mod CK_COMPLETION_QUEUE_CAPACITY,
         queue_count := queue_count q + 1, queue_notification := n\<rparr>)"
    and "queue_records (q\<lparr>queue_entries := (queue_entries q)[queue_tail q := rc],
         queue_tail := (queue_tail q + 1) mod CK_COMPLETION_QUEUE_CAPACITY,
         queue_count := queue_count q + 1, queue_notification := n\<rparr>) = queue_records q @ [rc]"
    and "queue_wf (q\<lparr>queue_entries := (queue_entries q)[queue_tail q := rc], queue_notification := n\<rparr>)"
    and "queue_records (q\<lparr>queue_entries := (queue_entries q)[queue_tail q := rc], queue_notification := n\<rparr>)
      = queue_records q"
proof -
  have len: "length (queue_entries q) = CK_COMPLETION_QUEUE_CAPACITY"
    and tail: "queue_tail q = (queue_head q + queue_count q) mod length (queue_entries q)"
    and room: "queue_count q < length (queue_entries q)"
    using assms by (simp_all add: queue_wf_def)
  note upd = ring_view_update [OF room, of "queue_head q" rc, folded tail]
  show "queue_wf (q\<lparr>queue_entries := (queue_entries q)[queue_tail q := rc],
         queue_tail := (queue_tail q + 1) mod CK_COMPLETION_QUEUE_CAPACITY,
         queue_count := queue_count q + 1, queue_notification := n\<rparr>)"
    using assms by (simp add: queue_wf_def mod_Suc_eq)
  show "queue_records (q\<lparr>queue_entries := (queue_entries q)[queue_tail q := rc],
         queue_tail := (queue_tail q + 1) mod CK_COMPLETION_QUEUE_CAPACITY,
         queue_count := queue_count q + 1, queue_notification := n\<rparr>) = queue_records q @ [rc]"
    using upd by (simp add: queue_records_def)
  show "queue_wf (q\<lparr>queue_entries := (queue_entries q)[queue_tail q := rc], queue_notification := n\<rparr>)"
    using assms by (simp add: queue_wf_def)
  have "take (queue_count q) (ring_view ((queue_entries q)[queue_tail q := rc]) (queue_head q) (Suc (queue_count q)))
      = queue_records q"
    unfolding upd by (simp add: queue_records_def)
  then show "queue_records (q\<lparr>queue_entries := (queue_entries q)[queue_tail q := rc], queue_notification := n\<rparr>)
      = queue_records q"
    by (simp add: take_ring_view) (simp add: queue_records_def)
qed

lemma store_cases:
  assumes "queue_wf q" and "queue_count q < CK_COMPLETION_QUEUE_CAPACITY"
    and "queue_store m fault q rc = (r, q')"
  shows "queue_wf q' \<and> queue_closed q' = queue_closed q
    \<and> (fault = No_fault \<longrightarrow> r = unlock_result m \<and> queue_records q' = queue_records q @ [rc])
    \<and> (queue_records q' = queue_records q @ [rc] \<and> r = unlock_result m
         \<and> (real_fault fault \<longrightarrow> queue_counter q' \<noteq> 0)
       \<or> queue_records q' = queue_records q \<and> r \<noteq> 0 \<and> queue_counter q' = queue_counter q)
    \<and> (queue_counter q \<noteq> 0 \<longrightarrow> queue_counter q' \<noteq> 0)"
proof -
  obtain s n where sig: "ck_completion_notification_signal False fault (queue_notification q) = (s, n)"
    by fastforce
  have "notification_initialized (queue_notification q)" using assms(1) by (simp add: queue_wf_def)
  note c = signal_cases [OF this sig]
  have zero: "fault = No_fault \<Longrightarrow> s = 0"
    using sig assms(1) by (auto simp: ck_completion_notification_signal_def eventfd_write_def queue_wf_def
        split: if_splits)
  have "queue_wf q'" and "s = 0 \<Longrightarrow> queue_records q' = queue_records q @ [rc] \<and> r = unlock_result m"
    and "s \<noteq> 0 \<Longrightarrow> queue_records q' = queue_records q \<and> r = s" and "queue_notification q' = n"
      "queue_closed q' = queue_closed q"
    using store_records [OF assms(1,2), of n rc] c store_post [OF assms(1,2) sig, of m rc] assms(3)
    by (auto split: if_splits)
  then show ?thesis using c zero by (cases "s = 0") auto
qed

lemma push_cases:
  assumes "queue_wf q" and "ck_completion_queue_push False m fault q rc = (r, q')"
  shows "r \<noteq> 0 \<and> q' = q
    \<or> \<not> queue_closed q \<and> queue_count q < CK_COMPLETION_QUEUE_CAPACITY \<and> lock_result m = 0
      \<and> queue_store m fault q rc = (r, q')"
  using assms by (auto simp: ck_completion_queue_push_def queue_wf_def split: if_splits)

lemma pop_cases:
  assumes "queue_wf q" and "ck_completion_queue_pop False m sig q = (r, out, q')"
  shows "queue_wf q' \<and> queue_closed q' = queue_closed q \<and> queue_notification q' = queue_notification q
    \<and> queue_records q = (case out of None \<Rightarrow> [] | Some x \<Rightarrow> [x]) @ queue_records q'
    \<and> (lock_result m = 0 \<longrightarrow> out = None \<longrightarrow> r = 0 \<and> queue_records q = [])
    \<and> (lock_result m = 0 \<longrightarrow> out \<noteq> None \<longrightarrow> sig = 0 \<longrightarrow> unlock_result m = 0 \<longrightarrow> r = 1)
    \<and> (r = 0 \<longrightarrow> lock_result m = 0 \<longrightarrow> queue_records q = [])"
proof -
  let ?N = CK_COMPLETION_QUEUE_CAPACITY
  have len: "length (queue_entries q) = ?N" and head: "queue_head q < ?N"
    using assms(1) by (simp_all add: queue_wf_def)
  have "queue_records q = queue_entries q ! queue_head q #
      ring_view (queue_entries q) ((queue_head q + 1) mod ?N) (queue_count q - 1)" if "queue_count q \<noteq> 0"
  proof -
    have "queue_records q = ring_view (queue_entries q) (queue_head q) 1
        @ ring_view (queue_entries q) (queue_head q + 1) (queue_count q - 1)"
      using that ring_view_append [of "queue_entries q" "queue_head q" 1 "queue_count q - 1"]
      by (simp add: queue_records_def)
    moreover have "ring_view (queue_entries q) (queue_head q) 1 = [queue_entries q ! queue_head q]"
      using head len by (simp add: ring_view_def)
    moreover have "ring_view (queue_entries q) ((queue_head q + 1) mod ?N) (queue_count q - 1)
        = ring_view (queue_entries q) (queue_head q + 1) (queue_count q - 1)"
      using ring_view_mod [of "queue_entries q"] len by simp
    ultimately show ?thesis by simp
  qed
  moreover have "(((queue_head q + 1) mod ?N) + (queue_count q - 1)) mod ?N = (queue_head q + queue_count q) mod ?N"
    if "queue_count q \<noteq> 0" using that by (cases "queue_count q") (simp_all add: mod_add_left_eq)
  moreover have "queue_records q = [] \<longleftrightarrow> queue_count q = 0" by (rule queue_records_empty)
  ultimately show ?thesis
  proof (cases "lock_result m = 0 \<and> queue_count q \<noteq> 0")
    case True
    let ?q = "q\<lparr>queue_head := (queue_head q + 1) mod ?N, queue_count := queue_count q - 1\<rparr>"
    have out: "out = Some (queue_entries q ! queue_head q)" "q' = ?q"
        "r = (if sig \<noteq> 0 then sig else if unlock_result m = 0 then 1 else unlock_result m)"
      using assms True by (simp_all add: ck_completion_queue_pop_def queue_wf_def Let_def split: if_splits)
    note view = \<open>queue_count q \<noteq> 0 \<Longrightarrow> queue_records q = _\<close> and wrap = \<open>queue_count q \<noteq> 0 \<Longrightarrow> _ mod ?N = _\<close>
    have "queue_wf ?q" using assms(1) True wrap by (simp add: queue_wf_def) linarith
    moreover have "queue_records ?q = ring_view (queue_entries q) ((queue_head q + 1) mod ?N) (queue_count q - 1)"
      by (simp add: queue_records_def)
    ultimately show ?thesis using True view out by simp
  next
    case False
    with assms \<open>queue_records q = [] \<longleftrightarrow> queue_count q = 0\<close> show ?thesis
      by (auto simp: ck_completion_queue_pop_def queue_wf_def split: if_splits)
  qed
qed

lemma close_cases:
  assumes "queue_wf q" and "ck_completion_queue_close False m bc fault q = (r, q')"
  shows "queue_wf q' \<and> queue_records q' = queue_records q \<and> (queue_counter q \<noteq> 0 \<longrightarrow> queue_counter q' \<noteq> 0)"
proof -
  obtain s n where sig: "ck_completion_notification_signal False fault (queue_notification q) = (s, n)"
    by fastforce
  have "notification_initialized (queue_notification q)" using assms(1) by (simp add: queue_wf_def)
  from signal_cases [OF this sig] assms sig show ?thesis
    by (auto simp: ck_completion_queue_close_def Let_def queue_wf_def queue_records_def split: if_splits)
qed

lemma drain_cases:
  assumes "queue_wf q" and "ck_completion_queue_drain_notification False faults q = (r, q')"
  shows "queue_wf q' \<and> queue_records q' = queue_records q \<and> queue_closed q' = queue_closed q"
  using assms
  by (auto simp: ck_completion_queue_drain_notification_def ck_completion_notification_drain_def
      queue_wf_def queue_records_def split: if_splits prod.splits)

section \<open>Order\<close>

definition completion_enqueue ::
  "ck_completion_record list \<Rightarrow> ck_completion_queue \<Rightarrow> ck_completion_record list \<times> ck_completion_queue" where
  "completion_enqueue xs q =
    (case xs of
       [x] \<Rightarrow> (case ck_completion_queue_push False quiet_mutex No_fault q x of
                 (r, q') \<Rightarrow> (if r = 0 then [x] else [], q'))
     | _ \<Rightarrow> ([], q))"

definition completion_dequeue ::
  "nat \<Rightarrow> ck_completion_queue \<Rightarrow> ck_completion_record list \<times> ck_completion_queue" where
  "completion_dequeue n q =
    (if n = 0 then ([], q)
     else case ck_completion_queue_pop False quiet_mutex 0 q of
            (r, out, q') \<Rightarrow> (case out of None \<Rightarrow> [] | Some x \<Rightarrow> [x], q'))"

interpretation completion_fifo: bounded_fifo queue_wf "\<lambda>q. \<not> queue_closed q" "\<lambda>xs. length xs \<le> 1"
  queue_records CK_COMPLETION_QUEUE_CAPACITY completion_enqueue completion_dequeue
proof (unfold_locales, goal_cases)
  case (1 q)
  then show ?case by (simp add: queue_wf_def)
next
  case (2 q xs acc q')
  show ?case
  proof (cases "\<exists>x. xs = [x]")
    case True
    then obtain x r where x: "xs = [x]" and p: "ck_completion_queue_push False quiet_mutex No_fault q x = (r, q')"
      and acc: "acc = (if r = 0 then [x] else [])"
      using 2(2) by (auto simp: completion_enqueue_def split: prod.splits)
    from push_cases [OF 2(1) p] 2(1) x acc show ?thesis
      using store_cases [OF 2(1), of quiet_mutex No_fault x r q'] by auto
  next
    case False
    with 2 show ?thesis by (auto simp: completion_enqueue_def split: list.splits)
  qed
next
  case (3 q xs)
  show ?case
  proof (cases xs)
    case (Cons x ys)
    with 3 have x: "xs = [x]" by simp
    have room: "queue_count q < CK_COMPLETION_QUEUE_CAPACITY" using 3 x by simp
    obtain r q' where s: "queue_store quiet_mutex No_fault q x = (r, q')" by fastforce
    have "ck_completion_queue_push False quiet_mutex No_fault q x = (r, q')" and "r = 0"
      using 3 room s store_cases [OF 3(1) room s]
      by (auto simp: ck_completion_queue_push_def queue_wf_def)
    then show ?thesis by (simp add: completion_enqueue_def x)
  qed (simp add: completion_enqueue_def)
next
  case (4 q n out q')
  show ?case
  proof (cases "n = 0")
    case True
    with 4 show ?thesis by (simp add: completion_dequeue_def)
  next
    case False
    with 4(2) obtain r o' where p: "ck_completion_queue_pop False quiet_mutex 0 q = (r, o', q')"
      and out: "out = (case o' of None \<Rightarrow> [] | Some x \<Rightarrow> [x])"
      by (auto simp: completion_dequeue_def split: prod.splits)
    from pop_cases [OF 4(1) p] False show ?thesis by (auto simp: out split: option.splits)
  qed
next
  case (5 q n)
  obtain r o' q' where p: "ck_completion_queue_pop False quiet_mutex 0 q = (r, o', q')"
    by (cases "ck_completion_queue_pop False quiet_mutex 0 q") auto
  from pop_cases [OF 5(1) p] 5 p show ?case
    by (auto simp: completion_dequeue_def split: option.splits)
qed

section \<open>Properties\<close>

text \<open>Calls of workers and of the event loop, with whatever the system calls return.\<close>

datatype completion_op =
    Push int io_fault ck_completion_record
  | Pop int int
  | Close_queue int io_fault
  | Drain "io_fault list"

text \<open>The records accepted, the records delivered and the queue at the end; unlocking succeeds.\<close>

fun completion_run ::
  "completion_op list \<Rightarrow> ck_completion_queue
   \<Rightarrow> ck_completion_record list \<times> ck_completion_record list \<times> ck_completion_queue" where
  "completion_run [] q = ([], [], q)"
| "completion_run (Push l f x # ops) q =
    (case ck_completion_queue_push False \<lparr>lock_result = l, unlock_result = 0\<rparr> f q x of (r, q1) \<Rightarrow>
     case completion_run ops q1 of (accepted, delivered, q2) \<Rightarrow>
       ((if r = 0 then [x] else []) @ accepted, delivered, q2))"
| "completion_run (Pop l s # ops) q =
    (case ck_completion_queue_pop False \<lparr>lock_result = l, unlock_result = 0\<rparr> s q of (r, out, q1) \<Rightarrow>
     case completion_run ops q1 of (accepted, delivered, q2) \<Rightarrow>
       (accepted, (case out of None \<Rightarrow> [] | Some x \<Rightarrow> [x]) @ delivered, q2))"
| "completion_run (Close_queue b f # ops) q =
    (case ck_completion_queue_close False quiet_mutex b f q of (r, q1) \<Rightarrow> completion_run ops q1)"
| "completion_run (Drain fs # ops) q =
    (case ck_completion_queue_drain_notification False fs q of (r, q1) \<Rightarrow> completion_run ops q1)"

lemma completion_run_order:
  "queue_wf q \<Longrightarrow> completion_run ops q = (accepted, delivered, q') \<Longrightarrow>
   queue_wf q' \<and> queue_records q @ accepted = delivered @ queue_records q'"
proof (induction ops q arbitrary: accepted delivered rule: completion_run.induct)
  case (2 l f x ops q)
  let ?m = "\<lparr>lock_result = l, unlock_result = 0\<rparr>"
  obtain r q1 where p: "ck_completion_queue_push False ?m f q x = (r, q1)" by fastforce
  obtain accepted' where rec: "completion_run ops q1 = (accepted', delivered, q')"
    and acc: "accepted = (if r = 0 then [x] else []) @ accepted'"
    using 2(3) p by (auto split: prod.splits)
  have "queue_wf q1 \<and> queue_records q1 = queue_records q @ (if r = 0 then [x] else [])"
    using push_cases [OF 2(2) p] 2(2) store_cases [OF 2(2), of ?m f x r q1] by auto
  with "2.IH" [OF p [symmetric] _ rec] acc show ?case by auto
next
  case (3 l s ops q)
  let ?m = "\<lparr>lock_result = l, unlock_result = 0\<rparr>"
  obtain r out q1 where p: "ck_completion_queue_pop False ?m s q = (r, out, q1)"
    by (cases "ck_completion_queue_pop False ?m s q") auto
  obtain delivered' where rec: "completion_run ops q1 = (accepted, delivered', q')"
    and del: "delivered = (case out of None \<Rightarrow> [] | Some x \<Rightarrow> [x]) @ delivered'"
    using 3(3) p by (auto split: prod.splits)
  from pop_cases [OF 3(2) p] "3.IH" [OF p [symmetric] refl _ rec] del show ?case by auto
next
  case (4 b f ops q)
  then show ?case by (auto split: prod.splits dest: close_cases)
next
  case (5 fs ops q)
  then show ?case by (auto split: prod.splits dest: drain_cases)
qed simp

text \<open>
  C22. Completions arrive in order: for every sequence of pushes, pops, drains and a close, with
  failing locks and failing wake-ups, the records whose push succeeded are the delivered ones
  followed by the queued ones, in the same order; a push whose wake-up fails leaves no trace,
  and never more than 64 records are queued.
\<close>

theorem completion_order:
  assumes "ck_completion_queue_init False mi ci (Inr fd) q0 = (0, q)"
    and "completion_run ops q = (accepted, delivered, q')"
  shows "accepted = delivered @ queue_records q'
    \<and> length (queue_records q') \<le> CK_COMPLETION_QUEUE_CAPACITY"
  using completion_run_order [OF queue_init_wf(1) [OF assms(1)] assms(2)] queue_init_wf(2) [OF assms(1)]
  by (simp add: queue_wf_def)

definition sample_record :: "u64 \<Rightarrow> ck_completion_record" where
  "sample_record n = zero_record\<lparr>completion_request_id := n\<rparr>"

definition sample_queue :: ck_completion_queue where
  "sample_queue = snd (ck_completion_queue_init False 0 0 (Inr 9) undefined)"

lemma sample_queue_init: "ck_completion_queue_init False 0 0 (Inr 9) undefined = (0, sample_queue)"
  by (simp add: sample_queue_def ck_completion_queue_init_def ck_completion_notification_init_def)

theorem completion_order_witness:
  "case completion_run [Push 0 No_fault (sample_record 1), Push 0 (Fails 4) (sample_record 2),
       Push 0 No_fault (sample_record 3), Pop 0 0] sample_queue of
     (accepted, delivered, q') \<Rightarrow> accepted = delivered @ queue_records q'"
proof -
  obtain accepted delivered q' where run:
      "completion_run [Push 0 No_fault (sample_record 1), Push 0 (Fails 4) (sample_record 2),
         Push 0 No_fault (sample_record 3), Pop 0 0] sample_queue = (accepted, delivered, q')"
    by (rule prod_cases3)
  show ?thesis using completion_order [OF sample_queue_init run] unfolding run by (simp only: prod.case)
qed

text \<open>
  The event loop waits for the notification to become readable, drains it, and pops until the
  queue is empty.  In \<open>wakeups (q, busy)\<close> the flag says that it has drained and not yet found
  the queue empty.  A drain or a pop that fails ends the loop.
\<close>

inductive wakeups :: "ck_completion_queue \<times> bool \<Rightarrow> bool" where
  start: "ck_completion_queue_init False mi ci (Inr fd) q0 = (0, q) \<Longrightarrow> wakeups (q, False)"
| push: "wakeups (q, busy) \<Longrightarrow> real_fault f \<Longrightarrow> ck_completion_queue_push False m f q x = (r, q') \<Longrightarrow>
    wakeups (q', busy)"
| push_wait: "wakeups (q, busy) \<Longrightarrow> real_fault f \<Longrightarrow>
    ck_completion_queue_push_wait False m f [] q x = Some (r, q') \<Longrightarrow> wakeups (q', busy)"
| close: "wakeups (q, busy) \<Longrightarrow> ck_completion_queue_close False m b f q = (r, q') \<Longrightarrow> wakeups (q', busy)"
| drain: "wakeups (q, busy) \<Longrightarrow> ck_completion_queue_drain_notification False fs q = (0, q') \<Longrightarrow>
    wakeups (q', True)"
| pop: "wakeups (q, busy) \<Longrightarrow> lock_result m = 0 \<Longrightarrow> ck_completion_queue_pop False m s q = (r, out, q') \<Longrightarrow>
    r \<ge> 0 \<Longrightarrow> wakeups (q', if r = 0 then False else busy)"

lemma push_wait_now:
  assumes "queue_wf q" and "ck_completion_queue_push_wait False m f [] q x = Some (r, q')"
  shows "q' = q \<or> queue_count q < CK_COMPLETION_QUEUE_CAPACITY \<and> queue_store m f q x = (r, q')"
  using assms by (auto simp: ck_completion_queue_push_wait_def queue_wf_def split: if_splits)

lemma wakeups_inv:
  "wakeups s \<Longrightarrow> queue_wf (fst s) \<and> (queue_records (fst s) \<noteq> [] \<longrightarrow> snd s \<or> queue_counter (fst s) \<noteq> 0)"
proof (induction rule: wakeups.induct)
  case (start mi ci fd q0 q)
  then show ?case using queue_init_wf [OF start] by simp
next
  case (push q busy f m x r q')
  then have wf: "queue_wf q" by simp
  from push_cases [OF wf push.hyps(3)] push.IH push.hyps(2) store_cases [OF wf, of m f x r q'] show ?case
    by auto
next
  case (push_wait q busy f m x r q')
  then have wf: "queue_wf q" by simp
  from push_wait_now [OF wf push_wait.hyps(3)] push_wait.IH push_wait.hyps(2) store_cases [OF wf, of m f x r q']
  show ?case by auto
next
  case (close q busy m b f r q')
  then show ?case using close_cases [of q m b f r q'] by auto
next
  case (drain q busy fs q')
  then show ?case using drain_cases [of q fs 0 q'] by auto
next
  case (pop q busy m s r out q')
  then show ?case using pop_cases [of q m s r out q'] by (auto split: if_splits option.splits)
qed

text \<open>
  C23. No wake-up is lost: whatever the interleaving of pushes (with and without waiting), closes
  and the drain-then-pop loop of the consumer, whenever records are queued either the consumer is
  still popping or the notification is readable, so that the next wait returns at once.
\<close>

theorem no_lost_wakeup:
  assumes "wakeups (q, False)" and "queue_records q \<noteq> []"
  shows "notification_counter (queue_notification q) \<noteq> 0 \<and> queue_count q \<le> CK_COMPLETION_QUEUE_CAPACITY"
  using wakeups_inv [OF assms(1)] assms(2) by (auto simp: queue_wf_def)

lemma sample_queue_push:
  "queue_records (snd (ck_completion_queue_push False quiet_mutex No_fault sample_queue (sample_record 1))) \<noteq> []"
proof -
  note wf = queue_init_wf [OF sample_queue_init]
  have room: "queue_count sample_queue < CK_COMPLETION_QUEUE_CAPACITY"
    using wf(2) by (simp add: queue_records_empty CK_COMPLETION_QUEUE_CAPACITY_def)
  obtain r q' where s: "queue_store quiet_mutex No_fault sample_queue (sample_record 1) = (r, q')" by fastforce
  have "ck_completion_queue_push False quiet_mutex No_fault sample_queue (sample_record 1) = (r, q')"
    using s room wf(1,3) by (simp add: ck_completion_queue_push_def queue_wf_def)
  with store_cases [OF wf(1) room s] show ?thesis by auto
qed

theorem no_lost_wakeup_witness:
  "notification_counter (queue_notification
     (snd (ck_completion_queue_push False quiet_mutex No_fault sample_queue (sample_record 1)))) \<noteq> 0"
proof -
  have "wakeups (snd (ck_completion_queue_push False quiet_mutex No_fault sample_queue (sample_record 1)), False)"
    using wakeups.push [OF wakeups.start [OF sample_queue_init], of No_fault quiet_mutex "sample_record 1"]
    by (cases "ck_completion_queue_push False quiet_mutex No_fault sample_queue (sample_record 1)")
      (simp add: real_fault_def)
  from no_lost_wakeup [OF this sample_queue_push] show ?thesis by blast
qed

text \<open>
  A waiting push never reports a full queue: when it returns, it reports the failure of a
  system call, a closed queue, or that the record is queued; and it returns as soon as one of its
  wake-ups finds the queue closed or with room.
\<close>

theorem push_wait_result:
  assumes "queue_wf q" and "list_all (\<lambda>(r, q'). r = 0 \<and> queue_wf q') wakes"
    and "lock_result m = 0" and "unlock_result m = 0"
    and "\<exists>q' \<in> set (q # map snd wakes). queue_closed q' \<or> queue_count q' < CK_COMPLETION_QUEUE_CAPACITY"
  shows "\<exists>q' \<in> set (q # map snd wakes). \<exists>r q''.
    ck_completion_queue_push_wait False m No_fault wakes q x = Some (r, q'')
    \<and> (if queue_closed q' then r = 2 \<and> q'' = q' else r = 0 \<and> queue_records q'' = queue_records q' @ [x])"
proof -
  have "\<exists>q' \<in> set (q # map snd wakes). queue_await q wakes = Some (0, q') \<and> queue_wf q'
      \<and> (queue_closed q' \<or> queue_count q' < CK_COMPLETION_QUEUE_CAPACITY)"
    using assms(1,2,5)
  proof (induction wakes arbitrary: q)
    case Nil
    then show ?case by (auto simp: queue_wf_def)
  next
    case (Cons w wakes)
    obtain q1 where w: "w = (0, q1)" and wf: "queue_wf q1"
      using Cons.prems(2) by (auto split: prod.splits)
    show ?case
    proof (cases "\<not> queue_closed q \<and> queue_count q = CK_COMPLETION_QUEUE_CAPACITY")
      case True
      have "\<exists>q' \<in> set (q1 # map snd wakes). queue_closed q' \<or> queue_count q' < CK_COMPLETION_QUEUE_CAPACITY"
        using Cons.prems(3) True w by auto
      with Cons.IH [OF wf] Cons.prems(2) True w show ?thesis by auto
    next
      case False
      with Cons.prems(1) show ?thesis by (auto simp: queue_wf_def)
    qed
  qed
  then obtain q' where q': "q' \<in> set (q # map snd wakes)" "queue_await q wakes = Some (0, q')" "queue_wf q'"
      "queue_closed q' \<or> queue_count q' < CK_COMPLETION_QUEUE_CAPACITY" by blast
  have init: "queue_initialized q" using assms(1) by (simp add: queue_wf_def)
  obtain r q'' where s: "queue_store m No_fault q' x = (r, q'')" by fastforce
  show ?thesis
  proof (cases "queue_closed q'")
    case True
    with q'(1,2) init assms(3) show ?thesis
      by (intro bexI [of _ q']) (simp_all add: ck_completion_queue_push_wait_def)
  next
    case False
    with q'(4) have "queue_count q' < CK_COMPLETION_QUEUE_CAPACITY" by simp
    from store_cases [OF q'(3) this s] assms(4) have "r = 0 \<and> queue_records q'' = queue_records q' @ [x]" by simp
    with False q'(1,2) init assms(3) s show ?thesis
      by (intro bexI [of _ q']) (simp_all add: ck_completion_queue_push_wait_def)
  qed
qed

theorem push_wait_result_witness:
  "\<exists>r q''. ck_completion_queue_push_wait False quiet_mutex No_fault [] sample_queue (sample_record 1) = Some (r, q'')"
proof -
  note wf = queue_init_wf [OF sample_queue_init]
  have room: "queue_count sample_queue < CK_COMPLETION_QUEUE_CAPACITY"
    using wf(2) by (simp add: queue_records_empty CK_COMPLETION_QUEUE_CAPACITY_def)
  then show ?thesis
    using push_wait_result [OF wf(1), of "[]" quiet_mutex "sample_record 1"] by auto
qed

end
