(* ===== verification/Ck_Request.thy ===== *)
theory Ck_Request
  imports Ck_Http_Parser Ck_Race
begin

text \<open>
  Requests handed to Java: the error record \<open>c/error/ck_error.[ch]\<close>, the request descriptor with
  its metadata view and its life cycle \<open>c/jni/ck_request.[ch]\<close>, and the reader of the metadata on
  the Java side, \<open>java/org/ckarta/connector/NativeRequest.java\<close>.

  A byte pointer of a descriptor is the bytes it points to (\<open>None\<close> for NULL).  The spans of an
  HTTP request point into the parser's buffer, which is the argument \<open>buf\<close>.
\<close>

section \<open>Errors\<close>

definition CK_ERROR_ABI_VERSION :: u32 where "CK_ERROR_ABI_VERSION = 1"
definition CK_ERROR_FLAG_MASK :: u32 where "CK_ERROR_FLAG_MASK = push_bit 0 1 OR push_bit 1 1"

record ck_error =
  error_abi_version :: u32
  error_category :: u32
  error_code :: u32
  error_http_status :: int
  error_flags :: u32
  error_phase :: u32
  error_request_id :: u64

definition ck_error_category_valid :: "int \<Rightarrow> bool" where
  "ck_error_category_valid category \<longleftrightarrow> 0 \<le> category \<and> category \<le> 10"

definition ck_error_code_valid :: "int \<Rightarrow> bool" where
  "ck_error_code_valid code \<longleftrightarrow> 0 \<le> code \<and> code \<le> 10"

definition ck_error_init :: "ck_error \<Rightarrow> ck_error" where
  "ck_error_init error =
     \<lparr>error_abi_version = CK_ERROR_ABI_VERSION, error_category = 0, error_code = 0,
      error_http_status = 0, error_flags = 0, error_phase = 0, error_request_id = 0\<rparr>"

definition ck_error_set ::
  "bool \<Rightarrow> ck_error \<Rightarrow> int \<Rightarrow> int \<Rightarrow> int \<Rightarrow> u32 \<Rightarrow> u32 \<Rightarrow> u64 \<Rightarrow> int \<times> ck_error" where
  "ck_error_set null_arg error category code http_status flags phase request_id =
    (if null_arg \<or> \<not> ck_error_category_valid category \<or> \<not> ck_error_code_valid code then (-1, error)
     else if http_status \<noteq> 0 \<and> (http_status < 100 \<or> http_status > 599) then (-1, error)
     else if flags AND NOT CK_ERROR_FLAG_MASK \<noteq> 0 then (-1, error)
     else (0, \<lparr>error_abi_version = CK_ERROR_ABI_VERSION, error_category = word_of_int category,
       error_code = word_of_int code, error_http_status = http_status, error_flags = flags,
       error_phase = phase, error_request_id = request_id\<rparr>))"

section \<open>Descriptors and metadata\<close>

definition CK_JNI_ABI_VERSION :: u32 where "CK_JNI_ABI_VERSION = 2"
definition CK_REQUEST_FEATURE_DIRECT_BUFFER :: u64 where "CK_REQUEST_FEATURE_DIRECT_BUFFER = 1"
definition CK_REQUEST_FEATURE_METADATA_BUFFER :: u64 where "CK_REQUEST_FEATURE_METADATA_BUFFER = 2"
definition CK_REQUEST_METADATA_STORAGE_BYTES :: nat where "CK_REQUEST_METADATA_STORAGE_BYTES = 8320"
definition CK_REQUEST_OWNS_NATIVE_STORAGE :: u64 where "CK_REQUEST_OWNS_NATIVE_STORAGE = 1"
definition CK_REQUEST_JAVA_BORROWS_BUFFER :: u64 where "CK_REQUEST_JAVA_BORROWS_BUFFER = 2"

definition INT32_MAX :: nat where "INT32_MAX = 2 ^ 31 - 1"
definition INT64_MAX :: nat where "INT64_MAX = 2 ^ 63 - 1"

text \<open>\<open>sizeof (ck_request_descriptor_t)\<close> on a 64-bit target: two 32-bit and nine 64-bit fields.\<close>

definition descriptor_size :: u32 where "descriptor_size = 80"

record ck_request_descriptor =
  desc_abi_version :: u32
  desc_struct_size :: u32
  desc_feature_flags :: u64
  desc_ownership_flags :: u64
  desc_owner_token :: u64
  desc_lifetime_token :: u64
  desc_request_id :: u64
  desc_metadata :: "u8 list option"
  desc_metadata_length :: u64
  desc_body :: "u8 list option"
  desc_body_length :: u64

definition CK_REQUEST_PENDING :: u32 where "CK_REQUEST_PENDING = 0"
definition CK_REQUEST_RUNNING :: u32 where "CK_REQUEST_RUNNING = 1"
definition CK_REQUEST_CANCELLING :: u32 where "CK_REQUEST_CANCELLING = 2"
definition CK_REQUEST_FAILING :: u32 where "CK_REQUEST_FAILING = 3"
definition CK_REQUEST_COMPLETED :: u32 where "CK_REQUEST_COMPLETED = 4"
definition CK_REQUEST_FAILED :: u32 where "CK_REQUEST_FAILED = 5"
definition CK_REQUEST_STATE_INVALID :: int where "CK_REQUEST_STATE_INVALID = -1"

lemmas request_states = CK_REQUEST_PENDING_def CK_REQUEST_RUNNING_def CK_REQUEST_CANCELLING_def
  CK_REQUEST_FAILING_def CK_REQUEST_COMPLETED_def CK_REQUEST_FAILED_def

record ck_request =
  req_descriptor :: ck_request_descriptor
  req_state :: u32
  req_error :: ck_error
  req_metadata_storage :: "u8 list"

definition ck_request_descriptor_valid :: "ck_request_descriptor option \<Rightarrow> bool" where
  "ck_request_descriptor_valid descriptor =
    (case descriptor of
       None \<Rightarrow> False
     | Some d \<Rightarrow>
         if desc_abi_version d \<noteq> CK_JNI_ABI_VERSION then False
         else if desc_struct_size d < descriptor_size then False
         else if (desc_metadata d = None \<and> desc_metadata_length d \<noteq> 0)
           \<or> unat (desc_metadata_length d) > INT32_MAX
           \<or> (desc_feature_flags d AND CK_REQUEST_FEATURE_METADATA_BUFFER \<noteq> 0 \<and> desc_metadata_length d = 0)
           \<or> (desc_feature_flags d AND CK_REQUEST_FEATURE_METADATA_BUFFER = 0 \<and> desc_metadata_length d \<noteq> 0)
           \<or> (desc_body d = None \<and> desc_body_length d \<noteq> 0)
           \<or> unat (desc_body_length d) > INT32_MAX
         then False
         else if unat (desc_owner_token d) > INT64_MAX \<or> unat (desc_lifetime_token d) > INT64_MAX
           \<or> unat (desc_request_id d) > INT64_MAX \<or> desc_request_id d = 0
         then False
         else True)"

definition write_u32_be :: "u8 list \<Rightarrow> nat \<Rightarrow> u32 \<Rightarrow> u8 list" where
  "write_u32_be out off v =
     out[off := ucast (drop_bit 24 v), off + 1 := ucast (drop_bit 16 v),
         off + 2 := ucast (drop_bit 8 v), off + 3 := ucast v]"

definition ck_request_init ::
  "bool \<Rightarrow> ck_request \<Rightarrow> ck_request_descriptor option \<Rightarrow> int \<times> ck_request" where
  "ck_request_init null_arg request descriptor =
    (if null_arg \<or> \<not> ck_request_descriptor_valid descriptor then (-1, request)
     else (0, request\<lparr>req_descriptor := the descriptor, req_error := ck_error_init (req_error request),
                req_state := CK_REQUEST_PENDING\<rparr>))"

definition zero_descriptor :: ck_request_descriptor where
  "zero_descriptor = \<lparr>desc_abi_version = 0, desc_struct_size = 0, desc_feature_flags = 0,
     desc_ownership_flags = 0, desc_owner_token = 0, desc_lifetime_token = 0, desc_request_id = 0,
     desc_metadata = None, desc_metadata_length = 0, desc_body = None, desc_body_length = 0\<rparr>"

text \<open>\<open>memset (request, 0, sizeof (*request))\<close>.\<close>

definition zero_ck_request :: ck_request where
  "zero_ck_request = \<lparr>req_descriptor = zero_descriptor, req_state = 0,
     req_error = \<lparr>error_abi_version = 0, error_category = 0, error_code = 0, error_http_status = 0,
       error_flags = 0, error_phase = 0, error_request_id = 0\<rparr>,
     req_metadata_storage = replicate CK_REQUEST_METADATA_STORAGE_BYTES 0\<rparr>"

text \<open>The stores into \<open>metadata_storage\<close>.\<close>

definition write_metadata :: "u8 list \<Rightarrow> u8 list \<Rightarrow> u8 list \<Rightarrow> u8 list \<Rightarrow> u8 \<Rightarrow> u8 list" where
  "write_metadata storage method target version close_flag =
    (let s1 = write_u32_be storage 0 (of_nat (length method));
         s2 = write_u32_be s1 4 (of_nat (length target));
         s3 = write_u32_be s2 8 (of_nat (length version));
         s4 = memcpy_at s3 12 method;
         s5 = memcpy_at s4 (12 + length method) target;
         s6 = memcpy_at s5 (12 + length method + length target) version in
     s6[12 + length method + length target + length version := close_flag])"

definition http_descriptor ::
  "u8 list \<Rightarrow> nat \<Rightarrow> u8 list option \<Rightarrow> nat \<Rightarrow> u64 \<Rightarrow> u64 \<Rightarrow> u64 \<Rightarrow> ck_request_descriptor" where
  "http_descriptor storage metadata_length body body_length request_id owner_token lifetime_token =
     zero_descriptor\<lparr>desc_abi_version := CK_JNI_ABI_VERSION,
       desc_struct_size := descriptor_size,
       desc_feature_flags := CK_REQUEST_FEATURE_DIRECT_BUFFER OR CK_REQUEST_FEATURE_METADATA_BUFFER,
       desc_ownership_flags := CK_REQUEST_OWNS_NATIVE_STORAGE OR CK_REQUEST_JAVA_BORROWS_BUFFER,
       desc_owner_token := owner_token, desc_lifetime_token := lifetime_token,
       desc_request_id := request_id, desc_metadata := Some storage,
       desc_metadata_length := of_nat metadata_length, desc_body := body,
       desc_body_length := of_nat body_length\<rparr>"

definition ck_request_init_http ::
  "bool \<Rightarrow> ck_request \<Rightarrow> u8 list \<Rightarrow> ck_http_request \<Rightarrow> u8 list option \<Rightarrow> nat \<Rightarrow> u64 \<Rightarrow> u64 \<Rightarrow> u64
   \<Rightarrow> int \<times> ck_request" where
  "ck_request_init_http null_arg request buf http_request body body_length request_id owner_token
     lifetime_token =
    (if null_arg
        \<or> span_length (request_method http_request) > CK_HTTP_MAX_METHOD_BYTES
        \<or> span_length (request_target http_request) > CK_HTTP_MAX_TARGET_BYTES
        \<or> span_length (request_version http_request) > CK_HTTP_MAX_VERSION_BYTES
        \<or> (body = None \<and> body_length \<noteq> 0) \<or> body_length > INT32_MAX
     then (-1, request)
     else
       let metadata_length = 12 + span_length (request_method http_request)
             + span_length (request_target http_request) + span_length (request_version http_request) + 1 in
       if metadata_length > CK_REQUEST_METADATA_STORAGE_BYTES \<or> metadata_length > INT32_MAX
       then (-1, request)
       else
         let storage = write_metadata (req_metadata_storage zero_ck_request)
               (span_bytes buf (request_method http_request)) (span_bytes buf (request_target http_request))
               (span_bytes buf (request_version http_request))
               (if request_connection_close_required http_request then 1 else 0) in
         ck_request_init False (zero_ck_request\<lparr>req_metadata_storage := storage\<rparr>)
           (Some (http_descriptor storage metadata_length body body_length request_id owner_token
              lifetime_token)))"

section \<open>Life cycle\<close>

definition request_over :: "u32 \<Rightarrow> bool" where
  "request_over state \<longleftrightarrow> state = CK_REQUEST_CANCELLING \<or> state = CK_REQUEST_FAILING
     \<or> state = CK_REQUEST_COMPLETED \<or> state = CK_REQUEST_FAILED"

definition ck_request_begin :: "bool \<Rightarrow> ck_request \<Rightarrow> int \<times> ck_request" where
  "ck_request_begin null_arg request =
    (if null_arg then (-1, request)
     else if req_state request = CK_REQUEST_PENDING
     then (0, request\<lparr>req_state := CK_REQUEST_RUNNING\<rparr>) else (1, request))"

text \<open>The decision of the cancel loop on a loaded state: return, or try to install.\<close>

definition cancel_decide :: "u32 \<Rightarrow> int + u32" where
  "cancel_decide current =
    (if request_over current then Inl 1
     else if current \<noteq> CK_REQUEST_PENDING \<and> current \<noteq> CK_REQUEST_RUNNING then Inl (-1)
     else Inr CK_REQUEST_CANCELLING)"

definition ck_request_cancel :: "bool \<Rightarrow> ck_request \<Rightarrow> int \<times> ck_request" where
  "ck_request_cancel null_arg request =
    (if null_arg then (-1, request)
     else
       case cancel_decide (req_state request) of
         Inl r \<Rightarrow> (r, request)
       | Inr desired \<Rightarrow> (0, request\<lparr>req_state := desired\<rparr>))"

text \<open>
  The compare-and-swap of \<open>ck_request_fail\<close>: \<open>None\<close> when it installed the private state
  \<open>FAILING\<close>, otherwise the result of the call.
\<close>

definition fail_cas :: "ck_request \<Rightarrow> int option \<times> ck_request" where
  "fail_cas request =
    (if req_state request = CK_REQUEST_RUNNING
     then (None, request\<lparr>req_state := CK_REQUEST_FAILING\<rparr>)
     else (Some (if request_over (req_state request) then 1 else -1), request))"

definition ck_request_fail :: "bool \<Rightarrow> ck_request \<Rightarrow> ck_error \<Rightarrow> int \<times> ck_request" where
  "ck_request_fail null_arg request error =
    (if null_arg \<or> error_abi_version error \<noteq> CK_ERROR_ABI_VERSION then (-1, request)
     else
       case fail_cas request of
         (Some r, request1) \<Rightarrow> (r, request1)
       | (None, request1) \<Rightarrow> (0, request1\<lparr>req_error := error, req_state := CK_REQUEST_FAILED\<rparr>))"

definition ck_request_error :: "ck_request option \<Rightarrow> ck_error option" where
  "ck_request_error request =
    (case request of
       None \<Rightarrow> None
     | Some r \<Rightarrow> if req_state r \<noteq> CK_REQUEST_FAILED then None else Some (req_error r))"

definition ck_request_finish :: "bool \<Rightarrow> ck_request \<Rightarrow> int \<times> ck_request" where
  "ck_request_finish null_arg request =
    (if null_arg then (-1, request)
     else if req_state request = CK_REQUEST_RUNNING
     then (0, request\<lparr>req_state := CK_REQUEST_COMPLETED\<rparr>)
     else (if request_over (req_state request) then 1 else -1, request))"

definition ck_request_get_state :: "ck_request option \<Rightarrow> int" where
  "ck_request_get_state request =
    (case request of None \<Rightarrow> CK_REQUEST_STATE_INVALID | Some r \<Rightarrow> uint (req_state r))"

section \<open>The Java view of the metadata\<close>

text \<open>\<open>ByteBuffer.getInt\<close> in big-endian order at a position, as a signed 32-bit number.\<close>

definition get_int_be :: "u8 list \<Rightarrow> nat \<Rightarrow> int" where
  "get_int_be bs off = sint (push_bit 24 (ucast (bs ! off)) OR push_bit 16 (ucast (bs ! (off + 1)))
     OR push_bit 8 (ucast (bs ! (off + 2))) OR ucast (bs ! (off + 3)) :: u32)"

record native_request =
  native_metadata :: "u8 list"
  native_method_length :: int
  native_target_length :: int
  native_protocol_length :: int

text \<open>
  The constructor of \<open>NativeRequest\<close> on a direct buffer with the given bytes; \<open>None\<close> is an
  exception.  \<open>header.getInt\<close> advances the buffer by four, so \<open>header.remaining\<close> in the test is
  twelve less than the size of the metadata.
\<close>

definition new_native_request :: "u64 \<Rightarrow> u8 list \<Rightarrow> native_request option" where
  "new_native_request handle metadata =
    (if handle = 0 then None
     else if length metadata = 0
     then Some \<lparr>native_metadata = metadata, native_method_length = 0, native_target_length = 0,
            native_protocol_length = 0\<rparr>
     else if length metadata < 13 then None
     else
       let method_length = get_int_be metadata 0; target_length = get_int_be metadata 4;
           protocol_length = get_int_be metadata 8; remaining = int (length metadata) - 12 in
       if method_length < 0 \<or> target_length < 0 \<or> protocol_length < 0
          \<or> 13 + method_length + target_length + protocol_length \<noteq> remaining
       then None
       else Some \<lparr>native_metadata = metadata, native_method_length = method_length,
              native_target_length = target_length, native_protocol_length = protocol_length\<rparr>)"

definition native_method_bytes :: "native_request \<Rightarrow> u8 list" where
  "native_method_bytes r = take (nat (native_method_length r)) (drop 13 (native_metadata r))"

section \<open>The metadata layout\<close>

definition be32 :: "u32 \<Rightarrow> u8 list" where
  "be32 v = [ucast (drop_bit 24 v), ucast (drop_bit 16 v), ucast (drop_bit 8 v), ucast v]"

definition u32_of_be :: "u8 list \<Rightarrow> u32" where
  "u32_of_be bs = push_bit 24 (ucast (bs ! 0)) OR push_bit 16 (ucast (bs ! 1))
     OR push_bit 8 (ucast (bs ! 2)) OR ucast (bs ! 3)"

text \<open>
  The layout the ABI document fixes: three big-endian lengths, the three byte strings and the
  close flag, and nothing behind it.
\<close>

definition read_metadata :: "u8 list \<Rightarrow> (u8 list \<times> u8 list \<times> u8 list \<times> bool) option" where
  "read_metadata bs =
    (if length bs < 12 then None
     else
       let m = unat (u32_of_be (take 4 bs)); t = unat (u32_of_be (take 4 (drop 4 bs)));
           v = unat (u32_of_be (take 4 (drop 8 bs))) in
       if length bs \<noteq> 12 + m + t + v + 1 then None
       else Some (take m (drop 12 bs), take t (drop (12 + m) bs), take v (drop (12 + m + t) bs),
              bs ! (12 + m + t + v) \<noteq> 0))"

lemma length_be32 [simp]: "length (be32 v) = 4"
  by (simp add: be32_def)

lemma u32_of_be_be32 [simp]: "u32_of_be (be32 v) = v"
proof (rule bit_word_eqI)
  fix n
  assume "n < LENGTH(32)"
  then consider "n < 8" | "8 \<le> n" "n < 16" | "16 \<le> n" "n < 24" | "24 \<le> n" "n < 32"
    by fastforce
  then show "bit (u32_of_be (be32 v)) n \<longleftrightarrow> bit v n"
    by cases (auto simp: u32_of_be_def be32_def bit_simps)
qed

lemma write_u32_be_memcpy:
  "off + 4 \<le> length out \<Longrightarrow> write_u32_be out off v = memcpy_at out off (be32 v)"
  by (rule nth_equalityI)
    (auto simp: write_u32_be_def be32_def nth_memcpy_at nth_list_update nth_Cons' length_memcpy_at)

lemma take_memcpy_at:
  "off \<le> length buf \<Longrightarrow> take (off + length src) (memcpy_at buf off src) = take off buf @ src"
  by (simp add: memcpy_at_def)

lemma update_memcpy: "off < length xs \<Longrightarrow> xs[off := x] = memcpy_at xs off [x]"
  by (simp add: memcpy_at_def upd_conv_take_nth_drop)

lemma memcpy_memcpy_next:
  "off + length a + length b \<le> length buf \<Longrightarrow>
     memcpy_at (memcpy_at buf off a) (off + length a) b = memcpy_at buf off (a @ b)"
  by (simp add: memcpy_at_def add.assoc add.left_commute add.commute [of "length b"])

definition metadata_bytes :: "u8 list \<Rightarrow> u8 list \<Rightarrow> u8 list \<Rightarrow> u8 \<Rightarrow> u8 list" where
  "metadata_bytes method target version flag =
     be32 (of_nat (length method)) @ be32 (of_nat (length target)) @ be32 (of_nat (length version))
     @ method @ target @ version @ [flag]"

lemma length_metadata_bytes [simp]:
  "length (metadata_bytes method target version flag)
     = 13 + length method + length target + length version"
  by (simp add: metadata_bytes_def)

text \<open>The seven stores are one copy of the metadata to the start of the storage.\<close>

lemma write_metadata_memcpy:
  assumes "13 + length method + length target + length version \<le> length storage"
  shows "write_metadata storage method target version flag
    = memcpy_at storage 0 (metadata_bytes method target version flag)"
proof -
  let ?m = "length method" and ?t = "length target" and ?v = "length version"
  let ?l = "be32 (of_nat ?m) @ be32 (of_nat ?t) @ be32 (of_nat ?v)"
  have l: "length ?l = 12" by simp
  have heads: "write_u32_be (write_u32_be (write_u32_be storage 0 (of_nat ?m)) 4 (of_nat ?t)) 8 (of_nat ?v)
      = memcpy_at storage 0 ?l"
    using assms memcpy_memcpy_next [of 0 "be32 (of_nat ?m)" "be32 (of_nat ?t)" storage]
      memcpy_memcpy_next [of 0 "be32 (of_nat ?m) @ be32 (of_nat ?t)" "be32 (of_nat ?v)" storage]
    by (simp add: write_u32_be_memcpy)
  have "memcpy_at (memcpy_at (memcpy_at (memcpy_at storage 0 ?l) 12 method) (12 + ?m) target) (12 + ?m + ?t) version
      = memcpy_at storage 0 (?l @ method @ target @ version)"
    using assms memcpy_memcpy_next [of 0 ?l "method" storage]
      memcpy_memcpy_next [of 0 "?l @ method" target storage]
      memcpy_memcpy_next [of 0 "?l @ method @ target" version storage]
    by (simp add: l add.assoc)
  then show ?thesis
    using assms memcpy_memcpy_next [of 0 "?l @ method @ target @ version" "[flag]" storage]
    by (simp add: write_metadata_def Let_def heads update_memcpy metadata_bytes_def add.assoc)
qed

lemma read_metadata_bytes:
  assumes "length method < 2 ^ 31" "length target < 2 ^ 31" "length version < 2 ^ 31"
  shows "read_metadata (metadata_bytes method target version flag)
    = Some (method, target, version, flag \<noteq> 0)"
proof -
  have "unat (of_nat n :: u32) = n" if "n < 2 ^ 31" for n
    using that by (simp add: unat_of_nat_less)
  then show ?thesis
    using assms by (simp add: read_metadata_def metadata_bytes_def nth_append)
qed

section \<open>Concurrent callers\<close>

text \<open>
  Any number of threads work on one request, each making one call.  An atomic access of the source
  is one step: the compare-and-swap of begin and finish, the load and the compare-and-swap of the
  cancel loop (which may fail spuriously), and the compare-and-swap, the write of the error record
  and the final store of fail.  \<open>RT_Cancel n\<close> is about to load for the next round of the loop
  after \<open>n\<close> rounds lost to another thread.
\<close>

datatype req_thread =
    RT_Idle
  | RT_Began int
  | RT_Finished int
  | RT_Cancel nat
  | RT_Loaded nat u32
  | RT_Cancelled int
  | RT_Publishing ck_error
  | RT_Written ck_error
  | RT_Failed ck_error int

record req_world =
  shared :: ck_request
  threads :: "nat \<Rightarrow> req_thread"

inductive req_step :: "req_world \<Rightarrow> req_world \<Rightarrow> bool" where
  step_begin: "ts i = RT_Idle \<Longrightarrow> ck_request_begin False r = (res, r') \<Longrightarrow>
    req_step \<lparr>shared = r, threads = ts\<rparr> \<lparr>shared = r', threads = ts(i := RT_Began res)\<rparr>"
| step_finish: "ts i = RT_Idle \<Longrightarrow> ck_request_finish False r = (res, r') \<Longrightarrow>
    req_step \<lparr>shared = r, threads = ts\<rparr> \<lparr>shared = r', threads = ts(i := RT_Finished res)\<rparr>"
| step_cancel: "ts i = RT_Idle \<Longrightarrow>
    req_step \<lparr>shared = r, threads = ts\<rparr> \<lparr>shared = r, threads = ts(i := RT_Cancel 0)\<rparr>"
| step_load: "ts i = RT_Cancel n \<Longrightarrow>
    req_step \<lparr>shared = r, threads = ts\<rparr> \<lparr>shared = r, threads = ts(i := RT_Loaded n (req_state r))\<rparr>"
| step_return: "ts i = RT_Loaded n s \<Longrightarrow> cancel_decide s = Inl res \<Longrightarrow>
    req_step \<lparr>shared = r, threads = ts\<rparr> \<lparr>shared = r, threads = ts(i := RT_Cancelled res)\<rparr>"
| step_swap: "ts i = RT_Loaded n s \<Longrightarrow> cancel_decide s = Inr d \<Longrightarrow> req_state r = s \<Longrightarrow>
    req_step \<lparr>shared = r, threads = ts\<rparr>
      \<lparr>shared = r\<lparr>req_state := d\<rparr>, threads = ts(i := RT_Cancelled 0)\<rparr>"
| step_spurious: "ts i = RT_Loaded n s \<Longrightarrow> cancel_decide s = Inr d \<Longrightarrow>
    req_step \<lparr>shared = r, threads = ts\<rparr> \<lparr>shared = r, threads = ts(i := RT_Cancel n)\<rparr>"
| step_lost: "ts i = RT_Loaded n s \<Longrightarrow> cancel_decide s = Inr d \<Longrightarrow> req_state r \<noteq> s \<Longrightarrow>
    req_step \<lparr>shared = r, threads = ts\<rparr> \<lparr>shared = r, threads = ts(i := RT_Cancel (Suc n))\<rparr>"
| step_fail_refused: "ts i = RT_Idle \<Longrightarrow> error_abi_version e \<noteq> CK_ERROR_ABI_VERSION \<Longrightarrow>
    req_step \<lparr>shared = r, threads = ts\<rparr> \<lparr>shared = r, threads = ts(i := RT_Failed e (-1))\<rparr>"
| step_fail_lost: "ts i = RT_Idle \<Longrightarrow> error_abi_version e = CK_ERROR_ABI_VERSION \<Longrightarrow>
    fail_cas r = (Some res, r') \<Longrightarrow>
    req_step \<lparr>shared = r, threads = ts\<rparr> \<lparr>shared = r', threads = ts(i := RT_Failed e res)\<rparr>"
| step_fail_cas: "ts i = RT_Idle \<Longrightarrow> error_abi_version e = CK_ERROR_ABI_VERSION \<Longrightarrow>
    fail_cas r = (None, r') \<Longrightarrow>
    req_step \<lparr>shared = r, threads = ts\<rparr> \<lparr>shared = r', threads = ts(i := RT_Publishing e)\<rparr>"
| step_fail_write: "ts i = RT_Publishing e \<Longrightarrow>
    req_step \<lparr>shared = r, threads = ts\<rparr>
      \<lparr>shared = r\<lparr>req_error := e\<rparr>, threads = ts(i := RT_Written e)\<rparr>"
| step_fail_store: "ts i = RT_Written e \<Longrightarrow>
    req_step \<lparr>shared = r, threads = ts\<rparr>
      \<lparr>shared = r\<lparr>req_state := CK_REQUEST_FAILED\<rparr>, threads = ts(i := RT_Failed e 0)\<rparr>"

text \<open>Threads that own the outcome of the request.\<close>

fun owns_outcome :: "req_thread \<Rightarrow> bool" where
  "owns_outcome (RT_Finished res) \<longleftrightarrow> res = 0"
| "owns_outcome (RT_Cancelled res) \<longleftrightarrow> res = 0"
| "owns_outcome (RT_Publishing _) \<longleftrightarrow> True"
| "owns_outcome (RT_Written _) \<longleftrightarrow> True"
| "owns_outcome (RT_Failed _ res) \<longleftrightarrow> res = 0"
| "owns_outcome _ \<longleftrightarrow> False"

fun owner_agrees :: "ck_request \<Rightarrow> req_thread \<Rightarrow> bool" where
  "owner_agrees r (RT_Finished _) \<longleftrightarrow> req_state r = CK_REQUEST_COMPLETED"
| "owner_agrees r (RT_Cancelled _) \<longleftrightarrow> req_state r = CK_REQUEST_CANCELLING"
| "owner_agrees r (RT_Publishing _) \<longleftrightarrow> req_state r = CK_REQUEST_FAILING"
| "owner_agrees r (RT_Written e) \<longleftrightarrow> req_state r = CK_REQUEST_FAILING \<and> req_error r = e"
| "owner_agrees r (RT_Failed e _) \<longleftrightarrow> req_state r = CK_REQUEST_FAILED \<and> req_error r = e"
| "owner_agrees r _ \<longleftrightarrow> True"

definition state_rank :: "u32 \<Rightarrow> nat" where
  "state_rank s = (if s = CK_REQUEST_PENDING then 0 else if s = CK_REQUEST_RUNNING then 1 else 2)"

fun rounds_ok :: "u32 \<Rightarrow> req_thread \<Rightarrow> bool" where
  "rounds_ok s (RT_Cancel n) \<longleftrightarrow> n \<le> state_rank s"
| "rounds_ok s (RT_Loaded n l) \<longleftrightarrow> n \<le> state_rank l \<and> state_rank l \<le> state_rank s"
| "rounds_ok s _ \<longleftrightarrow> True"

definition req_inv :: "req_world \<Rightarrow> bool" where
  "req_inv w \<longleftrightarrow> (let s = req_state (shared w) in
     s \<le> 5
     \<and> one_winner (request_over s) (winners owns_outcome (threads w))
     \<and> (\<forall>i. owns_outcome (threads w i) \<longrightarrow> owner_agrees (shared w) (threads w i))
     \<and> (\<forall>i. rounds_ok s (threads w i))
     \<and> (s = CK_REQUEST_PENDING \<longrightarrow> (\<forall>i. threads w i \<noteq> RT_Began 0))
     \<and> (\<forall>i j. threads w i = RT_Began 0 \<longrightarrow> threads w j = RT_Began 0 \<longrightarrow> i = j))"

lemmas req_op_defs = ck_request_begin_def ck_request_finish_def fail_cas_def cancel_decide_def
  request_over_def request_states state_rank_def

lemma one_winner_over: "one_winner b W \<Longrightarrow> \<not> b \<Longrightarrow> W = {}"
  by (simp add: one_winner_def)

text \<open>Only the state and the thread that stepped matter for a step that owns nothing.\<close>

text \<open>A thread that takes the outcome of a live request.\<close>

lemma rounds_ok_mono: "rounds_ok s t \<Longrightarrow> state_rank s \<le> state_rank s' \<Longrightarrow> rounds_ok s' t"
  by (cases t) auto

lemma req_inv_rounds: "req_inv \<lparr>shared = r, threads = ts\<rparr> \<Longrightarrow> rounds_ok (req_state r) (ts j)"
  by (simp add: req_inv_def Let_def)

lemma req_inv_agrees:
  "req_inv \<lparr>shared = r, threads = ts\<rparr> \<Longrightarrow> owns_outcome (ts j) \<Longrightarrow> owner_agrees r (ts j)"
  by (simp add: req_inv_def Let_def)

lemma req_inv_began_once:
  "req_inv \<lparr>shared = r, threads = ts\<rparr> \<Longrightarrow> ts i = RT_Began 0 \<Longrightarrow> ts j = RT_Began 0 \<Longrightarrow> i = j"
  by (simp add: req_inv_def Let_def)

lemma req_inv_began_pending:
  "req_inv \<lparr>shared = r, threads = ts\<rparr> \<Longrightarrow> req_state r = CK_REQUEST_PENDING \<Longrightarrow> ts i \<noteq> RT_Began 0"
  by (simp add: req_inv_def Let_def)

lemma req_invI:
  assumes "req_state r \<le> 5" "one_winner (request_over (req_state r)) (winners owns_outcome ts)"
    "\<And>j. owns_outcome (ts j) \<Longrightarrow> owner_agrees r (ts j)" "\<And>j. rounds_ok (req_state r) (ts j)"
    "\<And>j. req_state r = CK_REQUEST_PENDING \<Longrightarrow> ts j \<noteq> RT_Began 0"
    "\<And>i j. ts i = RT_Began 0 \<Longrightarrow> ts j = RT_Began 0 \<Longrightarrow> i = j"
  shows "req_inv \<lparr>shared = r, threads = ts\<rparr>"
  using assms unfolding req_inv_def Let_def by simp

lemma req_inv_quiet:
  assumes "req_inv \<lparr>shared = r, threads = ts\<rparr>" "\<not> owns_outcome (ts i)" "\<not> owns_outcome t"
    "rounds_ok (req_state r) t" "t \<noteq> RT_Began 0" "ts i \<noteq> RT_Began 0"
  shows "req_inv \<lparr>shared = r, threads = ts(i := t)\<rparr>"
  using assms req_inv_agrees [OF assms(1)] req_inv_rounds [OF assms(1)] req_inv_began_once [OF assms(1)]
    req_inv_began_pending [OF assms(1)]
  by (intro req_invI) (auto simp: req_inv_def Let_def winners_upd split: if_splits)

lemma req_inv_take:
  assumes inv: "req_inv \<lparr>shared = r, threads = ts\<rparr>" and "\<not> request_over (req_state r)"
    and t: "owns_outcome t" "\<not> owns_outcome (ts i)" "ts i \<noteq> RT_Began 0"
    and r': "request_over (req_state r')" "owner_agrees r' t"
  shows "req_inv \<lparr>shared = r', threads = ts(i := t)\<rparr>"
proof -
  have none: "\<not> owns_outcome (ts j)" for j
    using inv assms(2) by (auto simp: req_inv_def Let_def one_winner_def winners_def)
  have rank: "state_rank (req_state r) \<le> state_rank (req_state r')" "req_state r' \<le> 5"
      "req_state r' \<noteq> CK_REQUEST_PENDING"
    using r'(1) by (auto simp: request_over_def request_states state_rank_def)
  have "rounds_ok (req_state r') t"
    using t(1) by (cases t) auto
  moreover have "rounds_ok (req_state r') (ts j)" for j
    using req_inv_rounds [OF inv] rank(1) by (rule rounds_ok_mono)
  moreover have "winners owns_outcome (ts(i := t)) = {i}"
    using none t(1) by (auto simp: winners_def)
  moreover have "t \<noteq> RT_Began 0" using t(1) by auto
  ultimately show ?thesis
    using rank none r' req_inv_began_once [OF inv]
    by (intro req_invI) (auto simp: one_winner_def split: if_splits)
qed

text \<open>The owner moves on.\<close>

lemma req_inv_own:
  assumes inv: "req_inv \<lparr>shared = r, threads = ts\<rparr>"
    and t: "owns_outcome t" "owns_outcome (ts i)"
    and r: "request_over (req_state r)"
    and r': "request_over (req_state r')" "owner_agrees r' t"
  shows "req_inv \<lparr>shared = r', threads = ts(i := t)\<rparr>"
proof -
  have only: "owns_outcome (ts j) \<Longrightarrow> j = i" for j
    using inv t(2) one_winner_unique [of _ owns_outcome ts j i] by (auto simp: req_inv_def Let_def)
  have rank: "state_rank (req_state r) \<le> state_rank (req_state r')" "req_state r' \<le> 5"
      "req_state r' \<noteq> CK_REQUEST_PENDING"
    using r'(1) r by (auto simp: request_over_def request_states state_rank_def)
  have "rounds_ok (req_state r') t"
    using t(1) by (cases t) auto
  moreover have "rounds_ok (req_state r') (ts j)" for j
    using req_inv_rounds [OF inv] rank(1) by (rule rounds_ok_mono)
  moreover have "winners owns_outcome (ts(i := t)) = {i}"
    using t by (auto simp: winners_def dest: only)
  moreover have "t \<noteq> RT_Began 0" using t(1) by auto
  ultimately show ?thesis
    using rank only r' req_inv_began_once [OF inv]
    by (intro req_invI) (auto simp: one_winner_def split: if_splits)
qed

lemma req_inv_began:
  assumes inv: "req_inv \<lparr>shared = r, threads = ts\<rparr>" and "req_state r = CK_REQUEST_PENDING" "ts i = RT_Idle"
  shows "req_inv \<lparr>shared = r\<lparr>req_state := CK_REQUEST_RUNNING\<rparr>, threads = ts(i := RT_Began 0)\<rparr>"
proof -
  have none: "\<not> owns_outcome (ts j)" for j
    using inv assms(2) by (auto simp: req_inv_def Let_def one_winner_def winners_def req_op_defs)
  have "rounds_ok CK_REQUEST_RUNNING (ts j)" for j
    using inv assms(2) rounds_ok_mono [of CK_REQUEST_PENDING "ts j" CK_REQUEST_RUNNING]
    by (auto simp: req_inv_def Let_def state_rank_def request_states)
  moreover have "winners owns_outcome (ts(i := RT_Began 0)) = {}"
    using none by (auto simp: winners_def)
  ultimately show ?thesis
    using none req_inv_began_pending [OF inv assms(2)]
    by (intro req_invI) (auto simp: one_winner_def request_over_def request_states split: if_splits)
qed

lemma req_inv_idle: "ts i = RT_Idle \<Longrightarrow> \<not> owns_outcome (ts i) \<and> ts i \<noteq> RT_Began 0"
  by simp

text \<open>What the three compare-and-swap calls can do.\<close>

lemma begin_cases:
  assumes "ck_request_begin False r = (res, r')"
  obtains "req_state r = CK_REQUEST_PENDING" "res = 0" "r' = r\<lparr>req_state := CK_REQUEST_RUNNING\<rparr>"
  | "res = 1" "r' = r"
  using assms by (auto simp: ck_request_begin_def split: if_splits)

lemma finish_cases:
  assumes "ck_request_finish False r = (res, r')"
  obtains "req_state r = CK_REQUEST_RUNNING" "res = 0" "r' = r\<lparr>req_state := CK_REQUEST_COMPLETED\<rparr>"
  | "res \<noteq> 0" "r' = r"
  using assms by (auto simp: ck_request_finish_def split: if_splits)

lemma fail_cas_cases:
  assumes "fail_cas r = (res, r')"
  obtains "req_state r = CK_REQUEST_RUNNING" "res = None" "r' = r\<lparr>req_state := CK_REQUEST_FAILING\<rparr>"
  | x where "res = Some x" "x \<noteq> 0" "r' = r"
proof (cases "req_state r = CK_REQUEST_RUNNING")
  case True
  with assms show ?thesis by (intro that(1)) (auto simp: fail_cas_def)
next
  case False
  with assms show ?thesis
    by (intro that(2) [of "if request_over (req_state r) then 1 else -1"]) (auto simp: fail_cas_def)
qed

lemma cancel_decide_Inr:
  assumes "cancel_decide s = Inr d"
  shows "d = CK_REQUEST_CANCELLING" "s = CK_REQUEST_PENDING \<or> s = CK_REQUEST_RUNNING" "\<not> request_over s"
  using assms by (auto simp: cancel_decide_def request_over_def split: if_splits)

lemma cancel_decide_Inl: "cancel_decide s = Inl res \<Longrightarrow> res \<noteq> 0"
  by (auto simp: cancel_decide_def split: if_splits)

lemma running_not_over: "\<not> request_over CK_REQUEST_RUNNING"
  by (simp add: request_over_def request_states)

text \<open>A thread that loses a round has seen a state that has since moved up.\<close>

lemma lost_round:
  "n \<le> state_rank s \<Longrightarrow> state_rank s \<le> state_rank s' \<Longrightarrow> s' \<noteq> s \<Longrightarrow>
   s = CK_REQUEST_PENDING \<or> s = CK_REQUEST_RUNNING \<Longrightarrow> Suc n \<le> state_rank s'"
  by (auto simp: state_rank_def request_states split: if_splits)

lemma req_step_inv:
  assumes "req_step w w'" "req_inv w"
  shows "req_inv w'"
  using assms
proof (induction rule: req_step.induct)
  case (step_begin ts i r res r')
  from step_begin(2) show ?case
    by (rule begin_cases) (use step_begin req_inv_began req_inv_quiet in auto)
next
  case (step_finish ts i r res r')
  from step_finish(2) show ?case
  proof (rule finish_cases)
    assume "req_state r = CK_REQUEST_RUNNING" "res = 0" "r' = r\<lparr>req_state := CK_REQUEST_COMPLETED\<rparr>"
    then show ?thesis
      using step_finish running_not_over by (auto simp: request_over_def intro!: req_inv_take [of r])
  next
    assume "res \<noteq> 0" "r' = r"
    then show ?thesis using step_finish by (auto intro!: req_inv_quiet)
  qed
next
  case (step_cancel ts i r)
  then show ?case by (auto intro!: req_inv_quiet)
next
  case (step_load ts i n r)
  then show ?case using req_inv_rounds [of r ts i] by (auto intro!: req_inv_quiet)
next
  case (step_return ts i n s res r)
  then show ?case by (auto dest: cancel_decide_Inl intro!: req_inv_quiet)
next
  case (step_swap ts i n s d r)
  then show ?case
    using cancel_decide_Inr [of s d] by (auto simp: request_over_def intro!: req_inv_take [of r])
next
  case (step_spurious ts i n s d r)
  then show ?case using req_inv_rounds [of r ts i] by (auto intro!: req_inv_quiet)
next
  case (step_lost ts i n s d r)
  then have "Suc n \<le> state_rank (req_state r)"
    using req_inv_rounds [of r ts i] cancel_decide_Inr [of s d] by (auto intro: lost_round)
  then show ?case using step_lost by (auto intro!: req_inv_quiet)
next
  case (step_fail_refused ts i e r)
  then show ?case by (auto intro!: req_inv_quiet)
next
  case (step_fail_lost ts i e r res r')
  from step_fail_lost(3) show ?case
    by (rule fail_cas_cases) (use step_fail_lost in \<open>auto intro!: req_inv_quiet\<close>)
next
  case (step_fail_cas ts i e r r')
  from step_fail_cas(3) show ?case
    by (rule fail_cas_cases)
      (use step_fail_cas running_not_over in \<open>auto simp: request_over_def intro!: req_inv_take [of r]\<close>)
next
  case (step_fail_write ts i e r)
  then have "owner_agrees r (ts i)" by (intro req_inv_agrees) auto
  with step_fail_write show ?case by (auto simp: request_over_def intro!: req_inv_own [of r])
next
  case (step_fail_store ts i e r)
  then have "owner_agrees r (ts i)" by (intro req_inv_agrees) auto
  with step_fail_store show ?case by (auto simp: request_over_def intro!: req_inv_own [of r])
qed

text \<open>Executions that start from a request that \<open>ck_request_init\<close> accepted.\<close>

inductive req_reach :: "req_world \<Rightarrow> bool" where
  reach_init: "ck_request_init False q d = (0, r) \<Longrightarrow> req_reach \<lparr>shared = r, threads = \<lambda>_. RT_Idle\<rparr>"
| reach_step: "req_reach w \<Longrightarrow> req_step w w' \<Longrightarrow> req_reach w'"

lemma word_le_5: "(s :: u32) \<le> 5 \<Longrightarrow> s \<in> {0, 1, 2, 3, 4, 5}"
proof -
  assume "s \<le> 5"
  then have "unat s \<le> 5" by (simp add: word_le_nat_alt)
  then have "unat s \<in> {0, 1, 2, 3, 4, 5}" by auto
  then show ?thesis by (auto dest!: arg_cong [of "unat s" _ "of_nat :: nat \<Rightarrow> u32"])
qed

lemma req_reach_inv: "req_reach w \<Longrightarrow> req_inv w"
proof (induction rule: req_reach.induct)
  case (reach_init q d r)
  then have "req_state r = CK_REQUEST_PENDING"
    by (auto simp: ck_request_init_def split: if_splits)
  then show ?case
    by (simp add: req_inv_def Let_def one_winner_def winners_def request_over_def request_states)
qed (rule req_step_inv)

section \<open>Properties\<close>

text \<open>The metadata bytes that Java is given: \<open>metadata_length\<close> bytes at \<open>metadata\<close>.\<close>

definition metadata_view :: "ck_request_descriptor \<Rightarrow> u8 list" where
  "metadata_view d = take (unat (desc_metadata_length d)) (the (desc_metadata d))"

definition spans_in :: "u8 list \<Rightarrow> ck_http_request \<Rightarrow> bool" where
  "spans_in buf r \<longleftrightarrow> span_end (request_method r) \<le> length buf \<and> span_end (request_target r) \<le> length buf
     \<and> span_end (request_version r) \<le> length buf"

lemma request_wf_spans:
  assumes "request_wf buf r"
  shows "spans_in buf r" "span_length (request_method r) \<le> CK_HTTP_MAX_METHOD_BYTES"
    "span_length (request_target r) \<le> CK_HTTP_MAX_TARGET_BYTES" "span_length (request_version r) = 8"
proof -
  have *: "span_data sp \<le> span_end sp" for sp by (simp add: span_end_def)
  show "spans_in buf r"
    using assms * [of "request_target r"] * [of "request_version r"]
    by (simp add: request_wf_def request_line_wf_def spans_in_def)
  then have "length (span_bytes buf (request_version r)) = span_length (request_version r)"
    by (simp add: spans_in_def length_span_bytes span_end_def)
  then show "span_length (request_version r) = 8"
    using assms by (simp add: request_wf_def request_line_wf_def)
qed (use assms in \<open>simp_all add: request_wf_def request_line_wf_def\<close>)

lemma take_storage:
  "length bs \<le> length storage \<Longrightarrow> take (length bs) (memcpy_at storage 0 bs) = bs"
  by (simp add: memcpy_at_def)

lemma init_descriptor: "ck_request_init False q (Some d) = (0, q') \<Longrightarrow> req_descriptor q' = d"
  by (auto simp: ck_request_init_def split: if_splits)

text \<open>A request that \<open>ck_request_init_http\<close> accepts shows exactly the metadata bytes.\<close>

lemma init_http_view:
  assumes "ck_request_init_http False q buf r body n rid owner lifetime = (0, q')" "spans_in buf r"
  shows "metadata_view (req_descriptor q') = metadata_bytes (span_bytes buf (request_method r))
      (span_bytes buf (request_target r)) (span_bytes buf (request_version r))
      (if request_connection_close_required r then 1 else 0)"
    and "span_length (request_method r) \<le> CK_HTTP_MAX_METHOD_BYTES"
    and "span_length (request_target r) \<le> CK_HTTP_MAX_TARGET_BYTES"
    and "span_length (request_version r) \<le> CK_HTTP_MAX_VERSION_BYTES"
proof -
  let ?M = "span_bytes buf (request_method r)" and ?T = "span_bytes buf (request_target r)"
    and ?V = "span_bytes buf (request_version r)"
    and ?f = "if request_connection_close_required r then 1 else 0 :: u8"
  let ?n = "13 + length ?M + length ?T + length ?V"
  have len: "span_length (request_method r) = length ?M" "span_length (request_target r) = length ?T"
      "span_length (request_version r) = length ?V"
    using assms(2) by (simp_all add: spans_in_def length_span_bytes span_end_def)
  note unfolded_call = assms(1) [unfolded ck_request_init_http_def Let_def len]
  show "span_length (request_method r) \<le> CK_HTTP_MAX_METHOD_BYTES"
    "span_length (request_target r) \<le> CK_HTTP_MAX_TARGET_BYTES"
    "span_length (request_version r) \<le> CK_HTTP_MAX_VERSION_BYTES"
    using unfolded_call by (auto simp: len split: if_splits)
  have fits: "?n \<le> CK_REQUEST_METADATA_STORAGE_BYTES"
    using unfolded_call by (auto split: if_splits)
  let ?s = "write_metadata (req_metadata_storage zero_ck_request) ?M ?T ?V ?f"
  have "req_descriptor q' = http_descriptor ?s (12 + length ?M + length ?T + length ?V + 1) body n rid owner lifetime"
    using unfolded_call by (auto dest: init_descriptor split: if_splits)
  moreover have "unat (of_nat (12 + length ?M + length ?T + length ?V + 1) :: u64) = ?n"
    using fits by (subst unat_of_nat_less) (simp_all add: CK_REQUEST_METADATA_STORAGE_BYTES_def)
  moreover have "take ?n ?s = metadata_bytes ?M ?T ?V ?f"
    using fits take_storage [of "metadata_bytes ?M ?T ?V ?f" "req_metadata_storage zero_ck_request"]
    by (simp add: write_metadata_memcpy zero_ck_request_def)
  ultimately show "metadata_view (req_descriptor q') = metadata_bytes ?M ?T ?V ?f"
    by (simp add: metadata_view_def http_descriptor_def del: of_nat_add of_nat_Suc)
qed

lemma http_descriptor_valid:
  assumes "0 < m" "m \<le> INT32_MAX" "n \<le> INT32_MAX" "body = None \<Longrightarrow> n = 0"
    "rid \<noteq> 0" "unat rid \<le> INT64_MAX" "unat owner \<le> INT64_MAX" "unat lifetime \<le> INT64_MAX"
  shows "ck_request_descriptor_valid (Some (http_descriptor storage m body n rid owner lifetime))"
proof -
  have m: "unat (of_nat m :: u64) = m" and n: "unat (of_nat n :: u64) = n"
    using assms(2,3) by (simp_all add: unat_of_nat_less INT32_MAX_def)
  have "(of_nat m :: u64) \<noteq> 0"
    using assms(1) m by (metis less_irrefl unat_0)
  then show ?thesis
    using assms m n
    by (cases body) (auto simp: ck_request_descriptor_valid_def http_descriptor_def zero_descriptor_def
        CK_REQUEST_FEATURE_DIRECT_BUFFER_def CK_REQUEST_FEATURE_METADATA_BUFFER_def)
qed

lemma init_http_accepts:
  assumes "span_length (request_method r) \<le> CK_HTTP_MAX_METHOD_BYTES"
    "span_length (request_target r) \<le> CK_HTTP_MAX_TARGET_BYTES"
    "span_length (request_version r) \<le> CK_HTTP_MAX_VERSION_BYTES"
    and "body = None \<Longrightarrow> n = 0" "n \<le> INT32_MAX"
    and "rid \<noteq> 0" "unat rid \<le> INT64_MAX" "unat owner \<le> INT64_MAX" "unat lifetime \<le> INT64_MAX"
  obtains q' where "ck_request_init_http False q buf r body n rid owner lifetime = (0, q')"
    "req_state q' = CK_REQUEST_PENDING"
proof -
  let ?m = "12 + span_length (request_method r) + span_length (request_target r)
    + span_length (request_version r) + 1"
  let ?call = "ck_request_init_http False q buf r body n rid owner lifetime"
  have m: "?m \<le> CK_REQUEST_METADATA_STORAGE_BYTES" "?m \<le> INT32_MAX"
    using assms(1-3) by (simp_all add: CK_HTTP_MAX_METHOD_BYTES_def CK_HTTP_MAX_TARGET_BYTES_def
        CK_HTTP_MAX_VERSION_BYTES_def CK_REQUEST_METADATA_STORAGE_BYTES_def INT32_MAX_def)
  have "ck_request_descriptor_valid (Some (http_descriptor storage ?m body n rid owner lifetime))"
    for storage using assms(4-) m by (intro http_descriptor_valid) auto
  with m assms have "fst ?call = 0 \<and> req_state (snd ?call) = CK_REQUEST_PENDING"
    by (auto simp: ck_request_init_http_def ck_request_init_def Let_def)
  then show ?thesis by (intro that [of "snd ?call"]) (simp_all add: prod_eq_iff)
qed

text \<open>
  C24. The metadata handed to Java is the request: for every request that the parser completed and
  every body and identifiers in range, \<open>ck_request_init_http\<close> succeeds, the request is pending, and
  decoding its metadata view by the layout of the ABI document gives back exactly the method, the
  target, the version \<open>HTTP/1.1\<close> and the close flag of the message.
\<close>

theorem request_metadata_roundtrip:
  assumes "\<not> parser_complete p"
    and "ck_http_parser_feed False p data req = (CK_HTTP_PARSE_COMPLETE, c, p', r)"
    and "body = None \<Longrightarrow> n = 0" "n \<le> INT32_MAX"
    and "rid \<noteq> 0" "unat rid \<le> INT64_MAX" "unat owner \<le> INT64_MAX" "unat lifetime \<le> INT64_MAX"
  shows "\<exists>q'. ck_request_init_http False q (parser_buffer p') r body n rid owner lifetime = (0, q')
    \<and> req_state q' = CK_REQUEST_PENDING
    \<and> read_metadata (metadata_view (req_descriptor q')) =
       Some (span_bytes (parser_buffer p') (request_method r), span_bytes (parser_buffer p') (request_target r),
         bytes_of ''HTTP/1.1'', request_connection_close_required r)"
proof -
  have wf: "request_wf (parser_buffer p') r"
    using assms(1,2) parser_feed_loop_COMPLETE [of p data 0 req c p' r]
    by (auto simp: ck_http_parser_feed_def intro: parse_header_block_COMPLETE(1))
  note fits = request_wf_spans [OF wf]
  obtain q' where q': "ck_request_init_http False q (parser_buffer p') r body n rid owner lifetime = (0, q')"
      and pending: "req_state q' = CK_REQUEST_PENDING"
    using fits assms(3-) by (elim init_http_accepts [rotated -1]) (simp_all add: CK_HTTP_MAX_VERSION_BYTES_def)
  have "read_metadata (metadata_view (req_descriptor q')) =
       Some (span_bytes (parser_buffer p') (request_method r), span_bytes (parser_buffer p') (request_target r),
         span_bytes (parser_buffer p') (request_version r), request_connection_close_required r)"
    using init_http_view [OF q' fits(1)] fits(1)
    by (subst init_http_view(1) [OF q' fits(1)], subst read_metadata_bytes)
      (simp_all add: length_span_bytes span_end_def spans_in_def CK_HTTP_MAX_METHOD_BYTES_def
        CK_HTTP_MAX_TARGET_BYTES_def CK_HTTP_MAX_VERSION_BYTES_def)
  then show ?thesis
    using q' pending wf by (auto simp: request_wf_def request_line_wf_def)
qed

text \<open>
  The Java constructor rejects them all: it compares the length of the whole metadata with what is
  left of the buffer after the three lengths have been read.
\<close>

lemma get_int_be_of_be32:
  assumes "n < 2 ^ 31" "take 4 (drop off bs) = be32 (of_nat n)"
  shows "get_int_be bs off = int n"
proof -
  have nth: "bs ! (off + k) = be32 (of_nat n) ! k" if "k < 4" for k
  proof -
    have "length (take 4 (drop off bs)) = 4" using assms(2) by simp
    then have "k < length (drop off bs)" using that by simp
    then show ?thesis using that by (simp flip: assms(2))
  qed
  have "get_int_be bs off = sint (u32_of_be (be32 (of_nat n)))"
    unfolding get_int_be_def u32_of_be_def
    using nth [of 0] nth [of 1] nth [of 2] nth [of 3] by simp
  also have "\<dots> = sint (of_nat n :: u32)" by simp
  also have "\<dots> = int n"
    using assms(1) by (simp add: sint_uint signed_take_bit_int_eq_self unsigned_of_nat take_bit_nat_eq_self)
  finally show ?thesis .
qed

text \<open>
  C40. No request reaches Java: for every request that \<open>ck_request_init_http\<close> accepts, the
  constructor of \<open>NativeRequest\<close> throws on the metadata view, although the view decodes by the
  documented layout.
\<close>

theorem native_request_rejects_metadata:
  assumes "ck_request_init_http False q buf r body n rid owner lifetime = (0, q')" "spans_in buf r"
  shows "new_native_request handle (metadata_view (req_descriptor q')) = None
    \<and> read_metadata (metadata_view (req_descriptor q')) \<noteq> None"
proof -
  let ?M = "span_bytes buf (request_method r)" and ?T = "span_bytes buf (request_target r)"
    and ?V = "span_bytes buf (request_version r)"
    and ?f = "if request_connection_close_required r then 1 else 0 :: u8"
  note view = init_http_view [OF assms]
  have small: "length ?M < 2 ^ 31" "length ?T < 2 ^ 31" "length ?V < 2 ^ 31"
    using view(2-4) assms(2)
    by (simp_all add: length_span_bytes span_end_def spans_in_def CK_HTTP_MAX_METHOD_BYTES_def
        CK_HTTP_MAX_TARGET_BYTES_def CK_HTTP_MAX_VERSION_BYTES_def)
  let ?b = "metadata_bytes ?M ?T ?V ?f"
  have "get_int_be ?b 0 = int (length ?M)" "get_int_be ?b 4 = int (length ?T)"
      "get_int_be ?b 8 = int (length ?V)"
    using small by (auto simp: metadata_bytes_def intro!: get_int_be_of_be32)
  then have "new_native_request handle ?b = None"
    by (simp add: new_native_request_def)
  then show ?thesis
    using small by (simp add: view(1) read_metadata_bytes)
qed

text \<open>
  C25. One outcome under any interleaving: whatever threads begin, cancel, finish and fail one
  request concurrently, \<open>ck_request_begin\<close> succeeds at most once, the request is over if and only if
  exactly one thread owns the outcome, the state is the one that owner reported, and
  \<open>ck_request_error\<close> shows a record only after its publication, and then exactly the record of the
  one successful \<open>ck_request_fail\<close>.
\<close>

theorem request_one_outcome:
  assumes "req_reach w"
  shows "(if request_over (req_state (shared w)) then \<exists>!i. owns_outcome (threads w i)
          else \<forall>i. \<not> owns_outcome (threads w i))
    \<and> (threads w i = RT_Began 0 \<longrightarrow> threads w j = RT_Began 0 \<longrightarrow> i = j)
    \<and> (threads w i = RT_Cancelled 0 \<longrightarrow> req_state (shared w) = CK_REQUEST_CANCELLING)
    \<and> (threads w i = RT_Finished 0 \<longrightarrow> req_state (shared w) = CK_REQUEST_COMPLETED)
    \<and> (ck_request_error (Some (shared w)) = Some e \<longleftrightarrow> (\<exists>k. threads w k = RT_Failed e 0))"
proof -
  obtain r ts where w: "w = \<lparr>shared = r, threads = ts\<rparr>" by (cases w)
  have inv: "req_inv \<lparr>shared = r, threads = ts\<rparr>"
    using req_reach_inv [OF assms] w by simp
  have one: "one_winner (request_over (req_state r)) (winners owns_outcome ts)"
    using inv by (simp add: req_inv_def Let_def)
  have agree: "owner_agrees r (ts k)" if "owns_outcome (ts k)" for k
    using inv that by (rule req_inv_agrees)
  have "\<exists>k. ts k = RT_Failed e 0" if "ck_request_error (Some r) = Some e"
  proof -
    from that have f: "req_state r = CK_REQUEST_FAILED" "req_error r = e"
      by (auto simp: ck_request_error_def split: if_splits)
    then obtain k where k: "owns_outcome (ts k)"
      using one_winner_ex1 [OF one] by (auto simp: request_over_def)
    have "ts k = RT_Failed e 0"
      using k agree [OF k] f by (cases "ts k") (auto simp: request_states)
    then show ?thesis ..
  qed
  moreover have "ck_request_error (Some r) = Some e" if "ts k = RT_Failed e 0" for k
    using agree [of k] that by (simp add: ck_request_error_def)
  ultimately show ?thesis
    using one_winner_ex1 [OF one] agree [of i] req_inv_began_once [OF inv, of i j]
    unfolding w by auto
qed

text \<open>
  C26. The cancel loop is bounded under any interference: a cancelling thread loses at most two
  rounds to other threads, since each loss means that the state has moved up; after two losses the
  next load ends the call with 1.
\<close>

theorem request_cancel_bounded:
  assumes "req_reach w" "threads w i = RT_Cancel n"
  shows "n \<le> 2 \<and> (n = 2 \<longrightarrow> cancel_decide (req_state (shared w)) = Inl 1)"
proof -
  have inv: "n \<le> state_rank (req_state (shared w))" "req_state (shared w) \<le> 5"
    using req_reach_inv [OF assms(1)] assms(2)
    by (auto simp: req_inv_def Let_def dest: spec [of _ i])
  have "req_state (shared w) \<in> {0, 1, 2, 3, 4, 5}"
    using inv(2) word_le_5 by blast
  then show ?thesis
    using inv(1) by (auto simp: state_rank_def cancel_decide_def request_over_def request_states)
qed

section \<open>Witnesses\<close>

definition sample_request :: ck_request where
  "sample_request = zero_ck_request\<lparr>req_descriptor := http_descriptor [] 1 None 0 7 1 1,
     req_error := ck_error_init (req_error zero_ck_request)\<rparr>"

definition sample_error :: ck_error where
  "sample_error = (ck_error_init (req_error zero_ck_request))\<lparr>error_code := 3\<rparr>"

lemma sample_request_init:
  "ck_request_init False zero_ck_request (Some (http_descriptor [] 1 None 0 7 1 1)) = (0, sample_request)"
  by (simp add: ck_request_init_def http_descriptor_valid INT32_MAX_def INT64_MAX_def sample_request_def
      zero_ck_request_def request_states)

theorem request_metadata_roundtrip_witness:
  "\<exists>c p' r q'. ck_http_parser_feed False fresh_parser sample_post zero_request = (CK_HTTP_PARSE_COMPLETE, c, p', r)
    \<and> ck_request_init_http False zero_ck_request (parser_buffer p') r None 0 7 1 1 = (0, q')
    \<and> req_state q' = CK_REQUEST_PENDING
    \<and> read_metadata (metadata_view (req_descriptor q')) =
       Some (span_bytes (parser_buffer p') (request_method r), span_bytes (parser_buffer p') (request_target r),
         bytes_of ''HTTP/1.1'', request_connection_close_required r)"
proof -
  obtain c p' r where feed:
    "ck_http_parser_feed False fresh_parser sample_post zero_request = (CK_HTTP_PARSE_COMPLETE, c, p', r)"
    using sample_post_complete by blast
  then show ?thesis
    using request_metadata_roundtrip [of fresh_parser sample_post zero_request c p' r None 0 7 1 1 zero_ck_request]
    by (auto simp: fresh_parser_def INT32_MAX_def INT64_MAX_def)
qed

definition sample_head_buffer :: "u8 list" where "sample_head_buffer = bytes_of ''GET / HTTP/1.1''"

definition sample_http_request :: ck_http_request where
  "sample_http_request = zero_request\<lparr>request_method := mk_span 0 3, request_target := mk_span 4 1,
     request_version := mk_span 6 8\<rparr>"

theorem native_request_rejects_metadata_witness:
  "\<exists>q'. ck_request_init_http False zero_ck_request sample_head_buffer sample_http_request None 0 7 1 1 = (0, q')
    \<and> new_native_request 9 (metadata_view (req_descriptor q')) = None
    \<and> read_metadata (metadata_view (req_descriptor q')) \<noteq> None"
proof -
  have "spans_in sample_head_buffer sample_http_request"
    by (simp add: spans_in_def sample_head_buffer_def sample_http_request_def span_end_def)
  moreover obtain q' where
    "ck_request_init_http False zero_ck_request sample_head_buffer sample_http_request None 0 7 1 1 = (0, q')"
    by (rule init_http_accepts [of sample_http_request None 0 7 1 1])
      (auto simp: sample_http_request_def CK_HTTP_MAX_METHOD_BYTES_def CK_HTTP_MAX_TARGET_BYTES_def
        CK_HTTP_MAX_VERSION_BYTES_def INT64_MAX_def)
  ultimately show ?thesis using native_request_rejects_metadata by blast
qed

abbreviation (input) sample_req_world :: "u32 \<Rightarrow> ck_error \<Rightarrow> (nat \<Rightarrow> req_thread) \<Rightarrow> req_world" where
  "sample_req_world s e ts \<equiv> \<lparr>shared = sample_request\<lparr>req_state := s, req_error := e\<rparr>, threads = ts\<rparr>"

lemma sample_req_world_start:
  "req_reach (sample_req_world CK_REQUEST_PENDING (req_error sample_request) (\<lambda>_. RT_Idle))"
  using reach_init [OF sample_request_init]
  by (simp add: sample_request_def zero_ck_request_def request_states)

lemma sample_req_world_began:
  "req_reach (sample_req_world s e ts) \<Longrightarrow> s = CK_REQUEST_PENDING \<Longrightarrow> ts i = RT_Idle \<Longrightarrow>
   req_reach (sample_req_world CK_REQUEST_RUNNING e (ts(i := RT_Began 0)))"
  by (erule reach_step, rule step_begin) (simp_all add: ck_request_begin_def)

lemma req_updates: "r\<lparr>req_error := e, req_state := s\<rparr> = (r :: ck_request)\<lparr>req_state := s, req_error := e\<rparr>"
  by simp

lemma sample_req_world_failed:
  assumes "req_reach (sample_req_world CK_REQUEST_RUNNING e ts)" "ts i = RT_Idle"
  shows "req_reach (sample_req_world CK_REQUEST_FAILED sample_error (ts(i := RT_Failed sample_error 0)))"
proof -
  have "req_reach (sample_req_world CK_REQUEST_FAILING e (ts(i := RT_Publishing sample_error)))"
    using assms by (elim reach_step, intro step_fail_cas)
      (simp_all add: fail_cas_def sample_error_def ck_error_init_def)
  then have "req_reach (sample_req_world CK_REQUEST_FAILING sample_error (ts(i := RT_Written sample_error)))"
    by (rule reach_step) (use step_fail_write [of "ts(i := RT_Publishing sample_error)" i sample_error
      "sample_request\<lparr>req_state := CK_REQUEST_FAILING, req_error := e\<rparr>"] in simp)
  then show ?thesis
    by (rule reach_step) (use step_fail_store [of "ts(i := RT_Written sample_error)" i sample_error
      "sample_request\<lparr>req_state := CK_REQUEST_FAILING, req_error := sample_error\<rparr>"] in \<open>simp add: req_updates\<close>)
qed

theorem request_one_outcome_witness:
  "\<exists>w. req_reach w \<and> (\<exists>!i. owns_outcome (threads w i))
    \<and> ck_request_error (Some (shared w)) = Some sample_error"
proof -
  let ?w = "sample_req_world CK_REQUEST_FAILED sample_error
    ((\<lambda>_. RT_Idle)(0 := RT_Began 0, 1 := RT_Failed sample_error 0))"
  have "req_reach ?w"
    by (rule sample_req_world_failed, rule sample_req_world_began, rule sample_req_world_start) simp_all
  then show ?thesis
    using request_one_outcome [of ?w 0 1 sample_error] by (intro exI [of _ ?w]) (auto simp: request_over_def)
qed

lemma sample_req_world_lost:
  assumes "req_reach (sample_req_world s e ts)" "ts i = RT_Loaded n l" "cancel_decide l = Inr d" "s \<noteq> l"
  shows "req_reach (sample_req_world s e (ts(i := RT_Cancel (Suc n))))"
  using assms by (elim reach_step, intro step_lost [of ts i n l d]) simp_all

lemma sample_req_world_load:
  assumes "req_reach (sample_req_world s e ts)" "ts i = RT_Cancel n"
  shows "req_reach (sample_req_world s e (ts(i := RT_Loaded n s)))"
  using reach_step [OF assms(1) step_load [of ts i n, OF assms(2)]] by simp

text \<open>
  Thread 0 cancels and loads PENDING, thread 1 begins; it loads RUNNING, thread 2 finishes.
\<close>

lemma sample_req_world_two_losses:
  "req_reach (sample_req_world CK_REQUEST_COMPLETED (req_error sample_request)
     ((\<lambda>_. RT_Idle)(0 := RT_Cancel 2, 1 := RT_Began 0, 2 := RT_Finished 0)))"
proof -
  let ?e = "req_error sample_request" and ?i = "\<lambda>_ :: nat. RT_Idle"
  have live: "cancel_decide CK_REQUEST_PENDING = Inr CK_REQUEST_CANCELLING"
      "cancel_decide CK_REQUEST_RUNNING = Inr CK_REQUEST_CANCELLING"
      "CK_REQUEST_RUNNING \<noteq> CK_REQUEST_PENDING" "CK_REQUEST_COMPLETED \<noteq> CK_REQUEST_RUNNING"
    by (simp_all add: cancel_decide_def request_over_def request_states)
  have "req_reach (sample_req_world CK_REQUEST_PENDING ?e (?i(0 := RT_Cancel 0)))"
    using reach_step [OF sample_req_world_start step_cancel [of ?i 0]] by simp
  from sample_req_world_load [OF this, of 0 0]
  have "req_reach (sample_req_world CK_REQUEST_PENDING ?e (?i(0 := RT_Loaded 0 CK_REQUEST_PENDING)))" by simp
  from sample_req_world_began [OF this, of 1]
  have "req_reach (sample_req_world CK_REQUEST_RUNNING ?e
      (?i(0 := RT_Loaded 0 CK_REQUEST_PENDING, 1 := RT_Began 0)))" by simp
  from sample_req_world_lost [OF this, of 0 0 CK_REQUEST_PENDING CK_REQUEST_CANCELLING]
  have "req_reach (sample_req_world CK_REQUEST_RUNNING ?e (?i(0 := RT_Cancel 1, 1 := RT_Began 0)))"
    by (simp add: live fun_upd_twist)
  from sample_req_world_load [OF this, of 0 1]
  have "req_reach (sample_req_world CK_REQUEST_RUNNING ?e
      (?i(0 := RT_Loaded 1 CK_REQUEST_RUNNING, 1 := RT_Began 0)))" by (simp add: fun_upd_twist)
  from reach_step [OF this step_finish [where i = 2]]
  have "req_reach (sample_req_world CK_REQUEST_COMPLETED ?e
      (?i(0 := RT_Loaded 1 CK_REQUEST_RUNNING, 1 := RT_Began 0, 2 := RT_Finished 0)))"
    by (simp add: ck_request_finish_def)
  from sample_req_world_lost [OF this, of 0 1 CK_REQUEST_RUNNING CK_REQUEST_CANCELLING]
  show ?thesis
    by (simp add: live fun_upd_twist numeral_2_eq_2)
qed

theorem request_cancel_bounded_witness:
  "\<exists>w. req_reach w \<and> threads w 0 = RT_Cancel 2 \<and> cancel_decide (req_state (shared w)) = Inl 1"
  using sample_req_world_two_losses request_cancel_bounded [OF sample_req_world_two_losses, of 0 2]
  by (intro exI [of _ "sample_req_world CK_REQUEST_COMPLETED (req_error sample_request)
     ((\<lambda>_. RT_Idle)(0 := RT_Cancel 2, 1 := RT_Began 0, 2 := RT_Finished 0))"]) simp

end
