(* ===== verification/Ck_Runtime.thy ===== *)
theory Ck_Runtime
  imports Ck_Completion Ck_Request
begin

text \<open>
  The native runtime around the Java virtual machine, \<open>c/jni/ck_jni_runtime.[ch]\<close>: the calls into Java,
  the worker that dispatches requests, the reception of completions, and the start and stop of the
  machine.

  The virtual machine is outside: the outcome of each JNI call is an argument, with the documented
  effects on the thread's environment (a pending exception, the live local references).  A JNI
  function other than \<open>ExceptionCheck\<close> and \<open>DeleteLocalRef\<close> must not be called while an exception is
  pending; the environment records whether that happened.  Which static methods the class
  \<open>CkartaRuntime\<close> has is the argument \<open>methods\<close>, its names with their descriptors.  The pthread calls
  whose failure aborts the process are taken to succeed.
\<close>

section \<open>The environment\<close>

datatype jref = Class_ref | Metadata_ref | Body_ref

record jni_env =
  env_pending :: bool
  env_refs :: "jref list"
  env_misused :: bool

type_synonym java_methods = "(string \<times> string) list"

definition enter_jni :: "jni_env \<Rightarrow> jni_env" where
  "enter_jni env = (if env_pending env then env\<lparr>env_misused := True\<rparr> else env)"

definition jni_find_class :: "bool \<Rightarrow> jni_env \<Rightarrow> bool \<times> jni_env" where
  "jni_find_class found env =
    (let env1 = enter_jni env in
     if found then (True, env1\<lparr>env_refs := Class_ref # env_refs env1\<rparr>)
     else (False, env1\<lparr>env_pending := True\<rparr>))"

definition jni_register_natives :: "bool \<Rightarrow> jni_env \<Rightarrow> bool \<times> jni_env" where
  "jni_register_natives succeeds env =
    (let env1 = enter_jni env in
     if succeeds then (True, env1) else (False, env1\<lparr>env_pending := True\<rparr>))"

definition jni_get_static_method :: "java_methods \<Rightarrow> string \<Rightarrow> string \<Rightarrow> jni_env \<Rightarrow> bool \<times> jni_env" where
  "jni_get_static_method methods name signature env =
    (let env1 = enter_jni env in
     if (name, signature) \<in> set methods then (True, env1) else (False, env1\<lparr>env_pending := True\<rparr>))"

text \<open>\<open>NewDirectByteBuffer\<close> may also return NULL without an exception.\<close>

datatype buffer_result = Buffer_made | Buffer_null | Buffer_throws

definition jni_new_buffer :: "jref \<Rightarrow> buffer_result \<Rightarrow> jni_env \<Rightarrow> bool \<times> jni_env" where
  "jni_new_buffer r outcome env =
    (let env1 = enter_jni env in
     case outcome of
       Buffer_made \<Rightarrow> (True, env1\<lparr>env_refs := r # env_refs env1\<rparr>)
     | Buffer_null \<Rightarrow> (False, env1)
     | Buffer_throws \<Rightarrow> (False, env1\<lparr>env_pending := True\<rparr>))"

definition jni_call_static_void :: "bool \<Rightarrow> jni_env \<Rightarrow> jni_env" where
  "jni_call_static_void throws env =
    (let env1 = enter_jni env in if throws then env1\<lparr>env_pending := True\<rparr> else env1)"

definition jni_delete_ref :: "jref \<Rightarrow> jni_env \<Rightarrow> jni_env" where
  "jni_delete_ref r env = env\<lparr>env_refs := remove1 r (env_refs env)\<rparr>"

definition ck_check_java_exception :: "jni_env \<Rightarrow> int" where
  "ck_check_java_exception env = (if env_pending env then -1 else 0)"

lemmas jni_defs = jni_find_class_def jni_register_natives_def jni_get_static_method_def jni_new_buffer_def
  jni_call_static_void_def jni_delete_ref_def ck_check_java_exception_def enter_jni_def

section \<open>Calls into Java\<close>

definition ck_native_publish_completion ::
  "mutex_calls \<Rightarrow> io_fault \<Rightarrow> (int \<times> ck_completion_queue) list \<Rightarrow> ck_completion_queue
   \<Rightarrow> int \<Rightarrow> int \<Rightarrow> int \<Rightarrow> int \<Rightarrow> int \<Rightarrow> int \<Rightarrow> int \<Rightarrow> (int \<times> ck_completion_queue) option" where
  "ck_native_publish_completion m fault wakes queue queue_handle request_id owner_token lifetime_token
     cycle_id result status =
    (if queue_handle \<le> 0 \<or> request_id \<le> 0 \<or> owner_token < 0 \<or> lifetime_token < 0 \<or> cycle_id \<le> 0
     then Some (-1, queue)
     else ck_completion_queue_push_wait False m fault wakes queue
       \<lparr>completion_request_id = word_of_int request_id, completion_owner_token = word_of_int owner_token,
        completion_lifetime_token = word_of_int lifetime_token, completion_cycle_id = word_of_int cycle_id,
        completion_result = result, completion_status = status\<rparr>)"

record start_calls =
  start_class_found :: bool
  start_register_ok :: bool
  start_throws :: bool

definition ck_call_start ::
  "bool \<Rightarrow> java_methods \<Rightarrow> start_calls \<Rightarrow> int \<Rightarrow> jni_env \<Rightarrow> int \<times> jni_env" where
  "ck_call_start null_arg methods calls queue_handle env =
    (if null_arg then (-1, env)
     else if queue_handle \<le> 0 then (-1, env)
     else
       let (runtime_class, env1) = jni_find_class (start_class_found calls) env in
       if ck_check_java_exception env1 \<noteq> 0 \<or> \<not> runtime_class then (-1, env1)
       else
         let (registered, env2) = jni_register_natives (start_register_ok calls) env1 in
         if \<not> registered then (-1, jni_delete_ref Class_ref env2)
         else
           let (meth, env3) = jni_get_static_method methods ''start'' ''(J)V'' env2 in
           if ck_check_java_exception env3 \<noteq> 0 \<or> \<not> meth then (-1, jni_delete_ref Class_ref env3)
           else
             let env4 = jni_call_static_void (start_throws calls) env3 in
             if ck_check_java_exception env4 \<noteq> 0 then (-1, jni_delete_ref Class_ref env4)
             else (0, jni_delete_ref Class_ref env4))"

record stop_calls =
  stop_class_found :: bool
  stop_throws :: bool

definition ck_call_stop :: "java_methods \<Rightarrow> stop_calls \<Rightarrow> jni_env \<Rightarrow> int \<times> jni_env" where
  "ck_call_stop methods calls env =
    (let (runtime_class, env1) = jni_find_class (stop_class_found calls) env in
     if ck_check_java_exception env1 \<noteq> 0 \<or> \<not> runtime_class then (-1, env1)
     else
       let (meth, env2) = jni_get_static_method methods ''stop'' ''()V'' env1 in
       if ck_check_java_exception env2 \<noteq> 0 \<or> \<not> meth then (-1, jni_delete_ref Class_ref env2)
       else
         let env3 = jni_call_static_void (stop_throws calls) env2 in
         if ck_check_java_exception env3 \<noteq> 0 then (-1, jni_delete_ref Class_ref env3)
         else (0, jni_delete_ref Class_ref env3))"

record dispatch_calls =
  dispatch_class_found :: bool
  dispatch_metadata :: buffer_result
  dispatch_body :: buffer_result
  dispatch_throws :: bool

text \<open>The two optional deletions at the end of the dispatch.\<close>

definition delete_if :: "bool \<Rightarrow> jref \<Rightarrow> jni_env \<Rightarrow> jni_env" where
  "delete_if made r env = (if made then jni_delete_ref r env else env)"

definition ck_call_dispatch_async ::
  "java_methods \<Rightarrow> dispatch_calls \<Rightarrow> ck_request_descriptor \<Rightarrow> jni_env \<Rightarrow> int \<times> jni_env" where
  "ck_call_dispatch_async methods calls descriptor env =
    (let (runtime_class, env1) = jni_find_class (dispatch_class_found calls) env in
     if ck_check_java_exception env1 \<noteq> 0 \<or> \<not> runtime_class then (-1, env1)
     else
       let (meth, env2) = jni_get_static_method methods ''dispatchAsync'' ''(JJJLjava/nio/ByteBuffer;)V'' env1 in
       if ck_check_java_exception env2 \<noteq> 0 \<or> \<not> meth then (-1, jni_delete_ref Class_ref env2)
       else
         let (metadata, env3) =
               (if desc_metadata_length descriptor \<noteq> 0
                then jni_new_buffer Metadata_ref (dispatch_metadata calls) env2 else (False, env2)) in
         if desc_metadata_length descriptor \<noteq> 0 \<and> (ck_check_java_exception env3 \<noteq> 0 \<or> \<not> metadata)
         then (-1, jni_delete_ref Class_ref env3)
         else
           let (body, env4) =
                 (if desc_body_length descriptor \<noteq> 0
                  then jni_new_buffer Body_ref (dispatch_body calls) env3 else (False, env3)) in
           if desc_body_length descriptor \<noteq> 0 \<and> (ck_check_java_exception env4 \<noteq> 0 \<or> \<not> body)
           then (-1, jni_delete_ref Class_ref (delete_if metadata Metadata_ref env4))
           else
             let env5 = jni_call_static_void (dispatch_throws calls) env4;
                 env6 = jni_delete_ref Class_ref (delete_if metadata Metadata_ref (delete_if body Body_ref env5)) in
             (if ck_check_java_exception env5 \<noteq> 0 then -1 else 0, env6))"

section \<open>The worker\<close>

definition CK_ERROR_CATEGORY_RESOURCE :: int where "CK_ERROR_CATEGORY_RESOURCE = 3"
definition CK_ERROR_CATEGORY_APPLICATION :: int where "CK_ERROR_CATEGORY_APPLICATION = 7"
definition CK_ERROR_CATEGORY_JNI :: int where "CK_ERROR_CATEGORY_JNI = 8"
definition CK_ERROR_CATEGORY_INTERNAL :: int where "CK_ERROR_CATEGORY_INTERNAL = 9"
definition CK_ERROR_CODE_RESOURCE_EXHAUSTED :: int where "CK_ERROR_CODE_RESOURCE_EXHAUSTED = 3"
definition CK_ERROR_CODE_APPLICATION_EXCEPTION :: int where "CK_ERROR_CODE_APPLICATION_EXCEPTION = 7"
definition CK_ERROR_CODE_JNI_FAILURE :: int where "CK_ERROR_CODE_JNI_FAILURE = 8"
definition CK_ERROR_CODE_INTERNAL_INVARIANT :: int where "CK_ERROR_CODE_INTERNAL_INVARIANT = 9"
definition CK_ERROR_FLAG_CLIENT_VISIBLE :: u32 where "CK_ERROR_FLAG_CLIENT_VISIBLE = push_bit 1 1"

lemmas error_codes = CK_ERROR_CATEGORY_RESOURCE_def CK_ERROR_CATEGORY_APPLICATION_def CK_ERROR_CATEGORY_JNI_def
  CK_ERROR_CATEGORY_INTERNAL_def CK_ERROR_CODE_RESOURCE_EXHAUSTED_def CK_ERROR_CODE_APPLICATION_EXCEPTION_def
  CK_ERROR_CODE_JNI_FAILURE_def CK_ERROR_CODE_INTERNAL_INVARIANT_def CK_ERROR_FLAG_CLIENT_VISIBLE_def

text \<open>One turn of the loop: the new value of \<open>worker->result\<close> if it is set, the request and the environment.\<close>

definition worker_step ::
  "java_methods \<Rightarrow> dispatch_calls \<Rightarrow> ck_error \<Rightarrow> ck_request \<Rightarrow> jni_env \<Rightarrow> bool \<times> ck_request \<times> jni_env" where
  "worker_step methods calls local_error request env =
    (let (began, request1) = ck_request_begin False request in
     if began \<noteq> 0 then (False, request1, env)
     else
       let (dispatched, env1) = ck_call_dispatch_async methods calls (req_descriptor request1) env in
       if dispatched = 0 then (True, request1, env1)
       else
         let (set_result, error) = ck_error_set False (ck_error_init local_error) CK_ERROR_CATEGORY_JNI
               CK_ERROR_CODE_JNI_FAILURE 500 CK_ERROR_FLAG_CLIENT_VISIBLE 1
               (desc_request_id (req_descriptor request1)) in
         if set_result \<noteq> 0 then (False, request1, env1)
         else (False, snd (ck_request_fail False request1 error), env1))"

fun worker_loop ::
  "java_methods \<Rightarrow> ck_error \<Rightarrow> (nat \<Rightarrow> dispatch_calls) \<Rightarrow> nat \<Rightarrow> ck_request list \<Rightarrow> jni_env
   \<Rightarrow> bool \<times> ck_request list \<times> jni_env" where
  "worker_loop methods local_error calls i [] env = (True, [], env)"
| "worker_loop methods local_error calls i (request # requests) env =
    (let (ok, request1, env1) = worker_step methods (calls i) local_error request env;
         (oks, requests1, env2) = worker_loop methods local_error calls (Suc i) requests env1 in
     (ok \<and> oks, request1 # requests1, env2))"

text \<open>\<open>JNI_OK\<close> is 0.  The environment is that of a freshly attached thread.\<close>

definition fresh_env :: jni_env where
  "fresh_env = \<lparr>env_pending = False, env_refs = [], env_misused = False\<rparr>"

record worker_calls =
  attach_result :: int
  detach_result :: int
  worker_dispatch :: "nat \<Rightarrow> dispatch_calls"
  worker_error_storage :: ck_error

definition ck_worker_main ::
  "java_methods \<Rightarrow> worker_calls \<Rightarrow> ck_request list \<Rightarrow> int \<times> ck_request list \<times> jni_env" where
  "ck_worker_main methods calls requests =
    (if requests = [] then (-1, requests, fresh_env)
     else if attach_result calls \<noteq> 0 then (attach_result calls, requests, fresh_env)
     else
       let (ok, requests1, env) =
             worker_loop methods (worker_error_storage calls) (worker_dispatch calls) 0 requests fresh_env;
           result = (if ok then 0 else -1 :: int) in
       (if detach_result calls \<noteq> 0 \<and> result = 0 then -1 else result, requests1, env))"

section \<open>The runtime record\<close>

record ck_runtime =
  rt_vm :: bool
  rt_class_path :: "u8 list option"
  rt_bootstrap_done :: bool
  rt_bootstrap_status :: int
  rt_shutdown_requested :: bool
  rt_shutdown_status :: int
  rt_sync_initialized :: bool
  rt_thread_started :: bool
  rt_shutdown_complete :: bool
  rt_queue :: ck_completion_queue
  rt_queue_initialized :: bool

definition zero_queue :: ck_completion_queue where
  "zero_queue = \<lparr>queue_entries = replicate CK_COMPLETION_QUEUE_CAPACITY zero_record, queue_head = 0,
     queue_tail = 0, queue_count = 0,
     queue_notification = \<lparr>notification_fd = 0, notification_initialized = False, notification_counter = 0\<rparr>,
     queue_initialized = False, queue_closed = False\<rparr>"

definition zero_runtime :: ck_runtime where
  "zero_runtime = \<lparr>rt_vm = False, rt_class_path = None, rt_bootstrap_done = False, rt_bootstrap_status = 0,
     rt_shutdown_requested = False, rt_shutdown_status = 0, rt_sync_initialized = False,
     rt_thread_started = False, rt_shutdown_complete = False, rt_queue = zero_queue,
     rt_queue_initialized = False\<rparr>"

text \<open>The result of the worker is in \<open>worker.result\<close>, which nothing reads.\<close>

record smoke_calls =
  smoke_create :: int
  smoke_join :: int
  smoke_worker :: worker_calls

definition ck_runtime_dispatch_async_smoke ::
  "bool \<Rightarrow> java_methods \<Rightarrow> smoke_calls \<Rightarrow> ck_runtime \<Rightarrow> ck_request list \<Rightarrow> int \<times> ck_request list \<times> jni_env" where
  "ck_runtime_dispatch_async_smoke null_arg methods calls runtime requests =
    (if null_arg \<or> requests = [] then (-1, requests, fresh_env)
     else if \<not> rt_vm runtime \<or> rt_shutdown_requested runtime \<or> rt_shutdown_complete runtime
     then (-1, requests, fresh_env)
     else if smoke_create calls \<noteq> 0 then (smoke_create calls, requests, fresh_env)
     else
       let (worker_result, requests1, env) = ck_worker_main methods (smoke_worker calls) requests in
       (if smoke_join calls = 0 then 0 else -1, requests1, env))"

section \<open>Completions\<close>

definition completion_matches :: "ck_completion_record \<Rightarrow> ck_request \<Rightarrow> bool" where
  "completion_matches completion request \<longleftrightarrow>
     completion_request_id completion = desc_request_id (req_descriptor request)
     \<and> completion_owner_token completion = desc_owner_token (req_descriptor request)
     \<and> completion_lifetime_token completion = desc_lifetime_token (req_descriptor request)
     \<and> completion_cycle_id completion = 1"

definition completion_failure :: "int \<Rightarrow> int \<times> int \<times> int" where
  "completion_failure status =
    (if status = -2 then (CK_ERROR_CATEGORY_RESOURCE, CK_ERROR_CODE_RESOURCE_EXHAUSTED, 503)
     else if status = -1 then (CK_ERROR_CATEGORY_APPLICATION, CK_ERROR_CODE_APPLICATION_EXCEPTION, 500)
     else (CK_ERROR_CATEGORY_INTERNAL, CK_ERROR_CODE_INTERNAL_INVARIANT, 500))"

text \<open>What the body of the scan does with the request that matches.\<close>

definition apply_completion :: "ck_error \<Rightarrow> ck_completion_record \<Rightarrow> ck_request \<Rightarrow> int \<times> ck_request" where
  "apply_completion local_error completion request =
    (if completion_status completion = 0 then
       let (result, request1) = ck_request_finish False request in
       (if result = 0 then 1 else if result = 1 then 2 else -1, request1)
     else
       let (category, code, http_status) = completion_failure (completion_status completion);
           (set_result, error) = ck_error_set False (ck_error_init local_error) category code http_status
             CK_ERROR_FLAG_CLIENT_VISIBLE 2 (desc_request_id (req_descriptor request)) in
       if set_result \<noteq> 0 then (-1, request)
       else
         let (result, request1) = ck_request_fail False request error in
         (if result = 0 then -2 else if result = 1 then 2 else -1, request1))"

fun completion_scan ::
  "ck_error \<Rightarrow> ck_completion_record \<Rightarrow> ck_request list \<Rightarrow> int \<times> ck_request list" where
  "completion_scan local_error completion [] = (-3, [])"
| "completion_scan local_error completion (request # requests) =
    (if completion_matches completion request then
       let (result, request1) = apply_completion local_error completion request in (result, request1 # requests)
     else let (result, requests1) = completion_scan local_error completion requests in (result, request # requests1))"

text \<open>
  \<open>uninitialized\<close> is what the local \<open>completion\<close> holds when the queue returned a positive value without
  storing a record.
\<close>

record poll_calls =
  poll_mutex :: mutex_calls
  poll_signal :: int
  poll_uninitialized :: ck_completion_record
  poll_error_storage :: ck_error

definition ck_runtime_poll_completion ::
  "bool \<Rightarrow> poll_calls \<Rightarrow> ck_runtime \<Rightarrow> ck_request list \<Rightarrow> int \<times> ck_runtime \<times> ck_request list" where
  "ck_runtime_poll_completion null_arg calls runtime requests =
    (if null_arg \<or> requests = [] \<or> \<not> rt_queue_initialized runtime then (-1, runtime, requests)
     else
       let (result, stored, queue1) = ck_completion_queue_pop False (poll_mutex calls) (poll_signal calls) (rt_queue runtime);
           runtime1 = runtime\<lparr>rt_queue := queue1\<rparr> in
       if result \<le> 0 then (result, runtime1, requests)
       else
         let completion = (case stored of Some c \<Rightarrow> c | None \<Rightarrow> poll_uninitialized calls);
             (result1, requests1) = completion_scan (poll_error_storage calls) completion requests in
         (result1, runtime1, requests1))"

definition ck_runtime_drain_completion_notification ::
  "bool \<Rightarrow> io_fault list \<Rightarrow> ck_runtime \<Rightarrow> int \<times> ck_runtime" where
  "ck_runtime_drain_completion_notification null_arg faults runtime =
    (if null_arg \<or> \<not> rt_queue_initialized runtime then (-1, runtime)
     else
       let (result, queue1) = ck_completion_queue_drain_notification False faults (rt_queue runtime) in
       (result, runtime\<lparr>rt_queue := queue1\<rparr>))"

definition ck_runtime_completion_fd :: "ck_runtime option \<Rightarrow> int" where
  "ck_runtime_completion_fd runtime =
    (case runtime of
       None \<Rightarrow> -1
     | Some r \<Rightarrow> if \<not> rt_queue_initialized r then -1 else ck_completion_queue_notify_fd (Some (rt_queue r)))"

section \<open>Start and stop\<close>

definition JNI_EINVAL :: int where "JNI_EINVAL = -6"
definition JVM_OPTION_SIZE :: nat where "JVM_OPTION_SIZE = 4096"

text \<open>
  The bootstrap thread up to the broadcast that ends the wait of \<open>ck_runtime_init\<close>: the runtime, and
  the local \<open>start_status\<close> if the thread goes on with a virtual machine.
\<close>

record boot_calls =
  boot_create_vm :: int
  boot_methods :: java_methods
  boot_start :: start_calls
  boot_queue_handle :: int
  boot_close_mutex :: mutex_calls
  boot_close_broadcast :: int
  boot_close_fault :: io_fault
  boot_stop :: stop_calls
  boot_destroy_vm :: int

definition bootstrap_begin :: "boot_calls \<Rightarrow> ck_runtime \<Rightarrow> ck_runtime \<times> (int \<times> jni_env) option" where
  "bootstrap_begin calls runtime =
    (if length (bytes_of ''-Djava.class.path='') + length (the (rt_class_path runtime)) \<ge> JVM_OPTION_SIZE
     then (runtime\<lparr>rt_bootstrap_status := JNI_EINVAL, rt_bootstrap_done := True\<rparr>, None)
     else if boot_create_vm calls \<noteq> 0
     then (runtime\<lparr>rt_bootstrap_status := boot_create_vm calls, rt_bootstrap_done := True\<rparr>, None)
     else
       let (start_status, env) = ck_call_start False (boot_methods calls) (boot_start calls)
             (boot_queue_handle calls) fresh_env in
       (runtime\<lparr>rt_vm := True, rt_bootstrap_status := start_status, rt_bootstrap_done := True\<rparr>,
        Some (start_status, env)))"

text \<open>The rest of the thread, after the wait for \<open>shutdown_requested\<close>, which a failed start skips.\<close>

definition bootstrap_end :: "boot_calls \<Rightarrow> int \<Rightarrow> jni_env \<Rightarrow> ck_runtime \<Rightarrow> ck_runtime" where
  "bootstrap_end calls start_status env runtime =
    (let runtime2 =
           (if start_status = 0 then
              let (result, queue1) = ck_completion_queue_close False (boot_close_mutex calls)
                    (boot_close_broadcast calls) (boot_close_fault calls) (rt_queue runtime);
                  runtime1 = (if result \<noteq> 0 \<and> result \<noteq> 1
                    then runtime\<lparr>rt_queue := queue1, rt_shutdown_status := result\<rparr>
                    else runtime\<lparr>rt_queue := queue1\<rparr>);
                  (stop_status, _) = ck_call_stop (boot_methods calls) (boot_stop calls) env in
              if stop_status \<noteq> 0 \<and> rt_shutdown_status runtime1 = 0
              then runtime1\<lparr>rt_shutdown_status := -1\<rparr> else runtime1
            else runtime\<lparr>rt_shutdown_status := start_status\<rparr>) in
     if boot_destroy_vm calls \<noteq> 0 \<and> rt_shutdown_status runtime2 = 0
     then runtime2\<lparr>rt_shutdown_status := boot_destroy_vm calls\<rparr> else runtime2)"

record init_calls =
  init_queue_mutex :: int
  init_queue_cond :: int
  init_queue_fd :: "int + int"
  init_mutex :: int
  init_cond :: int
  init_create :: int
  init_join :: int
  init_destroy_mutex :: mutex_calls
  init_destroy_broadcast :: int
  init_destroy_fault :: io_fault
  init_boot :: boot_calls

text \<open>
  Before the thread exists the two synchronisation objects are undone in reverse order; the wait for
  \<open>bootstrap_done\<close> ends with the first part of the thread.  The result also has what the running
  thread holds.
\<close>

definition ck_runtime_init ::
  "bool \<Rightarrow> init_calls \<Rightarrow> ck_runtime \<Rightarrow> u8 list \<Rightarrow> int \<times> ck_runtime \<times> (int \<times> jni_env) option" where
  "ck_runtime_init null_arg calls runtime class_path =
    (if null_arg \<or> class_path = [] then (-1, runtime, None)
     else
       let runtime0 = zero_runtime\<lparr>rt_class_path := Some class_path\<rparr>;
           (result, queue0) = ck_completion_queue_init False (init_queue_mutex calls) (init_queue_cond calls)
             (init_queue_fd calls) (rt_queue runtime0);
           destroyed = (\<lambda>q. ck_completion_queue_destroy (init_destroy_mutex calls) (init_destroy_broadcast calls)
             (init_destroy_fault calls) q) in
       if result \<noteq> 0 then (result, runtime0\<lparr>rt_queue := queue0\<rparr>, None)
       else if init_mutex calls \<noteq> 0
       then (init_mutex calls, runtime0\<lparr>rt_queue := destroyed queue0\<rparr>, None)
       else if init_cond calls \<noteq> 0
       then (init_cond calls, runtime0\<lparr>rt_queue := destroyed queue0\<rparr>, None)
       else if init_create calls \<noteq> 0
       then (init_create calls, runtime0\<lparr>rt_queue := destroyed queue0\<rparr>, None)
       else
         let runtime1 = runtime0\<lparr>rt_queue := queue0, rt_queue_initialized := True, rt_sync_initialized := True,
               rt_thread_started := True\<rparr>;
             (runtime2, thread) = bootstrap_begin (init_boot calls) runtime1 in
         if rt_bootstrap_status runtime2 \<noteq> 0 then
           let runtime3 = (case thread of None \<Rightarrow> runtime2
                           | Some (start_status, env) \<Rightarrow> bootstrap_end (init_boot calls) start_status env runtime2) in
           if init_join calls \<noteq> 0 then (-1, runtime3, None) else (-1, zero_runtime, None)
         else (0, runtime2, thread))"

record shutdown_calls =
  shutdown_lock :: int
  shutdown_close_mutex :: mutex_calls
  shutdown_close_broadcast :: int
  shutdown_close_fault :: io_fault
  shutdown_broadcast :: int
  shutdown_unlock :: int
  shutdown_join :: int
  shutdown_lock_again :: int

text \<open>\<open>thread\<close> is what the waiting bootstrap thread holds; it runs to its end before the join returns.\<close>

definition ck_runtime_shutdown ::
  "bool \<Rightarrow> shutdown_calls \<Rightarrow> boot_calls \<Rightarrow> int \<times> jni_env \<Rightarrow> ck_runtime \<Rightarrow> int \<times> ck_runtime" where
  "ck_runtime_shutdown null_arg calls boot thread runtime =
    (if null_arg \<or> \<not> rt_sync_initialized runtime \<or> \<not> rt_thread_started runtime then (-1, runtime)
     else if shutdown_lock calls \<noteq> 0 then (shutdown_lock calls, runtime)
     else if rt_shutdown_complete runtime then (rt_shutdown_status runtime, runtime)
     else
       let runtime1 = runtime\<lparr>rt_shutdown_requested := True\<rparr>;
           (closed, queue1) = ck_completion_queue_close False (shutdown_close_mutex calls)
             (shutdown_close_broadcast calls) (shutdown_close_fault calls) (rt_queue runtime1);
           runtime2 = runtime1\<lparr>rt_queue := queue1\<rparr> in
       if closed \<noteq> 0 \<and> closed \<noteq> 1 then (closed, runtime2)
       else if shutdown_broadcast calls \<noteq> 0 then (shutdown_broadcast calls, runtime2)
       else if shutdown_unlock calls \<noteq> 0 then (shutdown_unlock calls, runtime2)
       else
         let runtime3 = bootstrap_end boot (fst thread) (snd thread) runtime2 in
         if shutdown_join calls \<noteq> 0 then (shutdown_join calls, runtime3)
         else if shutdown_lock_again calls \<noteq> 0 then (shutdown_lock_again calls, runtime3)
         else (rt_shutdown_status runtime3, runtime3\<lparr>rt_shutdown_complete := True\<rparr>))"

definition ck_runtime_destroy :: "bool \<Rightarrow> ck_runtime \<Rightarrow> ck_runtime" where
  "ck_runtime_destroy null_arg runtime =
    (if null_arg \<or> \<not> rt_sync_initialized runtime \<or> \<not> rt_shutdown_complete runtime then runtime
     else zero_runtime)"

section \<open>The calls into Java\<close>

lemma remove1_hd [simp]: "remove1 x (x # xs) = xs"
  by simp

lemma delete_if_simps [simp]:
  "env_pending (delete_if b r env) = env_pending env" "env_misused (delete_if b r env) = env_misused env"
  "env_refs (delete_if b r env) = (if b then remove1 r (env_refs env) else env_refs env)"
  by (simp_all add: delete_if_def jni_delete_ref_def)

definition env_clean :: "jni_env \<Rightarrow> int \<times> jni_env \<Rightarrow> bool" where
  "env_clean env out \<longleftrightarrow> env_refs (snd out) = env_refs env \<and> env_misused (snd out) = env_misused env
     \<and> (fst out = 0 \<longrightarrow> \<not> env_pending (snd out)) \<and> (fst out = 0 \<or> fst out = -1)"

lemma start_clean: "\<not> env_pending env \<Longrightarrow> env_clean env (ck_call_start n methods c h env)"
  by (simp add: ck_call_start_def env_clean_def jni_defs Let_def)

lemma stop_clean: "\<not> env_pending env \<Longrightarrow> env_clean env (ck_call_stop methods c env)"
  by (simp add: ck_call_stop_def env_clean_def jni_defs Let_def)

lemma dispatch_clean: "\<not> env_pending env \<Longrightarrow> env_clean env (ck_call_dispatch_async methods c d env)"
  by (cases "dispatch_metadata c"; cases "dispatch_body c")
    (simp_all add: ck_call_dispatch_async_def env_clean_def jni_defs Let_def)


text \<open>The static methods of \<open>CkartaRuntime\<close> in the repository.\<close>

definition CkartaRuntime_methods :: java_methods where
  "CkartaRuntime_methods = [(''start'', ''(J)V''), (''stop'', ''()V''),
     (''dispatchAsync'', ''(JJJLjava/nio/ByteBuffer;Ljava/nio/ByteBuffer;)V''),
     (''publishCompletion'', ''(JJJJJJI)I''), (''matchesAscii'', ''(Ljava/nio/ByteBuffer;Ljava/lang/String;)Z'')]"


lemma dispatch_not_found:
  "fst (ck_call_dispatch_async CkartaRuntime_methods c d env) = -1
   \<and> env_pending (snd (ck_call_dispatch_async CkartaRuntime_methods c d env))
   \<and> env_misused (snd (ck_call_dispatch_async CkartaRuntime_methods c d env)) = (env_misused env \<or> env_pending env)"
  by (simp add: ck_call_dispatch_async_def jni_defs Let_def CkartaRuntime_methods_def)

definition jni_failure :: "ck_request \<Rightarrow> ck_error" where
  "jni_failure r = \<lparr>error_abi_version = CK_ERROR_ABI_VERSION, error_category = 8, error_code = 8,
     error_http_status = 500, error_flags = CK_ERROR_FLAG_CLIENT_VISIBLE, error_phase = 1,
     error_request_id = desc_request_id (req_descriptor r)\<rparr>"

lemma jni_failure_set:
  "ck_error_set False e CK_ERROR_CATEGORY_JNI CK_ERROR_CODE_JNI_FAILURE 500 CK_ERROR_FLAG_CLIENT_VISIBLE 1
     (desc_request_id (req_descriptor r)) = (0, jni_failure r)"
  by (simp add: ck_error_set_def ck_error_category_valid_def ck_error_code_valid_def error_codes
      CK_ERROR_FLAG_MASK_def jni_failure_def push_bit_eq_mult)

lemma worker_step_not_found:
  assumes "req_state r = CK_REQUEST_PENDING"
  shows "worker_step CkartaRuntime_methods c le r env
    = (False, r\<lparr>req_state := CK_REQUEST_FAILED, req_error := jni_failure r\<rparr>,
       snd (ck_call_dispatch_async CkartaRuntime_methods c (req_descriptor r) env))"
proof -
  have "jni_failure (r\<lparr>req_state := s\<rparr>) = jni_failure r" for s by (simp add: jni_failure_def)
  then show ?thesis
    using assms dispatch_not_found [of c "req_descriptor r" env]
    by (simp add: worker_step_def ck_request_begin_def jni_failure_set case_prod_beta Let_def
        ck_request_fail_def fail_cas_def jni_failure_def)
qed

lemma worker_loop_not_found:
  "list_all (\<lambda>r. req_state r = CK_REQUEST_PENDING) rs \<Longrightarrow>
   worker_loop CkartaRuntime_methods le calls i rs env = (oks, rs', env') \<Longrightarrow>
   rs' = map (\<lambda>r. r\<lparr>req_state := CK_REQUEST_FAILED, req_error := jni_failure r\<rparr>) rs
   \<and> (oks \<longleftrightarrow> rs = []) \<and> (env_pending env' \<longleftrightarrow> rs \<noteq> [] \<or> env_pending env)
   \<and> (env_misused env' \<longleftrightarrow> env_misused env \<or> rs \<noteq> [] \<and> env_pending env \<or> 2 \<le> length rs)"
proof (induction rs arbitrary: i env oks rs')
  case (Cons r rs)
  let ?env1 = "snd (ck_call_dispatch_async CkartaRuntime_methods (calls i) (req_descriptor r) env)"
  obtain oks1 rs1 where rest: "worker_loop CkartaRuntime_methods le calls (Suc i) rs ?env1 = (oks1, rs1, env')"
    and out: "oks = False" "rs' = r\<lparr>req_state := CK_REQUEST_FAILED, req_error := jni_failure r\<rparr> # rs1"
    using Cons.prems worker_step_not_found [of r "calls i" le env] by (auto split: prod.splits)
  have "list_all (\<lambda>r. req_state r = CK_REQUEST_PENDING) rs" using Cons.prems(1) by simp
  from Cons.IH [OF this rest] out dispatch_not_found [of "calls i" "req_descriptor r" env]
  show ?case by (cases rs) auto
qed simp

text \<open>
  Dispatching to the repository's own class cannot work and is reported as success: the worker
  looks up \<open>dispatchAsync\<close> with one buffer in its descriptor, the class declares it with two, so every
  pending request of the batch ends FAILED with a JNI error, yet \<open>ck_runtime_dispatch_async_smoke\<close>
  returns 0; from the second request on JNI is entered with an exception pending.
\<close>

theorem dispatch_smoke_hides_failure:
  assumes "rt_vm rt" "\<not> rt_shutdown_requested rt" "\<not> rt_shutdown_complete rt"
    and "requests \<noteq> []" "list_all (\<lambda>r. req_state r = CK_REQUEST_PENDING) requests"
    and "smoke_create calls = 0" "smoke_join calls = 0" "attach_result (smoke_worker calls) = 0"
    and "ck_runtime_dispatch_async_smoke False CkartaRuntime_methods calls rt requests = (result, requests', env)"
  shows "result = 0
    \<and> list_all (\<lambda>r. req_state r = CK_REQUEST_FAILED \<and> error_code (req_error r) = 8) requests'
    \<and> length requests' = length requests \<and> (env_misused env \<longleftrightarrow> 2 \<le> length requests)"
proof -
  obtain oks where loop: "worker_loop CkartaRuntime_methods (worker_error_storage (smoke_worker calls))
      (worker_dispatch (smoke_worker calls)) 0 requests fresh_env = (oks, requests', env)" "result = 0"
    using assms by (auto simp: ck_runtime_dispatch_async_smoke_def ck_worker_main_def Let_def split: prod.splits)
  from worker_loop_not_found [OF assms(5) loop(1)] loop(2) show ?thesis
    by (auto simp: fresh_env_def list_all_iff jni_failure_def)
qed

section \<open>The completion loop\<close>

text \<open>
  The loop of \<open>main\<close> over \<open>ck_runtime_poll_completion\<close> after a wake-up, with its count of finished
  requests.  \<open>fuel\<close> bounds the turns; the queue holds at most 64 records, so 65 are enough.
\<close>

fun poll_loop ::
  "nat \<Rightarrow> poll_calls \<Rightarrow> ck_runtime \<Rightarrow> ck_request list \<Rightarrow> nat \<Rightarrow> (int \<times> ck_runtime \<times> ck_request list \<times> nat) option" where
  "poll_loop 0 calls runtime requests completed = None"
| "poll_loop (Suc fuel) calls runtime requests completed =
    (let (result, runtime1, requests1) = ck_runtime_poll_completion False calls runtime requests in
     if result > 0
     then poll_loop fuel calls runtime1 requests1 (if result = 1 then completed + 1 else completed)
     else Some (result, runtime1, requests1, completed))"

definition request_key :: "ck_request \<Rightarrow> u64 \<times> u64 \<times> u64" where
  "request_key r = (desc_request_id (req_descriptor r), desc_owner_token (req_descriptor r),
     desc_lifetime_token (req_descriptor r))"

definition completion_key :: "ck_completion_record \<Rightarrow> u64 \<times> u64 \<times> u64" where
  "completion_key c = (completion_request_id c, completion_owner_token c, completion_lifetime_token c)"

text \<open>Finishing the requests that a set of keys names.\<close>

definition finish_keys :: "(u64 \<times> u64 \<times> u64) set \<Rightarrow> ck_request list \<Rightarrow> ck_request list" where
  "finish_keys K rs = map (\<lambda>r. if request_key r \<in> K then r\<lparr>req_state := CK_REQUEST_COMPLETED\<rparr> else r) rs"

lemma matches_key: "completion_matches c r \<longleftrightarrow> completion_key c = request_key r \<and> completion_cycle_id c = 1"
  by (auto simp: completion_matches_def completion_key_def request_key_def)

lemma scan_finishes:
  assumes "completion_cycle_id c = 1" "completion_status c = 0" "distinct (map request_key rs)"
    and "\<exists>r \<in> set rs. request_key r = completion_key c \<and> req_state r = CK_REQUEST_RUNNING"
  shows "completion_scan le c rs = (1, finish_keys {completion_key c} rs)"
  using assms(3,4)
proof (induction rs)
  case (Cons r rs)
  show ?case
  proof (cases "completion_matches c r")
    case True
    then have key: "request_key r = completion_key c" by (simp add: matches_key)
    with Cons.prems have "req_state r = CK_REQUEST_RUNNING" and "request_key ` set rs \<inter> {completion_key c} = {}"
      by (auto simp: rev_image_eqI)
    moreover from this(2) have "finish_keys {completion_key c} rs = rs"
      by (auto simp: finish_keys_def image_iff intro!: map_idI)
    ultimately show ?thesis
      using True key assms(2)
      by (simp add: apply_completion_def ck_request_finish_def finish_keys_def)
  next
    case False
    with Cons.prems assms(1) have "request_key r \<noteq> completion_key c" by (auto simp: matches_key)
    with Cons False show ?thesis by (auto simp: finish_keys_def)
  qed
qed simp

definition quiet_poll :: "ck_completion_record \<Rightarrow> ck_error \<Rightarrow> poll_calls" where
  "quiet_poll u e = \<lparr>poll_mutex = quiet_mutex, poll_signal = 0, poll_uninitialized = u, poll_error_storage = e\<rparr>"

lemma finish_keys_simps [simp]:
  "map request_key (finish_keys K rs) = map request_key rs"
  "length (finish_keys K rs) = length rs" "finish_keys {} rs = rs"
  by (induction rs) (auto simp: finish_keys_def request_key_def)

lemma finish_keys_insert: "finish_keys K (finish_keys L rs) = finish_keys (L \<union> K) rs"
  by (auto simp: finish_keys_def request_key_def)

lemma finish_keys_running:
  assumes "r \<in> set rs" "request_key r \<notin> K"
  shows "r \<in> set (finish_keys K rs)"
  using assms by (force simp: finish_keys_def)

lemma poll_pop:
  assumes "rt_queue_initialized rt" "rs \<noteq> []" "queue_wf (rt_queue rt)"
  obtains (empty) "queue_records (rt_queue rt) = []"
      "ck_runtime_poll_completion False (quiet_poll u e) rt rs = (0, rt, rs)"
  | (record_taken) c q where "queue_records (rt_queue rt) = c # queue_records q" "queue_wf q"
      "ck_runtime_poll_completion False (quiet_poll u e) rt rs
        = (let (res, rs1) = completion_scan e c rs in (res, rt\<lparr>rt_queue := q\<rparr>, rs1))"
proof -
  obtain r out q where pop: "ck_completion_queue_pop False quiet_mutex 0 (rt_queue rt) = (r, out, q)"
    using prod_cases3 by blast
  note cases = pop_cases [OF assms(3) pop]
  show ?thesis
  proof (cases out)
    case None
    with cases have "r = 0" "queue_records (rt_queue rt) = []" by auto
    moreover from this have "q = rt_queue rt"
      using pop assms(3) by (simp add: queue_records_empty ck_completion_queue_pop_def queue_wf_def)
    ultimately show ?thesis
      using pop assms by (intro empty) (simp_all add: ck_runtime_poll_completion_def quiet_poll_def)
  next
    case (Some c)
    with cases have "r = 1" "queue_records (rt_queue rt) = c # queue_records q" "queue_wf q" by auto
    then show ?thesis
      using pop assms Some
      by (intro record_taken [of c q]) (simp_all add: ck_runtime_poll_completion_def quiet_poll_def Let_def)
  qed
qed

text \<open>
  If the queue holds any sequence of success records for distinct running requests, in any order,
  the loop ends by itself with 0, has counted every record, has completed exactly those requests
  and left the others alone, and has emptied the queue.
\<close>

lemma poll_loop_finishes:
  assumes "rt_queue_initialized rt" "queue_wf (rt_queue rt)" "requests \<noteq> []"
    and "distinct (map request_key requests)" "distinct (map completion_key (queue_records (rt_queue rt)))"
    and "\<forall>c \<in> set (queue_records (rt_queue rt)). completion_cycle_id c = 1 \<and> completion_status c = 0
      \<and> (\<exists>r \<in> set requests. request_key r = completion_key c \<and> req_state r = CK_REQUEST_RUNNING)"
    and "length (queue_records (rt_queue rt)) < fuel"
  shows "\<exists>rt'. poll_loop fuel (quiet_poll u e) rt requests n
      = Some (0, rt', finish_keys (completion_key ` set (queue_records (rt_queue rt))) requests,
          n + length (queue_records (rt_queue rt)))
    \<and> queue_records (rt_queue rt') = []"
  using assms
proof (induction fuel arbitrary: rt requests n)
  case (Suc fuel)
  show ?case
  proof (rule poll_pop [OF Suc.prems(1,3,2), of u e])
    assume "queue_records (rt_queue rt) = []"
      "ck_runtime_poll_completion False (quiet_poll u e) rt requests = (0, rt, requests)"
    then show ?thesis by simp
  next
    fix c q
    let ?rt = "rt\<lparr>rt_queue := q\<rparr>" and ?rs = "finish_keys {completion_key c} requests"
    assume q: "queue_records (rt_queue rt) = c # queue_records q" "queue_wf q"
      and step: "ck_runtime_poll_completion False (quiet_poll u e) rt requests
        = (let (res, rs1) = completion_scan e c requests in (res, ?rt, rs1))"
    have "completion_scan e c requests = (1, ?rs)"
      using Suc.prems(4,6) q(1) by (intro scan_finishes) auto
    then have loop: "poll_loop (Suc fuel) (quiet_poll u e) rt requests n = poll_loop fuel (quiet_poll u e) ?rt ?rs (n + 1)"
      using step by simp
    have "?rs \<noteq> []" using Suc.prems(3) by (simp add: finish_keys_def)
    moreover have "\<exists>r \<in> set ?rs. request_key r = completion_key d \<and> req_state r = CK_REQUEST_RUNNING"
      if "d \<in> set (queue_records q)" for d
    proof -
      from that Suc.prems(5) q(1) have "completion_key d \<noteq> completion_key c" by (auto simp: rev_image_eqI)
      with that Suc.prems(6) q(1) show ?thesis by (fastforce intro: finish_keys_running)
    qed
    ultimately obtain rt' where "poll_loop fuel (quiet_poll u e) ?rt ?rs (n + 1)
        = Some (0, rt', finish_keys (completion_key ` set (queue_records q)) ?rs, n + 1 + length (queue_records q))"
      and "queue_records (rt_queue rt') = []"
      using Suc.IH [of ?rt ?rs "n + 1"] Suc.prems q by auto
    then show ?thesis using loop q(1) by (simp add: finish_keys_insert insert_is_Un [symmetric])
  qed
qed simp

section \<open>Start and stop once\<close>

definition quiet_shutdown :: shutdown_calls where
  "quiet_shutdown = \<lparr>shutdown_lock = 0, shutdown_close_mutex = quiet_mutex, shutdown_close_broadcast = 0,
     shutdown_close_fault = No_fault, shutdown_broadcast = 0, shutdown_unlock = 0, shutdown_join = 0,
     shutdown_lock_again = 0\<rparr>"

lemma init_runtime:
  assumes "ck_runtime_init False calls rt0 path = (0, rt, thread)" "init_queue_fd calls = Inr fd"
  shows "rt_vm rt" "rt_sync_initialized rt" "rt_thread_started rt" "\<not> rt_shutdown_complete rt"
    "rt_shutdown_status rt = 0" "queue_wf (rt_queue rt)" "\<not> queue_closed (rt_queue rt)"
    "\<exists>env. thread = Some (0, env) \<and> \<not> env_pending env"
proof -
  obtain queue0 where queue: "ck_completion_queue_init False (init_queue_mutex calls) (init_queue_cond calls)
      (Inr fd) zero_queue = (0, queue0)"
    and boot: "bootstrap_begin (init_boot calls) (zero_runtime\<lparr>rt_class_path := Some path, rt_queue := queue0,
        rt_queue_initialized := True, rt_sync_initialized := True, rt_thread_started := True\<rparr>) = (rt, thread)"
      "rt_bootstrap_status rt = 0"
    using assms
    by (auto simp: ck_runtime_init_def Let_def zero_runtime_def split: if_splits prod.splits option.splits)
  obtain env where start: "ck_call_start False (boot_methods (init_boot calls)) (boot_start (init_boot calls))
      (boot_queue_handle (init_boot calls)) fresh_env = (0, env)" "thread = Some (0, env)"
    "rt = zero_runtime\<lparr>rt_class_path := Some path, rt_queue := queue0, rt_queue_initialized := True,
      rt_sync_initialized := True, rt_thread_started := True, rt_vm := True, rt_bootstrap_status := 0,
      rt_bootstrap_done := True\<rparr>"
    using boot by (auto simp: bootstrap_begin_def Let_def JNI_EINVAL_def split: if_splits prod.splits)
  show "rt_vm rt" "rt_sync_initialized rt" "rt_thread_started rt" "\<not> rt_shutdown_complete rt"
    "rt_shutdown_status rt = 0"
    unfolding start(3) by (simp_all add: zero_runtime_def)
  show "queue_wf (rt_queue rt)" "\<not> queue_closed (rt_queue rt)"
    using queue_init_wf [OF queue] unfolding start(3) by simp_all
  show "\<exists>env. thread = Some (0, env) \<and> \<not> env_pending env"
    using start start_clean [of fresh_env False "boot_methods (init_boot calls)" "boot_start (init_boot calls)"
        "boot_queue_handle (init_boot calls)"]
    by (auto simp: env_clean_def fresh_env_def)
qed

lemma quiet_close:
  assumes "queue_wf q" "\<not> queue_closed q"
  obtains q' where "ck_completion_queue_close False quiet_mutex 0 No_fault q = (0, q')" "queue_wf q'" "queue_closed q'"
proof -
  obtain r n where n: "ck_completion_notification_signal False No_fault (queue_notification q) = (r, n)"
    by (cases "ck_completion_notification_signal False No_fault (queue_notification q)")
  then have "r = 0"
    using assms(1) by (auto simp: ck_completion_notification_signal_def eventfd_write_def queue_wf_def split: if_splits)
  moreover obtain q' where "ck_completion_queue_close False quiet_mutex 0 No_fault q = (r, q')" "queue_closed q'"
    using assms n \<open>r = 0\<close> by (auto simp: ck_completion_queue_close_def queue_wf_def Let_def)
  ultimately show ?thesis using close_cases [OF assms(1)] that by blast
qed

lemma close_again:
  assumes "queue_wf q" "queue_closed q"
  shows "fst (ck_completion_queue_close False m bc f q) = (if lock_result m \<noteq> 0 then lock_result m else 1)
    \<and> snd (ck_completion_queue_close False m bc f q) = q"
  using assms by (simp add: ck_completion_queue_close_def queue_wf_def)

text \<open>
  C31. The virtual machine is stopped once: after a successful start, the first shutdown closes the
  completion queue, so that later completions are refused, stops Java and destroys the machine, and
  returns 0 exactly if both succeeded; every further shutdown returns the same status and changes
  nothing, and only then does destroy clear the runtime.
\<close>

theorem runtime_shutdown_once:
  assumes "ck_runtime_init False calls rt0 path = (0, rt, Some thread)" "init_queue_fd calls = Inr fd"
    and "boot_methods boot = CkartaRuntime_methods" "lock_result (boot_close_mutex boot) = 0"
    and "ck_runtime_shutdown False quiet_shutdown boot thread rt = (status, rt1)"
  shows "(status = 0 \<longleftrightarrow> stop_class_found (boot_stop boot) \<and> \<not> stop_throws (boot_stop boot) \<and> boot_destroy_vm boot = 0)
    \<and> fst (ck_completion_queue_push False quiet_mutex fault (rt_queue rt1) completion) = 2
    \<and> ck_runtime_shutdown False quiet_shutdown boot2 thread2 rt1 = (status, rt1)
    \<and> ck_runtime_destroy False rt = rt \<and> ck_runtime_destroy False rt1 = zero_runtime"
proof -
  note init = init_runtime [OF assms(1,2)]
  obtain env where thread: "thread = (0, env)" "\<not> env_pending env" using init(8) by auto
  obtain q where q: "ck_completion_queue_close False quiet_mutex 0 No_fault (rt_queue rt) = (0, q)"
      "queue_wf q" "queue_closed q"
    using quiet_close [OF init(6,7)] .
  let ?rt2 = "rt\<lparr>rt_shutdown_requested := True, rt_queue := q\<rparr>"
  let ?final = "bootstrap_end boot 0 env ?rt2"
  have stop: "fst (ck_call_stop CkartaRuntime_methods (boot_stop boot) env)
      = (if stop_class_found (boot_stop boot) \<and> \<not> stop_throws (boot_stop boot) then 0 else -1)"
    using thread(2) by (simp add: ck_call_stop_def jni_defs CkartaRuntime_methods_def)
  have close: "ck_completion_queue_close False (boot_close_mutex boot) (boot_close_broadcast boot)
      (boot_close_fault boot) q = (1, q)"
    using close_again [OF q(2,3), of "boot_close_mutex boot" "boot_close_broadcast boot" "boot_close_fault boot"]
      assms(4) by (simp add: prod_eq_iff)
  have ended: "rt_queue ?final = q" "rt_sync_initialized ?final" "rt_thread_started ?final"
      "rt_shutdown_status ?final = 0 \<longleftrightarrow> stop_class_found (boot_stop boot) \<and> \<not> stop_throws (boot_stop boot)
        \<and> boot_destroy_vm boot = 0"
    using init close stop assms(3) by (simp_all add: bootstrap_end_def Let_def case_prod_beta)
  have down: "status = rt_shutdown_status ?final" "rt1 = ?final\<lparr>rt_shutdown_complete := True\<rparr>"
    using assms(5) init q(1) thread(1) by (auto simp: ck_runtime_shutdown_def quiet_shutdown_def Let_def)
  have "queue_initialized q" using q(2) by (simp add: queue_wf_def)
  with ended q(3) init(2,4) down show ?thesis
    by (simp add: ck_completion_queue_push_def ck_runtime_shutdown_def quiet_shutdown_def ck_runtime_destroy_def)
qed

section \<open>Witnesses\<close>

definition good_dispatch :: dispatch_calls where
  "good_dispatch = \<lparr>dispatch_class_found = True, dispatch_metadata = Buffer_made, dispatch_body = Buffer_made,
     dispatch_throws = False\<rparr>"

definition good_smoke :: smoke_calls where
  "good_smoke = \<lparr>smoke_create = 0, smoke_join = 0, smoke_worker = \<lparr>attach_result = 0, detach_result = 0,
     worker_dispatch = (\<lambda>_. good_dispatch), worker_error_storage = sample_error\<rparr>\<rparr>"

definition running_runtime :: ck_runtime where
  "running_runtime = zero_runtime\<lparr>rt_vm := True, rt_queue := sample_queue, rt_queue_initialized := True\<rparr>"

theorem dispatch_smoke_hides_failure_witness:
  "\<exists>rs env. ck_runtime_dispatch_async_smoke False CkartaRuntime_methods good_smoke running_runtime
      [sample_request, sample_request] = (0, rs, env)
    \<and> list_all (\<lambda>r. req_state r = CK_REQUEST_FAILED \<and> error_code (req_error r) = 8) rs \<and> env_misused env"
proof -
  obtain result rs env where call: "ck_runtime_dispatch_async_smoke False CkartaRuntime_methods good_smoke
      running_runtime [sample_request, sample_request] = (result, rs, env)"
    using prod_cases3 by blast
  have "req_state sample_request = CK_REQUEST_PENDING"
    by (simp add: sample_request_def zero_ck_request_def request_states)
  with dispatch_smoke_hides_failure [OF _ _ _ _ _ _ _ _ call] call show ?thesis
    by (simp add: running_runtime_def zero_runtime_def good_smoke_def)
qed

definition sample_completion :: ck_completion_record where
  "sample_completion = zero_record\<lparr>completion_request_id := 7, completion_owner_token := 1,
     completion_lifetime_token := 1, completion_cycle_id := 1\<rparr>"

definition completed_runtime :: ck_runtime where
  "completed_runtime = running_runtime\<lparr>rt_queue := snd (ck_completion_queue_push False quiet_mutex No_fault
     sample_queue sample_completion)\<rparr>"

lemma quiet_push:
  assumes "queue_wf q" "queue_count q < CK_COMPLETION_QUEUE_CAPACITY" "\<not> queue_closed q"
  shows "queue_wf (snd (ck_completion_queue_push False quiet_mutex No_fault q c))
    \<and> queue_records (snd (ck_completion_queue_push False quiet_mutex No_fault q c)) = queue_records q @ [c]
    \<and> queue_closed (snd (ck_completion_queue_push False quiet_mutex No_fault q c)) = queue_closed q"
proof -
  obtain r q' where store: "queue_store quiet_mutex No_fault q c = (r, q')"
    by (cases "queue_store quiet_mutex No_fault q c")
  then have "ck_completion_queue_push False quiet_mutex No_fault q c = (r, q')"
    using assms by (simp add: ck_completion_queue_push_def queue_wf_def)
  then show ?thesis using store_cases [OF assms(1,2) store] by auto
qed

lemma completed_runtime_queue:
  "queue_wf (rt_queue completed_runtime)" "queue_records (rt_queue completed_runtime) = [sample_completion]"
  "\<not> queue_closed (rt_queue completed_runtime)"
proof -
  note start = queue_init_wf [OF sample_queue_init]
  have "queue_count sample_queue = 0" using start(2) by (simp add: queue_records_empty)
  with quiet_push [OF start(1) _ start(3), of sample_completion] start
  show "queue_wf (rt_queue completed_runtime)" "queue_records (rt_queue completed_runtime) = [sample_completion]"
    "\<not> queue_closed (rt_queue completed_runtime)"
    by (simp_all add: completed_runtime_def CK_COMPLETION_QUEUE_CAPACITY_def)
qed

definition sample_boot :: boot_calls where
  "sample_boot = \<lparr>boot_create_vm = 0, boot_methods = CkartaRuntime_methods,
     boot_start = \<lparr>start_class_found = True, start_register_ok = True, start_throws = False\<rparr>,
     boot_queue_handle = 4096, boot_close_mutex = quiet_mutex, boot_close_broadcast = 0, boot_close_fault = No_fault,
     boot_stop = \<lparr>stop_class_found = True, stop_throws = False\<rparr>, boot_destroy_vm = 0\<rparr>"

definition sample_init_calls :: init_calls where
  "sample_init_calls = \<lparr>init_queue_mutex = 0, init_queue_cond = 0, init_queue_fd = Inr 9, init_mutex = 0,
     init_cond = 0, init_create = 0, init_join = 0, init_destroy_mutex = quiet_mutex, init_destroy_broadcast = 0,
     init_destroy_fault = No_fault, init_boot = sample_boot\<rparr>"

theorem runtime_shutdown_once_witness:
  "\<exists>rt thread rt1. ck_runtime_init False sample_init_calls zero_runtime (bytes_of ''build'') = (0, rt, Some thread)
    \<and> ck_runtime_shutdown False quiet_shutdown sample_boot thread rt = (0, rt1)
    \<and> ck_runtime_shutdown False quiet_shutdown sample_boot thread rt1 = (0, rt1)"
proof -
  obtain rt thread where init: "ck_runtime_init False sample_init_calls zero_runtime (bytes_of ''build'')
      = (0, rt, Some thread)"
    by (simp add: ck_runtime_init_def sample_init_calls_def ck_completion_queue_init_def
        ck_completion_notification_init_def bootstrap_begin_def sample_boot_def ck_call_start_def jni_defs
        fresh_env_def CkartaRuntime_methods_def JVM_OPTION_SIZE_def bytes_of_def)
  obtain status rt1 where down: "ck_runtime_shutdown False quiet_shutdown sample_boot thread rt = (status, rt1)"
    by (cases "ck_runtime_shutdown False quiet_shutdown sample_boot thread rt")
  from runtime_shutdown_once [OF init _ _ _ down, of 9 No_fault sample_completion sample_boot thread] init down
  show ?thesis by (auto simp: sample_init_calls_def sample_boot_def)
qed

end
