(* ===== verification/Ck_Event.thy ===== *)
theory Ck_Event
  imports Ck_Prelude
begin

text \<open>
  The edge to the kernel: the event loop over epoll, \<open>c/event/ck_event_loop.[ch]\<close>, the socket
  wrappers \<open>c/platform/ck_socket.[ch]\<close> (receive and send are in the theories of the reader and the
  writer), the listener \<open>c/net/ck_tcp_listener.[ch]\<close> and the
  \<open>io_uring\<close> probe \<open>c/event/ck_io_uring_probe.c\<close>.

  The kernel is represented by what the manual pages document: an epoll instance is its interest
  list, a map from descriptors to an event mask and the user's 64 bits; the process has a set of open
  descriptors.  That a call fails for another reason, and what \<open>epoll_wait\<close> reports, are arguments.
\<close>

definition EINVAL_code :: int where "EINVAL_code = 22"
definition EEXIST_code :: int where "EEXIST_code = 17"
definition ENOENT_code :: int where "ENOENT_code = 2"

section \<open>Event masks\<close>

definition CK_EVENT_READ :: u32 where "CK_EVENT_READ = 1"
definition CK_EVENT_WRITE :: u32 where "CK_EVENT_WRITE = 2"
definition CK_EVENT_RDHUP :: u32 where "CK_EVENT_RDHUP = 4"
definition CK_EVENT_ERROR :: u32 where "CK_EVENT_ERROR = 8"

definition EPOLLIN :: u32 where "EPOLLIN = 0x001"
definition EPOLLOUT :: u32 where "EPOLLOUT = 0x004"
definition EPOLLERR :: u32 where "EPOLLERR = 0x008"
definition EPOLLHUP :: u32 where "EPOLLHUP = 0x010"
definition EPOLLRDHUP :: u32 where "EPOLLRDHUP = 0x2000"

lemmas event_masks = CK_EVENT_READ_def CK_EVENT_WRITE_def CK_EVENT_RDHUP_def CK_EVENT_ERROR_def
  EPOLLIN_def EPOLLOUT_def EPOLLERR_def EPOLLHUP_def EPOLLRDHUP_def

definition ck_event_to_epoll :: "u32 \<Rightarrow> u32 option" where
  "ck_event_to_epoll events =
    (if events = 0
        \<or> events AND NOT (CK_EVENT_READ OR CK_EVENT_WRITE OR CK_EVENT_RDHUP OR CK_EVENT_ERROR) \<noteq> 0
     then None
     else
       let v1 = (if events AND CK_EVENT_READ \<noteq> 0 then 0 OR EPOLLIN else 0);
           v2 = (if events AND CK_EVENT_WRITE \<noteq> 0 then v1 OR EPOLLOUT else v1);
           v3 = (if events AND CK_EVENT_RDHUP \<noteq> 0 then v2 OR EPOLLRDHUP else v2);
           v4 = (if events AND CK_EVENT_ERROR \<noteq> 0 then v3 OR (EPOLLERR OR EPOLLHUP) else v3) in
       Some v4)"

definition ck_epoll_to_event :: "u32 \<Rightarrow> u32" where
  "ck_epoll_to_event epoll_events =
    (let e1 = (if epoll_events AND EPOLLIN \<noteq> 0 then 0 OR CK_EVENT_READ else 0);
         e2 = (if epoll_events AND EPOLLOUT \<noteq> 0 then e1 OR CK_EVENT_WRITE else e1);
         e3 = (if epoll_events AND EPOLLRDHUP \<noteq> 0 then e2 OR CK_EVENT_RDHUP else e2) in
     if epoll_events AND (EPOLLERR OR EPOLLHUP) \<noteq> 0 then e3 OR CK_EVENT_ERROR else e3)"

section \<open>The event loop\<close>

record ck_event_notification =
  notification_cookie :: u64
  notification_events :: u32

record ck_event_loop =
  epoll_fd :: int
  loop_initialized :: bool

type_synonym interest = "int \<rightharpoonup> u32 \<times> u64"

text \<open>\<open>epoll_ctl\<close>; \<open>fault\<close> is an errno other than the two documented conflicts.\<close>

datatype ctl_op = Ctl_Add | Ctl_Mod | Ctl_Del

definition epoll_ctl :: "int option \<Rightarrow> interest \<Rightarrow> ctl_op \<Rightarrow> int \<Rightarrow> u32 \<times> u64 \<Rightarrow> int option \<times> interest" where
  "epoll_ctl fault watched operation fd event =
    (case fault of
       Some e \<Rightarrow> (Some e, watched)
     | None \<Rightarrow>
         (case operation of
            Ctl_Add \<Rightarrow> if watched fd \<noteq> None then (Some EEXIST_code, watched) else (None, watched(fd \<mapsto> event))
          | Ctl_Mod \<Rightarrow> if watched fd = None then (Some ENOENT_code, watched) else (None, watched(fd \<mapsto> event))
          | Ctl_Del \<Rightarrow> if watched fd = None then (Some ENOENT_code, watched) else (None, watched(fd := None))))"

text \<open>\<open>new_fd\<close> is the result of \<open>epoll_create1\<close>.\<close>

definition ck_event_loop_init :: "bool \<Rightarrow> int + int \<Rightarrow> ck_event_loop \<Rightarrow> int \<times> ck_event_loop" where
  "ck_event_loop_init null_arg new_fd loop =
    (if null_arg then (EINVAL_code, loop)
     else
       case new_fd of
         Inl e \<Rightarrow> (e, loop\<lparr>epoll_fd := -1, loop_initialized := False\<rparr>)
       | Inr fd \<Rightarrow> (0, loop\<lparr>epoll_fd := fd, loop_initialized := True\<rparr>))"

definition ck_event_loop_add ::
  "bool \<Rightarrow> int option \<Rightarrow> ck_event_loop \<Rightarrow> interest \<Rightarrow> int \<Rightarrow> u64 \<Rightarrow> u32 \<Rightarrow> int \<times> interest" where
  "ck_event_loop_add null_arg fault loop watched socket_fd cookie events =
    (if null_arg \<or> \<not> loop_initialized loop \<or> socket_fd < 0 \<or> cookie = 0 then (EINVAL_code, watched)
     else
       case ck_event_to_epoll events of
         None \<Rightarrow> (EINVAL_code, watched)
       | Some epoll_events \<Rightarrow>
           (case epoll_ctl fault watched Ctl_Add socket_fd (epoll_events, cookie) of
              (Some e, watched1) \<Rightarrow> (e, watched1)
            | (None, watched1) \<Rightarrow> (0, watched1)))"

definition ck_event_loop_modify ::
  "bool \<Rightarrow> int option \<Rightarrow> ck_event_loop \<Rightarrow> interest \<Rightarrow> int \<Rightarrow> u64 \<Rightarrow> u32 \<Rightarrow> int \<times> interest" where
  "ck_event_loop_modify null_arg fault loop watched socket_fd cookie events =
    (if null_arg \<or> \<not> loop_initialized loop \<or> socket_fd < 0 \<or> cookie = 0 then (EINVAL_code, watched)
     else
       case ck_event_to_epoll events of
         None \<Rightarrow> (EINVAL_code, watched)
       | Some epoll_events \<Rightarrow>
           (case epoll_ctl fault watched Ctl_Mod socket_fd (epoll_events, cookie) of
              (Some e, watched1) \<Rightarrow> (e, watched1)
            | (None, watched1) \<Rightarrow> (0, watched1)))"

definition ck_event_loop_remove ::
  "bool \<Rightarrow> int option \<Rightarrow> ck_event_loop \<Rightarrow> interest \<Rightarrow> int \<Rightarrow> int \<times> interest" where
  "ck_event_loop_remove null_arg fault loop watched socket_fd =
    (if null_arg \<or> \<not> loop_initialized loop \<or> socket_fd < 0 then (EINVAL_code, watched)
     else
       case epoll_ctl fault watched Ctl_Del socket_fd (0, 0) of
         (Some e, watched1) \<Rightarrow> (e, watched1)
       | (None, watched1) \<Rightarrow> (0, watched1))"

text \<open>
  \<open>wait_result\<close> is the behaviour of \<open>epoll_wait\<close> for a given \<open>maxevents\<close>: an errno, or the events.
  The result is the return value and the notifications written.
\<close>

definition ck_event_loop_wait ::
  "bool \<Rightarrow> ck_event_loop \<Rightarrow> (nat \<Rightarrow> int + (u32 \<times> u64) list) \<Rightarrow> nat \<Rightarrow> int
   \<Rightarrow> int \<times> ck_event_notification list" where
  "ck_event_loop_wait null_arg loop wait_result capacity timeout_ms =
    (if null_arg \<or> \<not> loop_initialized loop \<or> capacity = 0 \<or> timeout_ms < -1 then (- EINVAL_code, [])
     else
       let max_events = (if capacity < 64 then capacity else 64) in
       case wait_result max_events of
         Inl e \<Rightarrow> (- e, [])
       | Inr events \<Rightarrow>
           (int (length events),
            map (\<lambda>(mask, data). \<lparr>notification_cookie = data, notification_events = ck_epoll_to_event mask\<rparr>) events))"

text \<open>\<open>close_result\<close> is an errno or 0.\<close>

definition ck_event_loop_destroy :: "bool \<Rightarrow> int \<Rightarrow> ck_event_loop \<Rightarrow> int \<times> ck_event_loop" where
  "ck_event_loop_destroy null_arg close_result loop =
    (if null_arg then (EINVAL_code, loop)
     else if \<not> loop_initialized loop then (0, loop)
     else (close_result, loop\<lparr>epoll_fd := -1, loop_initialized := False\<rparr>))"

section \<open>Sockets and the listener\<close>

record listener_calls =
  socket_call :: "int + int"
  setsockopt_call :: "int option"
  bind_call :: "int option"
  listen_call :: "int option"

text \<open>
  The open descriptors of the process are threaded through.  \<open>close\<close> releases its descriptor
  whatever it returns, as on Linux.
\<close>

definition ck_socket_create_loopback_listener :: "listener_calls \<Rightarrow> int set \<Rightarrow> int \<times> int set" where
  "ck_socket_create_loopback_listener calls fds =
    (case socket_call calls of
       Inl e \<Rightarrow> (- e, fds)
     | Inr socket_fd \<Rightarrow>
         let fds1 = insert socket_fd fds in
         case setsockopt_call calls of
           Some e \<Rightarrow> (- e, fds1 - {socket_fd})
         | None \<Rightarrow>
             (case bind_call calls of
                Some e \<Rightarrow> (- e, fds1 - {socket_fd})
              | None \<Rightarrow>
                  (case listen_call calls of
                     Some e \<Rightarrow> (- e, fds1 - {socket_fd})
                   | None \<Rightarrow> (socket_fd, fds1))))"

text \<open>\<open>getsockname\<close> gives the port of the address, in network byte order.\<close>

definition ntohs :: "u16 \<Rightarrow> u16" where
  "ntohs x = push_bit 8 x OR drop_bit 8 x"

definition ck_socket_get_port :: "int + u16 \<Rightarrow> int \<Rightarrow> int" where
  "ck_socket_get_port sockname socket_fd =
    (if socket_fd < 0 then - EINVAL_code
     else case sockname of Inl e \<Rightarrow> - e | Inr sin_port \<Rightarrow> uint (ntohs sin_port))"

definition ck_socket_accept_nonblocking :: "int + int \<Rightarrow> int \<Rightarrow> int set \<Rightarrow> int \<times> int set" where
  "ck_socket_accept_nonblocking accept_result socket_fd fds =
    (if socket_fd < 0 then (- EINVAL_code, fds)
     else case accept_result of Inl e \<Rightarrow> (- e, fds) | Inr fd \<Rightarrow> (fd, insert fd fds))"

definition ck_socket_close :: "int \<Rightarrow> int \<Rightarrow> int set \<Rightarrow> int \<times> int set" where
  "ck_socket_close close_result socket_fd fds =
    (if socket_fd < 0 then (EINVAL_code, fds) else (close_result, fds - {socket_fd}))"

record ck_tcp_listener =
  listener_fd :: int
  listener_initialized :: bool

definition ck_tcp_listener_init ::
  "bool \<Rightarrow> listener_calls \<Rightarrow> ck_tcp_listener \<Rightarrow> int set \<Rightarrow> int \<times> ck_tcp_listener \<times> int set" where
  "ck_tcp_listener_init null_arg calls listener fds =
    (if null_arg then (EINVAL_code, listener, fds)
     else
       case ck_socket_create_loopback_listener calls fds of
         (socket_fd, fds1) \<Rightarrow>
           if socket_fd < 0 then (- socket_fd, listener, fds1)
           else (0, listener\<lparr>listener_fd := socket_fd, listener_initialized := True\<rparr>, fds1))"

definition ck_tcp_listener_port :: "int + u16 \<Rightarrow> ck_tcp_listener option \<Rightarrow> int" where
  "ck_tcp_listener_port sockname listener =
    (case listener of
       None \<Rightarrow> - EINVAL_code
     | Some l \<Rightarrow> if \<not> listener_initialized l then - EINVAL_code else ck_socket_get_port sockname (listener_fd l))"

definition ck_tcp_listener_fd :: "ck_tcp_listener option \<Rightarrow> int" where
  "ck_tcp_listener_fd listener =
    (case listener of None \<Rightarrow> -1 | Some l \<Rightarrow> if \<not> listener_initialized l then -1 else listener_fd l)"

definition ck_tcp_listener_accept ::
  "bool \<Rightarrow> int + int \<Rightarrow> ck_tcp_listener \<Rightarrow> int set \<Rightarrow> int \<times> int set" where
  "ck_tcp_listener_accept null_arg accept_result listener fds =
    (if null_arg \<or> \<not> listener_initialized listener then (- EINVAL_code, fds)
     else ck_socket_accept_nonblocking accept_result (listener_fd listener) fds)"

definition ck_tcp_listener_destroy ::
  "bool \<Rightarrow> int \<Rightarrow> ck_tcp_listener \<Rightarrow> int set \<Rightarrow> int \<times> ck_tcp_listener \<times> int set" where
  "ck_tcp_listener_destroy null_arg close_result listener fds =
    (if null_arg then (EINVAL_code, listener, fds)
     else if \<not> listener_initialized listener then (0, listener, fds)
     else
       case ck_socket_close close_result (listener_fd listener) fds of
         (r, fds1) \<Rightarrow> (r, listener\<lparr>listener_fd := -1, listener_initialized := False\<rparr>, fds1))"

section \<open>The io_uring probe\<close>

text \<open>
  \<open>c/event/ck_io_uring_probe.c\<close> on Linux.  The kernel's answers are arguments: \<open>io_uring_setup\<close> gives a
  descriptor and the feature bits, the probe the list of operation codes with their flags.
\<close>

definition IORING_FEAT_FAST_POLL :: u32 where "IORING_FEAT_FAST_POLL = push_bit 5 1"
definition IO_URING_OP_SUPPORTED :: u16 where "IO_URING_OP_SUPPORTED = 1"
definition IORING_OP_ACCEPT :: u8 where "IORING_OP_ACCEPT = 13"
definition IORING_OP_SEND :: u8 where "IORING_OP_SEND = 26"
definition IORING_OP_RECV :: u8 where "IORING_OP_RECV = 27"

record ck_io_uring_probe_result =
  probe_available :: bool
  probe_features :: u32
  probe_fast_poll :: bool
  probe_accept :: bool
  probe_recv :: bool
  probe_send :: bool
  probe_error_number :: int

record probe_calls =
  setup_call :: "int + int \<times> u32"
  calloc_call :: "int option"
  register_call :: "int + (u8 \<times> u16) list"
  probe_close_call :: int

fun opcode_supported :: "(u8 \<times> u16) list \<Rightarrow> u8 \<Rightarrow> bool" where
  "opcode_supported [] opcode = False"
| "opcode_supported ((op, flags) # ops) opcode =
    (if op = opcode then flags AND IO_URING_OP_SUPPORTED \<noteq> 0 else opcode_supported ops opcode)"

definition zero_probe_result :: ck_io_uring_probe_result where
  "zero_probe_result = \<lparr>probe_available = False, probe_features = 0, probe_fast_poll = False, probe_accept = False,
     probe_recv = False, probe_send = False, probe_error_number = 0\<rparr>"

definition ck_io_uring_probe ::
  "bool \<Rightarrow> probe_calls \<Rightarrow> ck_io_uring_probe_result \<Rightarrow> int set \<Rightarrow> int \<times> ck_io_uring_probe_result \<times> int set" where
  "ck_io_uring_probe null_arg calls result fds =
    (if null_arg then (EINVAL_code, result, fds)
     else
       case setup_call calls of
         Inl e \<Rightarrow> (0, zero_probe_result\<lparr>probe_error_number := e\<rparr>, fds)
       | Inr (fd, features) \<Rightarrow>
           let result1 = zero_probe_result\<lparr>probe_available := True, probe_features := features,
                 probe_fast_poll := features AND IORING_FEAT_FAST_POLL \<noteq> 0\<rparr>;
               fds1 = insert fd fds in
           case calloc_call calls of
             Some e \<Rightarrow> (-1, result1\<lparr>probe_error_number := e\<rparr>, fds1 - {fd})
           | None \<Rightarrow>
               let result2 = (case register_call calls of
                     Inr ops \<Rightarrow> result1\<lparr>probe_accept := opcode_supported ops IORING_OP_ACCEPT,
                       probe_recv := opcode_supported ops IORING_OP_RECV,
                       probe_send := opcode_supported ops IORING_OP_SEND\<rparr>
                   | Inl e \<Rightarrow> result1\<lparr>probe_error_number := e, probe_available := False\<rparr>);
                   result3 = (if probe_close_call calls \<noteq> 0 \<and> probe_error_number result2 = 0
                     then result2\<lparr>probe_error_number := probe_close_call calls, probe_available := False\<rparr>
                     else result2) in
               (0, result3, fds1 - {fd}))"

text \<open>
  The probe never keeps a descriptor, and what it reports as available was probed without an error.
\<close>

lemma probe_balanced:
  assumes "\<And>fd f. setup_call calls = Inr (fd, f) \<Longrightarrow> fd \<notin> fds" "\<And>e. register_call calls = Inl e \<Longrightarrow> e \<noteq> 0"
    and "ck_io_uring_probe False calls result0 fds = (r, result, fds')"
  shows "fds' = fds" "r = 0 \<Longrightarrow> probe_available result \<Longrightarrow> probe_error_number result = 0"
  using assms
  by (auto simp: ck_io_uring_probe_def Let_def zero_probe_result_def split: option.splits sum.splits if_splits prod.splits)

section \<open>Masks bit by bit\<close>

lemma flag_power:
  "CK_EVENT_READ = 2 ^ 0" "CK_EVENT_WRITE = 2 ^ 1" "CK_EVENT_RDHUP = 2 ^ 2" "CK_EVENT_ERROR = 2 ^ 3"
  "EPOLLIN = 2 ^ 0" "EPOLLOUT = 2 ^ 2" "EPOLLERR = 2 ^ 3" "EPOLLHUP = 2 ^ 4" "EPOLLRDHUP = 2 ^ 13"
  by (simp_all add: event_masks)

lemma power_test: "x AND 2 ^ k \<noteq> 0 \<longleftrightarrow> bit (x :: u32) k"
  by (simp add: and_exp_eq_0_iff_not_bit)

lemma flag_test [simp]:
  "x AND CK_EVENT_READ \<noteq> 0 \<longleftrightarrow> bit x 0" "x AND CK_EVENT_WRITE \<noteq> 0 \<longleftrightarrow> bit x 1"
  "x AND CK_EVENT_RDHUP \<noteq> 0 \<longleftrightarrow> bit x 2" "x AND CK_EVENT_ERROR \<noteq> 0 \<longleftrightarrow> bit x 3"
  "x AND EPOLLIN \<noteq> 0 \<longleftrightarrow> bit x 0" "x AND EPOLLOUT \<noteq> 0 \<longleftrightarrow> bit x 2" "x AND EPOLLRDHUP \<noteq> 0 \<longleftrightarrow> bit x 13"
  "x AND (EPOLLERR OR EPOLLHUP) \<noteq> 0 \<longleftrightarrow> bit x 3 \<or> bit x 4"
  unfolding flag_power power_test bit.conj_disj_distrib or_eq_0_iff de_Morgan_conj by (rule refl)+

lemma flag_bit [simp]:
  "bit CK_EVENT_READ n \<longleftrightarrow> n = 0" "bit CK_EVENT_WRITE n \<longleftrightarrow> n = 1"
  "bit CK_EVENT_RDHUP n \<longleftrightarrow> n = 2" "bit CK_EVENT_ERROR n \<longleftrightarrow> n = 3"
  "bit EPOLLIN n \<longleftrightarrow> n = 0" "bit EPOLLOUT n \<longleftrightarrow> n = 2" "bit EPOLLERR n \<longleftrightarrow> n = 3"
  "bit EPOLLHUP n \<longleftrightarrow> n = 4" "bit EPOLLRDHUP n \<longleftrightarrow> n = 13"
proof -
  have *: "bit (2 ^ k :: u32) n \<longleftrightarrow> n = k" if "k < 32" for k
    using that by (auto simp: bit_exp_iff)
  show "bit CK_EVENT_READ n \<longleftrightarrow> n = 0" "bit CK_EVENT_WRITE n \<longleftrightarrow> n = 1"
    "bit CK_EVENT_RDHUP n \<longleftrightarrow> n = 2" "bit CK_EVENT_ERROR n \<longleftrightarrow> n = 3"
    "bit EPOLLIN n \<longleftrightarrow> n = 0" "bit EPOLLOUT n \<longleftrightarrow> n = 2" "bit EPOLLERR n \<longleftrightarrow> n = 3"
    "bit EPOLLHUP n \<longleftrightarrow> n = 4" "bit EPOLLRDHUP n \<longleftrightarrow> n = 13"
    unfolding flag_power by (rule *, simp)+
qed

lemma to_event_bits:
  "bit (ck_epoll_to_event x) n \<longleftrightarrow> n = 0 \<and> bit x 0 \<or> n = 1 \<and> bit x 2 \<or> n = 2 \<and> bit x 13
     \<or> n = 3 \<and> (bit x 3 \<or> bit x 4)"
  unfolding ck_epoll_to_event_def Let_def flag_test by (auto simp: bit_or_iff)

definition events_valid :: "u32 \<Rightarrow> bool" where
  "events_valid events \<longleftrightarrow> events \<noteq> 0
     \<and> events AND NOT (CK_EVENT_READ OR CK_EVENT_WRITE OR CK_EVENT_RDHUP OR CK_EVENT_ERROR) = 0"

lemma to_epoll_None: "ck_event_to_epoll E = None \<longleftrightarrow> \<not> events_valid E"
  by (simp add: ck_event_to_epoll_def events_valid_def Let_def)

lemma to_epoll_bits:
  assumes "ck_event_to_epoll E = Some m"
  shows "bit m n \<longleftrightarrow> n = 0 \<and> bit E 0 \<or> n = 2 \<and> bit E 1 \<or> n = 13 \<and> bit E 2 \<or> (n = 3 \<or> n = 4) \<and> bit E 3"
  using assms unfolding ck_event_to_epoll_def Let_def flag_test
  by (auto simp: bit_or_iff split: if_splits)

lemma events_valid_bits: "events_valid E \<Longrightarrow> bit E n \<Longrightarrow> n < 4"
proof (rule ccontr)
  assume "events_valid E" "bit E n" "\<not> n < 4"
  then have "bit (E AND NOT (CK_EVENT_READ OR CK_EVENT_WRITE OR CK_EVENT_RDHUP OR CK_EVENT_ERROR)) n"
    by (auto simp: bit_and_iff bit_or_iff bit_not_iff dest: bit_imp_le_length)
  with \<open>events_valid E\<close> show False by (simp add: events_valid_def)
qed

lemma less_four: "n < 4 \<longleftrightarrow> n = 0 \<or> n = 1 \<or> n = 2 \<or> n = (3 :: nat)"
  by auto

lemma event_roundtrip: "ck_event_to_epoll E = Some m \<Longrightarrow> ck_epoll_to_event m = E"
proof (rule bit_word_eqI)
  fix n
  assume E: "ck_event_to_epoll E = Some m"
  then have "events_valid E" using to_epoll_None [of E] by simp
  then have "bit E n \<Longrightarrow> n < 4" by (rule events_valid_bits)
  then show "bit (ck_epoll_to_event m) n \<longleftrightarrow> bit E n"
    by (auto simp: to_event_bits to_epoll_bits [OF E] less_four)
qed

section \<open>The table of watches\<close>

text \<open>
  What a client of the event loop sees: a table from descriptors to the events it asked for and its
  cookie.  An operation is refused with EINVAL on bad arguments, with EEXIST or ENOENT when the
  descriptor is already or not yet watched, and otherwise updates the table.
\<close>

datatype watch_op = Add int u64 u32 | Modify int u64 u32 | Remove int

type_synonym watches = "int \<rightharpoonup> u32 \<times> u64"

fun watch_apply :: "watch_op \<Rightarrow> watches \<Rightarrow> int \<times> watches" where
  "watch_apply (Add fd cookie events) t =
    (if fd < 0 \<or> cookie = 0 \<or> \<not> events_valid events then (EINVAL_code, t)
     else if t fd \<noteq> None then (EEXIST_code, t) else (0, t(fd \<mapsto> (events, cookie))))"
| "watch_apply (Modify fd cookie events) t =
    (if fd < 0 \<or> cookie = 0 \<or> \<not> events_valid events then (EINVAL_code, t)
     else if t fd = None then (ENOENT_code, t) else (0, t(fd \<mapsto> (events, cookie))))"
| "watch_apply (Remove fd) t =
    (if fd < 0 then (EINVAL_code, t) else if t fd = None then (ENOENT_code, t) else (0, t(fd := None)))"

fun run_ops :: "('op \<Rightarrow> 's \<Rightarrow> int \<times> 's) \<Rightarrow> 'op list \<Rightarrow> 's \<Rightarrow> int list \<times> 's" where
  "run_ops f [] s = ([], s)"
| "run_ops f (x # xs) s = (let (r, s1) = f x s; (rs, s2) = run_ops f xs s1 in (r # rs, s2))"

text \<open>An implementation of the table: its operations, the table it stands for and its invariant.\<close>

locale watch_table =
  fixes apply_op :: "watch_op \<Rightarrow> 's \<Rightarrow> int \<times> 's"
    and table :: "'s \<Rightarrow> watches"
    and ok :: "'s \<Rightarrow> bool"
  assumes apply_refines: "ok s \<Longrightarrow> apply_op x s = (r, s') \<Longrightarrow> ok s' \<and> watch_apply x (table s) = (r, table s')"
begin

lemma run_refines:
  "ok s \<Longrightarrow> run_ops apply_op xs s = (rs, s') \<Longrightarrow> ok s' \<and> run_ops watch_apply xs (table s) = (rs, table s')"
proof (induction xs arbitrary: s rs)
  case (Cons x xs)
  obtain r s1 rs1 where x: "apply_op x s = (r, s1)" and xs: "run_ops apply_op xs s1 = (rs1, s')"
      and rs: "rs = r # rs1"
    using Cons.prems(2) by (auto split: prod.splits)
  show ?case
    using apply_refines [OF Cons.prems(1) x] Cons.IH [OF _ xs] rs by simp
qed simp

end

text \<open>The interest list as a table, and what the calls of the loop keep of it.\<close>

definition interest_table :: "interest \<Rightarrow> watches" where
  "interest_table w fd = map_option (\<lambda>(m, c). (ck_epoll_to_event m, c)) (w fd)"

definition interest_ok :: "interest \<Rightarrow> bool" where
  "interest_ok w \<longleftrightarrow> (\<forall>fd m c. w fd = Some (m, c) \<longrightarrow> ck_event_to_epoll (ck_epoll_to_event m) = Some m \<and> c \<noteq> 0)"

fun loop_apply :: "ck_event_loop \<Rightarrow> watch_op \<Rightarrow> interest \<Rightarrow> int \<times> interest" where
  "loop_apply loop (Add fd cookie events) w = ck_event_loop_add False None loop w fd cookie events"
| "loop_apply loop (Modify fd cookie events) w = ck_event_loop_modify False None loop w fd cookie events"
| "loop_apply loop (Remove fd) w = ck_event_loop_remove False None loop w fd"

lemma interest_table_simps [simp]:
  "interest_table w fd = None \<longleftrightarrow> w fd = None"
  "interest_table (w(fd := None)) = (interest_table w)(fd := None)"
  "interest_table (w(fd \<mapsto> (m, c))) = (interest_table w)(fd \<mapsto> (ck_epoll_to_event m, c))"
  by (auto simp: interest_table_def fun_eq_iff)

lemma interest_ok_upd:
  "interest_ok w \<Longrightarrow> interest_ok (w(fd := None))"
  "interest_ok w \<Longrightarrow> ck_event_to_epoll E = Some m \<Longrightarrow> c \<noteq> 0 \<Longrightarrow> interest_ok (w(fd \<mapsto> (m, c)))"
  by (auto simp: interest_ok_def event_roundtrip)

lemma loop_apply_refines:
  assumes "loop_initialized loop" "interest_ok w" "loop_apply loop x w = (r, w')"
  shows "interest_ok w' \<and> watch_apply x (interest_table w) = (r, interest_table w')"
proof (cases x)
  case (Add fd cookie events)
  then show ?thesis
    using assms to_epoll_None [of events]
    by (auto simp: ck_event_loop_add_def epoll_ctl_def interest_ok_upd event_roundtrip
        split: if_splits option.splits)
next
  case (Modify fd cookie events)
  then show ?thesis
    using assms to_epoll_None [of events]
    by (auto simp: ck_event_loop_modify_def epoll_ctl_def interest_ok_upd event_roundtrip
        split: if_splits option.splits)
next
  case (Remove fd)
  then show ?thesis
    using assms by (auto simp: ck_event_loop_remove_def epoll_ctl_def interest_ok_upd split: if_splits)
qed

definition open_loop :: "int \<Rightarrow> ck_event_loop" where
  "open_loop fd = \<lparr>epoll_fd = fd, loop_initialized = True\<rparr>"

interpretation loop_table: watch_table "loop_apply (open_loop fd)" interest_table interest_ok for fd
  by unfold_locales (rule loop_apply_refines, simp_all add: open_loop_def)

section \<open>Properties\<close>

text \<open>What the manual page promises of \<open>epoll_wait\<close> for an interest list.\<close>

definition wait_ok :: "interest \<Rightarrow> (nat \<Rightarrow> int + (u32 \<times> u64) list) \<Rightarrow> bool" where
  "wait_ok w wait \<longleftrightarrow> (\<forall>n e. wait n = Inl e \<longrightarrow> 0 < e)
     \<and> (\<forall>n evs. wait n = Inr evs \<longrightarrow> length evs \<le> n
       \<and> (\<forall>(ev, data) \<in> set evs. ev \<noteq> 0
           \<and> (\<exists>fd m. w fd = Some (m, data) \<and> ev AND NOT (m OR EPOLLERR OR EPOLLHUP) = 0)))"

lemma reported_events:
  assumes "ck_event_to_epoll E = Some m" "ev AND NOT (m OR EPOLLERR OR EPOLLHUP) = 0"
  shows "ck_epoll_to_event ev AND NOT (E OR CK_EVENT_ERROR) = 0"
    and "ev \<noteq> 0 \<Longrightarrow> ck_epoll_to_event ev \<noteq> 0"
proof -
  have sub: "bit m n \<or> n = 3 \<or> n = 4" if "bit ev n" for n
  proof -
    have "\<not> bit (ev AND NOT (m OR EPOLLERR OR EPOLLHUP)) n" unfolding assms(2) by simp
    with that show ?thesis
      using bit_imp_le_length [OF that] by (auto simp: bit_and_iff bit_or_iff bit_not_iff)
  qed
  show "ck_epoll_to_event ev AND NOT (E OR CK_EVENT_ERROR) = 0"
  proof (rule bit_word_eqI)
    fix n
    show "bit (ck_epoll_to_event ev AND NOT (E OR CK_EVENT_ERROR)) n \<longleftrightarrow> bit (0 :: u32) n"
      using sub [of 0] sub [of 2] sub [of 13] by (auto simp: bit_and_iff bit_or_iff bit_not_iff to_event_bits to_epoll_bits [OF assms(1)])
  qed
  assume "ev \<noteq> 0"
  then obtain n where n: "bit ev n" by (auto simp: bit_eq_iff)
  then have "n = 0 \<or> n = 2 \<or> n = 13 \<or> n = 3 \<or> n = 4"
    using sub [OF n] by (auto simp: to_epoll_bits [OF assms(1)])
  then have "\<exists>k. bit (ck_epoll_to_event ev) k"
    using n by (auto simp: to_event_bits)
  then show "ck_epoll_to_event ev \<noteq> 0" by (metis bit_0_eq bot_apply bot_bool_def)
qed

text \<open>
  C33. Every notification is one the client asked for: after any sequence of additions, changes and
  removals on a fresh epoll instance, the results are those of the table of watches, and each
  notification that \<open>ck_event_loop_wait\<close> writes carries the cookie of a descriptor in the table and
  a non-empty set of events among those requested for it and the error event; the notifications fit
  the caller's array and the internal one of 64.
\<close>

theorem event_wait_faithful:
  assumes "run_ops (loop_apply (open_loop fd)) ops Map.empty = (results, w)"
    and "wait_ok w wait"
    and "ck_event_loop_wait False (open_loop fd) wait capacity timeout = (count, out)" "0 \<le> count"
  shows "\<exists>t. run_ops watch_apply ops Map.empty = (results, t)
    \<and> count = int (length out) \<and> length out \<le> capacity \<and> length out \<le> 64
    \<and> (\<forall>x \<in> set out. \<exists>f events. t f = Some (events, notification_cookie x)
        \<and> notification_events x \<noteq> 0
        \<and> notification_events x AND NOT (events OR CK_EVENT_ERROR) = 0)"
proof -
  have w: "interest_ok w" "run_ops watch_apply ops Map.empty = (results, interest_table w)"
  proof -
    have "interest_ok Map.empty" "interest_table Map.empty = Map.empty"
      by (simp_all add: interest_ok_def interest_table_def fun_eq_iff)
    then show "interest_ok w" "run_ops watch_apply ops Map.empty = (results, interest_table w)"
      using loop_table.run_refines [of Map.empty fd ops results w] assms(1) by simp_all
  qed
  let ?n = "if capacity < 64 then capacity else 64"
  obtain evs where evs: "wait ?n = Inr evs" "count = int (length evs)" "0 < capacity"
      "out = map (\<lambda>(ev, data). \<lparr>notification_cookie = data, notification_events = ck_epoll_to_event ev\<rparr>) evs"
    using assms(2-4)
    by (fastforce simp: ck_event_loop_wait_def wait_ok_def EINVAL_code_def Let_def split: if_splits sum.splits)
  have "length evs \<le> ?n" using assms(2) evs(1) unfolding wait_ok_def by blast
  then have len: "length evs \<le> capacity" "length evs \<le> 64" by (simp_all split: if_splits)
  have "\<exists>f events. interest_table w f = Some (events, data) \<and> ck_epoll_to_event ev \<noteq> 0
      \<and> ck_epoll_to_event ev AND NOT (events OR CK_EVENT_ERROR) = 0" if in_evs: "(ev, data) \<in> set evs" for ev data
  proof -
    obtain f m where f: "ev \<noteq> 0" "w f = Some (m, data)" "ev AND NOT (m OR EPOLLERR OR EPOLLHUP) = 0"
      using assms(2) evs(1) in_evs unfolding wait_ok_def by fastforce
    then have "ck_event_to_epoll (ck_epoll_to_event m) = Some m" using w(1) by (simp add: interest_ok_def)
    from reported_events [OF this f(3)] f(1,2) show ?thesis
      by (intro exI [of _ f] exI [of _ "ck_epoll_to_event m"]) (simp add: interest_table_def)
  qed
  then show ?thesis
    using w(2) evs(2,4) len by (intro exI [of _ "interest_table w"]) fastforce
qed

definition sample_watch_ops :: "watch_op list" where
  "sample_watch_ops = [Add 5 77 (CK_EVENT_READ OR CK_EVENT_RDHUP), Add 5 78 CK_EVENT_READ, Remove 6]"

definition sample_interest :: interest where
  "sample_interest = [5 \<mapsto> (EPOLLIN OR EPOLLRDHUP, 77)]"

definition sample_wait :: "nat \<Rightarrow> int + (u32 \<times> u64) list" where
  "sample_wait n = (if n = 0 then Inr [] else Inr [(EPOLLIN OR EPOLLHUP, 77)])"

theorem event_wait_faithful_witness:
  "run_ops (loop_apply (open_loop 3)) sample_watch_ops Map.empty = ([0, EEXIST_code, ENOENT_code], sample_interest)
    \<and> (\<exists>t. run_ops watch_apply sample_watch_ops Map.empty = ([0, EEXIST_code, ENOENT_code], t)
      \<and> t 5 = Some (CK_EVENT_READ OR CK_EVENT_RDHUP, 77))"
proof -
  have run: "run_ops (loop_apply (open_loop 3)) sample_watch_ops Map.empty
      = ([0, EEXIST_code, ENOENT_code], sample_interest)"
    by (simp add: sample_watch_ops_def sample_interest_def ck_event_loop_add_def ck_event_loop_remove_def
        open_loop_def ck_event_to_epoll_def epoll_ctl_def event_masks Let_def)
  have "wait_ok sample_interest sample_wait"
    by (simp add: wait_ok_def sample_wait_def sample_interest_def event_masks split: if_splits)
  moreover have "ck_event_loop_wait False (open_loop 3) sample_wait 1 (-1)
      = (1, [\<lparr>notification_cookie = 77, notification_events = CK_EVENT_READ OR CK_EVENT_ERROR\<rparr>])"
    by (simp add: ck_event_loop_wait_def open_loop_def sample_wait_def ck_epoll_to_event_def event_masks Let_def)
  ultimately obtain t where "run_ops watch_apply sample_watch_ops Map.empty = ([0, EEXIST_code, ENOENT_code], t)"
    using event_wait_faithful [OF run, of sample_wait 1 "-1" 1] by fastforce
  moreover from this have "t 5 = Some (CK_EVENT_READ OR CK_EVENT_RDHUP, 77)"
    by (auto simp: sample_watch_ops_def events_valid_def event_masks split: if_splits)
  ultimately show ?thesis using run by blast
qed

text \<open>
  The listener leaks no descriptor: a failed initialisation leaves the open descriptors and the
  listener as they were whichever call failed; after a successful one the only new descriptor is the
  listener's, and destroying it, whatever \<open>close\<close> returns, restores the set, a second destroy doing
  nothing.
\<close>

theorem listener_descriptor_balance:
  assumes "\<And>fd. socket_call calls = Inr fd \<Longrightarrow> 0 \<le> fd \<and> fd \<notin> fds"
    and "\<And>e. socket_call calls = Inl e \<or> setsockopt_call calls = Some e \<or> bind_call calls = Some e
      \<or> listen_call calls = Some e \<Longrightarrow> 0 < e"
    and "ck_tcp_listener_init False calls l fds = (r, l1, fds1)"
    and "ck_tcp_listener_destroy False c l1 fds1 = (r2, l2, fds2)"
  shows "if r = 0
    then fds1 = insert (ck_tcp_listener_fd (Some l1)) fds \<and> ck_tcp_listener_fd (Some l1) \<notin> fds
      \<and> fds2 = fds \<and> r2 = c \<and> ck_tcp_listener_destroy False c2 l2 fds2 = (0, l2, fds2)
    else l1 = l \<and> fds1 = fds"
proof (cases "socket_call calls")
  case (Inl e)
  with assms(2) have "0 < e" by blast
  with Inl assms(3) show ?thesis
    by (auto simp: ck_tcp_listener_init_def ck_socket_create_loopback_listener_def)
next
  case (Inr fd)
  with assms(1) have fd: "0 \<le> fd" "fd \<notin> fds" by auto
  have pos: "setsockopt_call calls = Some e \<Longrightarrow> 0 < e" "bind_call calls = Some e \<Longrightarrow> 0 < e"
    "listen_call calls = Some e \<Longrightarrow> 0 < e" for e using assms(2) by blast+
  show ?thesis
  proof (cases "setsockopt_call calls = None \<and> bind_call calls = None \<and> listen_call calls = None")
    case True
    then show ?thesis
      using Inr fd assms(3,4)
      by (auto simp: ck_tcp_listener_init_def ck_socket_create_loopback_listener_def ck_tcp_listener_fd_def
          ck_tcp_listener_destroy_def ck_socket_close_def Let_def)
  next
    case False
    then show ?thesis
      using Inr fd assms(3) pos
      by (auto simp: ck_tcp_listener_init_def ck_socket_create_loopback_listener_def Let_def
          split: option.splits if_splits)
  qed
qed

theorem listener_descriptor_balance_witness:
  "ck_tcp_listener_init False \<lparr>socket_call = Inr 4, setsockopt_call = None, bind_call = Some 98, listen_call = None\<rparr>
      \<lparr>listener_fd = -1, listener_initialized = False\<rparr> {0, 1, 2}
    = (98, \<lparr>listener_fd = -1, listener_initialized = False\<rparr>, {0, 1, 2})"
proof -
  let ?calls = "\<lparr>socket_call = Inr 4, setsockopt_call = None, bind_call = Some 98, listen_call = None\<rparr>"
    and ?l = "\<lparr>listener_fd = -1, listener_initialized = False\<rparr>"
  obtain l1 fds1 where init: "ck_tcp_listener_init False ?calls ?l {0, 1, 2} = (98, l1, fds1)"
    by (simp add: ck_tcp_listener_init_def ck_socket_create_loopback_listener_def)
  obtain r2 l2 fds2 where "ck_tcp_listener_destroy False 0 l1 fds1 = (r2, l2, fds2)"
    using prod_cases3 by blast
  from listener_descriptor_balance [OF _ _ init this, of 0] init show ?thesis by simp
qed

end
