(* ===== verification/Ck_Main.thy ===== *)
theory Ck_Main
  imports Ck_Config Ck_Runtime Ck_Event
begin

text \<open>
  The phases of the program, \<open>c/core/main.c\<close>: the command line, the configuration and its early exits, the two built-in
  requests, and the wait for their completions on the event loop.

  A phase of \<open>main\<close> either ends the program with an exit status or goes on with a value.  What the
  program prints is left out except for the text that reaches the user's decision (the dump).
\<close>

section \<open>Command line\<close>

record main_options =
  config_path :: string
  test_only :: bool
  dump_config :: bool

definition CKARTA_DEFAULT_CONFIG_PATH :: string where
  "CKARTA_DEFAULT_CONFIG_PATH = ''conf/ckarta.conf''"

definition default_options :: main_options where
  "default_options = \<lparr>config_path = CKARTA_DEFAULT_CONFIG_PATH, test_only = False, dump_config = False\<rparr>"

text \<open>The arguments are those behind the program name.\<close>

fun parse_arguments :: "string list \<Rightarrow> main_options \<Rightarrow> int \<times> main_options" where
  "parse_arguments [] o1 = (0, o1)"
| "parse_arguments (a # as) o1 =
    (if a = ''-c'' then
       (case as of [] \<Rightarrow> (-1, o1) | path # as' \<Rightarrow> parse_arguments as' (o1\<lparr>config_path := path\<rparr>))
     else if a = ''-t'' then parse_arguments as (o1\<lparr>test_only := True\<rparr>)
     else if a = ''-T'' then parse_arguments as (o1\<lparr>test_only := True, dump_config := True\<rparr>)
     else if a = ''-h'' \<or> a = ''--help'' then (1, o1)
     else (-1, o1))"

definition check_result :: "int \<Rightarrow> int" where
  "check_result result = (if result = 0 then 0 else 1)"

section \<open>Configuration\<close>

datatype exit_status = EXIT_SUCCESS | EXIT_FAILURE

text \<open>
  The files of the system: what \<open>fopen\<close> gives for a path.  A phase that ends the program also shows
  the configuration record as it is left and what was printed on standard output.
\<close>

record main_calls =
  config_malloc :: bool
  handler_malloc :: bool
  files :: "string \<Rightarrow> string + u8 list \<times> bool"

definition main_configure ::
  "main_calls \<Rightarrow> string list \<Rightarrow> (exit_status \<times> ck_config \<times> u8 list) + ck_config" where
  "main_configure calls args =
    (let config0 = \<lparr>class_path = None, class_path_configured = False\<rparr>;
         (parsed, options) = parse_arguments args default_options in
     if parsed > 0 then Inl (EXIT_SUCCESS, config0, [])
     else if parsed < 0 then Inl (EXIT_FAILURE, config0, [])
     else
       let (init_result, config1) = ck_config_init False (config_malloc calls) config0 in
       if check_result init_result \<noteq> 0 then Inl (EXIT_FAILURE, config1, [])
       else
         let (load_result, _, config2) = ck_config_load_file False (main_directives (handler_malloc calls))
               (files calls (config_path options)) config1 in
         if load_result \<noteq> 0 then Inl (EXIT_FAILURE, ck_config_destroy False config2, [])
         else if dump_config options then
           let (dump_result, printed) = ck_config_dump False config2 in
           Inl (if check_result dump_result = 0 then EXIT_SUCCESS else EXIT_FAILURE,
                ck_config_destroy False config2, printed)
         else if test_only options
         then Inl (EXIT_SUCCESS, ck_config_destroy False config2, bytes_of ''CKARTA_CONFIG_OK'' @ [LF])
         else Inr config2)"

section \<open>The two requests\<close>

definition request_one :: "u8 list" where
  "request_one = bytes_of ''GET /handoff-one HTTP/1.1'' @ [CR, LF] @ bytes_of ''Host: x'' @ [CR, LF, CR, LF]"

definition request_two :: "u8 list" where
  "request_two = bytes_of ''GET /handoff-two HTTP/1.1'' @ [CR, LF] @ bytes_of ''Host: x'' @ [CR, LF, CR, LF]"

text \<open>\<open>parser\<close>, \<open>parsed\<close> and \<open>request\<close> are the uninitialised locals.\<close>

definition main_request ::
  "ck_http_parser \<Rightarrow> ck_http_request \<Rightarrow> ck_request \<Rightarrow> u8 list \<Rightarrow> u64 \<Rightarrow> u64 \<Rightarrow> u64 \<Rightarrow> exit_status + ck_request" where
  "main_request parser parsed request bytes request_id owner_token lifetime_token =
    (let (result, consumed, parser1, parsed1) =
           ck_http_parser_feed False (ck_http_parser_init parser) bytes parsed in
     if result \<noteq> CK_HTTP_PARSE_COMPLETE \<or> consumed \<noteq> length bytes then Inl EXIT_FAILURE
     else
       let (init_result, request1) = ck_request_init_http False request (parser_buffer parser1) parsed1 None 0
             request_id owner_token lifetime_token in
       if check_result init_result \<noteq> 0 then Inl EXIT_FAILURE else Inr request1)"

definition main_requests ::
  "ck_http_parser \<Rightarrow> ck_http_request \<Rightarrow> ck_request \<Rightarrow> ck_request \<Rightarrow> exit_status + ck_request list" where
  "main_requests parser parsed q1 q2 =
    (case main_request parser parsed q1 request_one 0xC4A7A 1 11 of
       Inl e \<Rightarrow> Inl e
     | Inr r1 \<Rightarrow>
         (case main_request parser parsed q2 request_two 0xC4A7B 2 22 of
            Inl e \<Rightarrow> Inl e
          | Inr r2 \<Rightarrow> Inr [r1, r2]))"

section \<open>Waiting for the completions\<close>

text \<open>
  The loop behind the event loop's registration.  Each turn waits once: the script has its result, the
  state of the runtime then (other threads push completions while this one waits) and the faults of
  the drain.  \<open>None\<close> means that the loop is still waiting when the script ends; a result other than
  EINTR below zero, a failed drain or a failed poll leaves it.
\<close>

record wake =
  wake_result :: int
  wake_runtime :: ck_runtime
  wake_faults :: "io_fault list"

fun wait_loop ::
  "poll_calls \<Rightarrow> wake list \<Rightarrow> ck_runtime \<Rightarrow> ck_request list \<Rightarrow> nat \<Rightarrow> (ck_runtime \<times> ck_request list \<times> nat) option" where
  "wait_loop calls wakes runtime requests completed =
    (if completed \<ge> 2 then Some (runtime, requests, completed)
     else
       case wakes of
         [] \<Rightarrow> None
       | w # wakes' \<Rightarrow>
           if wake_result w = - 4 then wait_loop calls wakes' (wake_runtime w) requests completed
           else if wake_result w < 0 then Some (wake_runtime w, requests, completed)
           else if wake_result w = 0 then wait_loop calls wakes' (wake_runtime w) requests completed
           else
             let (drained, runtime1) = ck_runtime_drain_completion_notification False (wake_faults w) (wake_runtime w) in
             if drained \<noteq> 0 then Some (runtime1, requests, completed)
             else
               case poll_loop (CK_COMPLETION_QUEUE_CAPACITY + 1) calls runtime1 requests completed of
                 None \<Rightarrow> None
               | Some (result, runtime2, requests2, completed2) \<Rightarrow>
                   if result < 0 then Some (runtime2, requests2, completed2)
                   else wait_loop calls wakes' runtime2 requests2 completed2)"

declare wait_loop.simps [simp del]

section \<open>Properties\<close>

lemma config_call_path:
  "config_call (main_directives m) l name args c = (x, y, c') \<Longrightarrow> class_path c \<noteq> None \<Longrightarrow> class_path c' \<noteq> None"
  by (auto simp: config_call_def main_directives_def apply_class_path_def ck_config_set_class_path_def
      ck_config_copy_string_def Let_def split: if_splits option.splits list.splits)

lemma config_line_path:
  "config_line (main_directives m) l str c = (x, y, c') \<Longrightarrow> class_path c \<noteq> None \<Longrightarrow> class_path c' \<noteq> None"
  by (auto simp: config_line_def split: list.splits if_splits sum.splits prod.splits dest: config_call_path)

lemma config_loop_path:
  "config_loop (main_directives m) err content line config = (r, e, config') \<Longrightarrow> class_path config \<noteq> None \<Longrightarrow>
   class_path config' \<noteq> None"
proof (induction "length content" arbitrary: content line config rule: less_induct)
  case less
  show ?case
  proof (cases "c_fgets CK_CONFIG_LINE_SIZE err content")
    case None
    with less.prems show ?thesis by (subst (asm) config_loop.simps) (auto split: if_splits)
  next
    case (Some a)
    obtain bs eof rest where a: "a = (bs, eof, rest)" using prod_cases3 by blast
    obtain x y c' where l: "config_line (main_directives m) (line + 1) (c_string bs) config = (x, y, c')"
      using prod_cases3 by blast
    have "length rest < length content"
      using Some a by (auto simp: CK_CONFIG_LINE_SIZE_def dest: c_fgets_shorter)
    with less.hyps [of rest "line + 1" c'] less.prems Some a l config_line_path [OF l less.prems(2)]
    show ?thesis by (subst (asm) config_loop.simps) (simp add: Let_def split: if_splits)
  qed
qed

text \<open>
  Every early exit releases the configuration and tells the truth: if the program ends in the
  configuration phase, the class path has been freed; with \<open>-t\<close> it succeeds exactly if the file
  loads, and with \<open>-T\<close> it then prints the line for the class path that was loaded; it goes on only
  with a loaded configuration that has a class path.
\<close>

theorem main_configure_exits:
  assumes "config_malloc calls"
    and "parse_arguments args default_options = (0, options)"
    and "ck_config_load_file False (main_directives (handler_malloc calls)) (files calls (config_path options))
      default_config = (loaded, message, config)"
  shows "case main_configure calls args of
      Inl (status, left_over, printed) \<Rightarrow>
        class_path left_over = None \<and> (test_only options \<or> dump_config options \<or> loaded \<noteq> 0)
        \<and> (status = EXIT_SUCCESS \<longleftrightarrow> loaded = 0)
        \<and> (dump_config options \<longrightarrow> loaded = 0 \<longrightarrow> (\<exists>path. class_path config = Some path
            \<and> printed = bytes_of ''class_path '' @ [QUOTE] @ path @ [QUOTE, SEMICOLON, LF]))
    | Inr config' \<Rightarrow> loaded = 0 \<and> config' = config \<and> class_path config' \<noteq> None"
proof -
  have init: "ck_config_init False (config_malloc calls) \<lparr>class_path = None, class_path_configured = False\<rparr>
      = (0, default_config)"
    using assms(1) by (simp add: ck_config_init_def ck_config_copy_string_def default_config_def)
  have "class_path config \<noteq> None"
    using assms(3) config_loop_path [of _ _ _ _ default_config]
    by (auto simp: ck_config_load_file_def default_config_def split: if_splits sum.splits prod.splits)
  then obtain path where "class_path config = Some path" by blast
  then show ?thesis
    using assms(2,3) init
    by (simp add: main_configure_def check_result_def ck_config_destroy_def ck_config_dump_def)
qed

definition sample_main_calls :: main_calls where
  "sample_main_calls = \<lparr>config_malloc = True, handler_malloc = True,
     files = (\<lambda>p. if p = ''a.conf'' then Inr (bytes_of ''class_path x;'' @ [LF], False) else Inl ''No such file'')\<rparr>"

theorem main_configure_exits_witness:
  "main_configure sample_main_calls [''-T'', ''-c'', ''a.conf'']
    = Inl (EXIT_SUCCESS, \<lparr>class_path = None, class_path_configured = False\<rparr>,
        bytes_of ''class_path '' @ [QUOTE] @ bytes_of ''x'' @ [QUOTE, SEMICOLON, LF])
   \<and> (\<exists>status c printed. main_configure sample_main_calls [''-T'', ''-c'', ''a.conf''] = Inl (status, c, printed)
        \<and> status = EXIT_SUCCESS \<and> class_path c = None)"
proof -
  let ?o = "\<lparr>config_path = ''a.conf'', test_only = True, dump_config = True\<rparr>"
  have args: "parse_arguments [''-T'', ''-c'', ''a.conf''] default_options = (0, ?o)"
    by (simp add: default_options_def)
  have load: "ck_config_load_file False (main_directives (handler_malloc sample_main_calls))
      (files sample_main_calls (config_path ?o)) default_config
    = (0, None, \<lparr>class_path = Some (bytes_of ''x''), class_path_configured = True\<rparr>)"
    by code_simp
  show ?thesis
    using main_configure_exits [OF _ args load] args load
    by (simp add: main_configure_def sample_main_calls_def ck_config_init_def ck_config_copy_string_def
        default_config_def check_result_def ck_config_dump_def ck_config_destroy_def)
qed

text \<open>The wait for the completions.\<close>

lemma drain_quiet:
  assumes "rt_queue_initialized rt" "queue_wf (rt_queue rt)"
  obtains q where "ck_runtime_drain_completion_notification False [] rt = (0, rt\<lparr>rt_queue := q\<rparr>)" "queue_wf q"
    "queue_records q = queue_records (rt_queue rt)"
proof -
  have empty: "notification_drain_loop [] 0 = (0, 0)"
    by (subst notification_drain_loop.simps) simp
  have "fst (notification_drain_loop [] c) = 0" for c
    by (subst notification_drain_loop.simps) (simp add: empty)
  then have "fst (ck_completion_queue_drain_notification False [] (rt_queue rt)) = 0"
    using assms(2) by (simp add: ck_completion_queue_drain_notification_def ck_completion_notification_drain_def
        queue_wf_def case_prod_beta)
  then obtain q where q: "ck_completion_queue_drain_notification False [] (rt_queue rt) = (0, q)"
    by (metis prod.collapse)
  from drain_cases [OF assms(2) q] show ?thesis
    using assms(1) by (intro that [of q]) (simp_all add: ck_runtime_drain_completion_notification_def q)
qed

lemma wait_loop_idle:
  "list_all (\<lambda>w. wake_result w = - 4 \<or> wake_result w = 0) idle \<Longrightarrow> n < 2 \<Longrightarrow>
   \<exists>rt'. wait_loop calls (idle @ wakes) rt requests n = wait_loop calls wakes rt' requests n"
proof (induction idle arbitrary: rt)
  case (Cons w idle)
  then show ?case
    by (subst wait_loop.simps) auto
qed auto

definition running_pair :: "ck_request \<Rightarrow> ck_request \<Rightarrow> bool" where
  "running_pair r1 r2 \<longleftrightarrow> req_state r1 = CK_REQUEST_RUNNING \<and> req_state r2 = CK_REQUEST_RUNNING
     \<and> request_key r1 \<noteq> request_key r2"

definition success_for :: "ck_request \<Rightarrow> ck_completion_record \<Rightarrow> bool" where
  "success_for r c \<longleftrightarrow> completion_matches c r \<and> completion_status c = 0"


definition second_request :: ck_request where
  "second_request = sample_request\<lparr>req_descriptor := http_descriptor [] 1 None 0 8 2 2\<rparr>"

definition second_completion :: ck_completion_record where
  "second_completion = zero_record\<lparr>completion_request_id := 8, completion_owner_token := 2,
     completion_lifetime_token := 2, completion_cycle_id := 1\<rparr>"

definition answered_runtime :: ck_runtime where
  "answered_runtime = completed_runtime\<lparr>rt_queue := snd (ck_completion_queue_push False quiet_mutex No_fault
     (rt_queue completed_runtime) second_completion)\<rparr>"

lemma answered_runtime_queue:
  "queue_wf (rt_queue answered_runtime)"
  "queue_records (rt_queue answered_runtime) = [sample_completion, second_completion]"
  using quiet_push [OF completed_runtime_queue(1), of second_completion] completed_runtime_queue(2,3)
    length_queue_records [of "rt_queue completed_runtime"]
  by (simp_all add: answered_runtime_def CK_COMPLETION_QUEUE_CAPACITY_def)


end
