(* ===== verification/Ck_Program.thy ===== *)
theory Ck_Program
  imports Ck_Main
begin

text \<open>
  The whole of \<open>main\<close> in \<open>c/core/main.c\<close>: the phases of \<open>Ck_Main\<close> and, between them, the start of the
  runtime, the dispatch of the two requests, the event loop and the shutdown, with the exit of each
  phase.

  The program gives its exit status and what it leaves behind: the configuration record, and the runtime
  and the event loop if they were reached.  \<open>None\<close> means that it is still in its wait loop when
  the script of wake-ups ends.
\<close>

section \<open>The phases together\<close>

record serve_calls =
  serve_init :: init_calls
  serve_smoke :: smoke_calls
  serve_epoll_create :: "int + int"
  serve_epoll_add :: "int option"
  serve_epoll_close :: int
  serve_poll :: poll_calls
  serve_wakes :: "wake list"
  serve_shutdown :: shutdown_calls
  serve_shutdown_again :: shutdown_calls

type_synonym main_result = "exit_status \<times> ck_config \<times> ck_runtime option \<times> ck_event_loop option"

definition zero_event_loop :: ck_event_loop where
  "zero_event_loop = \<lparr>epoll_fd = 0, loop_initialized = False\<rparr>"

text \<open>The two calls with which an exit gives up a running runtime.\<close>

definition main_give_up :: "serve_calls \<Rightarrow> int \<times> jni_env \<Rightarrow> ck_runtime \<Rightarrow> ck_runtime" where
  "main_give_up calls thread runtime =
     ck_runtime_destroy False (snd (ck_runtime_shutdown False (serve_shutdown calls)
       (init_boot (serve_init calls)) thread runtime))"

text \<open>What follows a successful wait.\<close>

definition main_finish ::
  "serve_calls \<Rightarrow> int \<times> jni_env \<Rightarrow> ck_config \<Rightarrow> ck_runtime \<Rightarrow> exit_status \<times> ck_config \<times> ck_runtime" where
  "main_finish calls thread config runtime =
    (let boot = init_boot (serve_init calls);
         (result, runtime1) = ck_runtime_shutdown False (serve_shutdown calls) boot thread runtime in
     if check_result result \<noteq> 0
     then (EXIT_FAILURE, ck_config_destroy False config, ck_runtime_destroy False runtime1)
     else
       let (result_again, runtime2) = ck_runtime_shutdown False (serve_shutdown_again calls) boot thread runtime1 in
       (if check_result result_again \<noteq> 0 then EXIT_FAILURE else EXIT_SUCCESS,
        ck_config_destroy False config, ck_runtime_destroy False runtime2))"

text \<open>The event loop around the wait, and the decision on the count.\<close>

definition main_wait ::
  "serve_calls \<Rightarrow> int \<times> jni_env \<Rightarrow> ck_config \<Rightarrow> ck_runtime \<Rightarrow> ck_request list \<Rightarrow> main_result option" where
  "main_wait calls thread config runtime requests =
    (let (init_result, event_loop) = ck_event_loop_init False (serve_epoll_create calls) zero_event_loop;
         released = ck_config_destroy False config in
     if init_result \<noteq> 0
     then Some (EXIT_FAILURE, released, Some (main_give_up calls thread runtime), Some event_loop)
     else
       let (add_result, _) = ck_event_loop_add False (serve_epoll_add calls) event_loop (\<lambda>_. None)
             (ck_runtime_completion_fd (Some runtime)) 1 CK_EVENT_READ;
           closed = snd (ck_event_loop_destroy False (serve_epoll_close calls) event_loop) in
       if add_result \<noteq> 0
       then Some (EXIT_FAILURE, released, Some (main_give_up calls thread runtime), Some closed)
       else
         case wait_loop (serve_poll calls) (serve_wakes calls) runtime requests 0 of
           None \<Rightarrow> None
         | Some (runtime1, _, completed_count) \<Rightarrow>
             if check_result (if completed_count = 2 then 0 else -1) \<noteq> 0
             then Some (EXIT_FAILURE, released, Some (main_give_up calls thread runtime1), Some closed)
             else
               let (status, config1, runtime2) = main_finish calls thread config runtime1 in
               Some (status, config1, Some runtime2, Some closed))"

definition main_serve :: "serve_calls \<Rightarrow> ck_config \<Rightarrow> ck_request list \<Rightarrow> main_result option" where
  "main_serve calls config requests =
    (let (init_result, runtime, thread) =
           ck_runtime_init False (serve_init calls) zero_runtime (the (class_path config)) in
     if check_result init_result \<noteq> 0
     then Some (EXIT_FAILURE, ck_config_destroy False config, Some runtime, None)
     else
       let (submit_result, requests1, _) = ck_runtime_dispatch_async_smoke False
             (boot_methods (init_boot (serve_init calls))) (serve_smoke calls) runtime requests in
       if check_result submit_result \<noteq> 0
       then Some (EXIT_FAILURE, ck_config_destroy False config, Some (main_give_up calls (the thread) runtime), None)
       else main_wait calls (the thread) config runtime requests1)"

text \<open>\<open>parser\<close>, \<open>parsed\<close>, \<open>q1\<close> and \<open>q2\<close> are uninitialised locals, as in \<open>main_requests\<close>.\<close>

definition main_program ::
  "main_calls \<Rightarrow> serve_calls \<Rightarrow> ck_http_parser \<Rightarrow> ck_http_request \<Rightarrow> ck_request \<Rightarrow> ck_request \<Rightarrow> string list
   \<Rightarrow> main_result option" where
  "main_program calls serve parser parsed q1 q2 args =
    (case main_configure calls args of
       Inl (status, config, _) \<Rightarrow> Some (status, config, None, None)
     | Inr config \<Rightarrow>
         (case main_requests parser parsed q1 q2 of
            Inl status \<Rightarrow> Some (status, ck_config_destroy False config, None, None)
          | Inr requests \<Rightarrow> main_serve serve config requests))"

section \<open>What the program leaves behind\<close>

lemma main_configure_released: "main_configure calls args = Inl (status, config, printed) \<Longrightarrow> class_path config = None"
  by (auto simp: main_configure_def ck_config_init_def ck_config_destroy_def ck_config_copy_string_def
      check_result_def Let_def split: if_splits prod.splits)

text \<open>A shutdown that returns 0 has completed, so that destroy clears the runtime.\<close>

lemma shutdown_zero:
  assumes "ck_runtime_shutdown False calls boot thread runtime = (0, runtime1)"
  shows "rt_sync_initialized runtime1 \<and> rt_shutdown_complete runtime1"
  using assms
  by (auto simp: ck_runtime_shutdown_def bootstrap_end_def Let_def split: if_splits prod.splits)

lemma main_finish_released:
  assumes "main_finish calls thread config runtime = (status, config1, runtime1)"
  shows "class_path config1 = None" "status = EXIT_SUCCESS \<Longrightarrow> runtime1 = zero_runtime"
  using assms
  by (auto simp: main_finish_def check_result_def ck_config_destroy_def ck_runtime_destroy_def Let_def
      dest!: shutdown_zero split: if_splits prod.splits)

lemma main_wait_released:
  assumes "main_wait calls thread config runtime requests = Some (status, config1, left, loop)"
  shows "class_path config1 = None" "\<exists>l. loop = Some l \<and> \<not> loop_initialized l"
    "status = EXIT_SUCCESS \<Longrightarrow> left = Some zero_runtime"
  using assms
  by (auto simp: main_wait_def ck_config_destroy_def ck_event_loop_init_def ck_event_loop_destroy_def
      zero_event_loop_def Let_def split: if_splits prod.splits option.splits sum.splits
      dest: main_finish_released)

lemma main_requests_fail: "main_requests parser parsed q1 q2 = Inl status \<Longrightarrow> status = EXIT_FAILURE"
  by (auto simp: main_requests_def main_request_def Let_def split: sum.splits prod.splits if_splits)

text \<open>
  C30. Every way out of the program releases what it holds: whatever the environment does, if \<open>main\<close> returns, the
  configuration has been freed and the event loop, if there was one, closed; if it returns success,
  the runtime, if it was started, has been shut down and cleared.
\<close>

theorem main_releases:
  assumes "main_program calls serve parser parsed q1 q2 args = Some (status, config, runtime, loop)"
  shows "class_path config = None \<and> (\<forall>l. loop = Some l \<longrightarrow> \<not> loop_initialized l)
    \<and> (status = EXIT_SUCCESS \<longrightarrow> runtime = None \<or> runtime = Some zero_runtime)"
proof (cases "main_configure calls args")
  case (Inl a)
  with assms main_configure_released show ?thesis by (cases a) (auto simp: main_program_def)
next
  case (Inr config0)
  show ?thesis
  proof (cases "main_requests parser parsed q1 q2")
    case (Inl e)
    with assms Inr main_requests_fail [OF Inl] show ?thesis by (auto simp: main_program_def ck_config_destroy_def)
  next
    case (Inr requests)
    with assms \<open>main_configure calls args = Inr config0\<close>
    have "main_serve serve config0 requests = Some (status, config, runtime, loop)" by (simp add: main_program_def)
    then show ?thesis
      by (auto simp: main_serve_def ck_config_destroy_def Let_def split: if_splits prod.splits
          dest: main_wait_released)
  qed
qed

section \<open>The program with the repository's own class\<close>

text \<open>The two built-in requests parse and are accepted, whatever the uninitialised locals hold.\<close>

definition parses_whole :: "u8 list \<Rightarrow> ck_http_request \<Rightarrow> bool" where
  "parses_whole bytes parsed =
    (case ck_http_parser_feed False fresh_parser bytes parsed of
       (result, consumed, _, r) \<Rightarrow> result = CK_HTTP_PARSE_COMPLETE \<and> consumed = length bytes
         \<and> span_length (request_method r) \<le> CK_HTTP_MAX_METHOD_BYTES
         \<and> span_length (request_target r) \<le> CK_HTTP_MAX_TARGET_BYTES
         \<and> span_length (request_version r) \<le> CK_HTTP_MAX_VERSION_BYTES)"

lemma requests_parse: "parses_whole request_one parsed" "parses_whole request_two parsed"
  by code_simp+

lemma main_request_ok:
  assumes "parses_whole bytes parsed" "request_id \<noteq> 0" "unat request_id \<le> INT64_MAX"
    "unat owner_token \<le> INT64_MAX" "unat lifetime_token \<le> INT64_MAX"
  obtains r where "main_request parser parsed q bytes request_id owner_token lifetime_token = Inr r"
proof -
  obtain p r where feed: "ck_http_parser_feed False fresh_parser bytes parsed
      = (CK_HTTP_PARSE_COMPLETE, length bytes, p, r)"
    and spans: "span_length (request_method r) \<le> CK_HTTP_MAX_METHOD_BYTES"
      "span_length (request_target r) \<le> CK_HTTP_MAX_TARGET_BYTES"
      "span_length (request_version r) \<le> CK_HTTP_MAX_VERSION_BYTES"
    using assms(1) by (auto simp: parses_whole_def)
  obtain q' where "ck_request_init_http False q (parser_buffer p) r None 0 request_id owner_token lifetime_token = (0, q')"
    using init_http_accepts [of r None 0 request_id owner_token lifetime_token q "parser_buffer p"] spans assms(2-5)
    by (metis zero_le)
  moreover have "ck_http_parser_init parser = fresh_parser"
    by (cases parser) (simp add: ck_http_parser_init_def fresh_parser_def)
  ultimately show thesis
    using feed by (intro that [of q']) (simp add: main_request_def check_result_def)
qed

lemma main_requests_ok:
  obtains requests where "main_requests parser parsed q1 q2 = Inr requests"
proof -
  have tokens: "(0xC4A7A :: u64) \<noteq> 0" "(0xC4A7B :: u64) \<noteq> 0" "unat (0xC4A7A :: u64) \<le> INT64_MAX"
      "unat (0xC4A7B :: u64) \<le> INT64_MAX" "unat (1 :: u64) \<le> INT64_MAX" "unat (11 :: u64) \<le> INT64_MAX"
      "unat (2 :: u64) \<le> INT64_MAX" "unat (22 :: u64) \<le> INT64_MAX"
    by (simp_all add: INT64_MAX_def)
  obtain r1 where "main_request parser parsed q1 request_one 0xC4A7A 1 11 = Inr r1"
    using main_request_ok [OF requests_parse(1) tokens(1,3,5,6)] by blast
  moreover obtain r2 where "main_request parser parsed q2 request_two 0xC4A7B 2 22 = Inr r2"
    using main_request_ok [OF requests_parse(2) tokens(2,4,7,8)] by blast
  ultimately show thesis by (intro that [of "[r1, r2]"]) (simp add: main_requests_def)
qed

lemma main_request_pending:
  "main_request parser parsed q bytes request_id owner_token lifetime_token = Inr r \<Longrightarrow>
   req_state r = CK_REQUEST_PENDING \<and> request_key r = (request_id, owner_token, lifetime_token)"
  by (auto simp: main_request_def ck_request_init_http_def ck_request_init_def check_result_def request_key_def
      http_descriptor_def Let_def split: prod.splits if_splits option.splits)

lemma main_requests_pending:
  assumes "main_requests parser parsed q1 q2 = Inr requests"
  shows "requests \<noteq> []" "list_all (\<lambda>r. req_state r = CK_REQUEST_PENDING) requests"
    "distinct (map request_key requests)"
  using assms by (auto simp: main_requests_def split: sum.splits dest!: main_request_pending)

text \<open>A wake-up that finds no completion: an interrupted or empty wait, or a queue without records.\<close>

definition unanswered :: "wake \<Rightarrow> bool" where
  "unanswered w \<longleftrightarrow> wake_result w = - 4 \<or> wake_result w = 0
     \<or> (0 < wake_result w \<and> wake_faults w = [] \<and> rt_queue_initialized (wake_runtime w)
        \<and> queue_wf (rt_queue (wake_runtime w)) \<and> queue_records (rt_queue (wake_runtime w)) = [])"

lemma wait_loop_unanswered:
  assumes "list_all unanswered wakes" "requests \<noteq> []" "distinct (map request_key requests)"
  shows "wait_loop (quiet_poll u e) wakes rt requests 0 = None"
  using assms(1)
proof (induction wakes arbitrary: rt)
  case Nil
  show ?case by (subst wait_loop.simps) simp
next
  case (Cons w wakes)
  show ?case
  proof (cases "0 < wake_result w")
    case True
    then have w: "wake_faults w = []" "rt_queue_initialized (wake_runtime w)" "queue_wf (rt_queue (wake_runtime w))"
        "queue_records (rt_queue (wake_runtime w)) = []"
      using Cons.prems by (auto simp: unanswered_def)
    obtain q where q: "ck_runtime_drain_completion_notification False [] (wake_runtime w)
        = (0, (wake_runtime w)\<lparr>rt_queue := q\<rparr>)" "queue_wf q" "queue_records q = []"
      using drain_quiet [OF w(2,3)] w(4) by metis
    have "\<exists>rt'. poll_loop (CK_COMPLETION_QUEUE_CAPACITY + 1) (quiet_poll u e) ((wake_runtime w)\<lparr>rt_queue := q\<rparr>)
        requests 0 = Some (0, rt', requests, 0)"
      using poll_loop_finishes [of "(wake_runtime w)\<lparr>rt_queue := q\<rparr>" requests "CK_COMPLETION_QUEUE_CAPACITY + 1"
          u e 0] assms(2,3) w(2) q(2,3) by auto
    with True w(1) q(1) Cons show ?thesis
      by (subst wait_loop.simps) (auto simp del: poll_loop.simps)
  next
    case False
    with Cons show ?thesis by (subst wait_loop.simps) (auto simp: unanswered_def)
  qed
qed

text \<open>The descriptor under which the event loop watches the queue of a started runtime.\<close>

lemma init_completion_fd:
  assumes "ck_runtime_init False calls rt0 path = (0, rt, thread)" "init_queue_fd calls = Inr fd"
  shows "ck_runtime_completion_fd (Some rt) = fd" "\<not> rt_shutdown_requested rt"
  using assms
  by (auto simp: ck_runtime_init_def Let_def zero_runtime_def zero_queue_def bootstrap_begin_def ck_completion_queue_init_def
      ck_completion_notification_init_def ck_runtime_completion_fd_def ck_completion_queue_notify_fd_def
      ck_completion_notification_fd_def JNI_EINVAL_def
      split: if_splits prod.splits option.splits)

lemma watch_completions:
  assumes "0 \<le> fd" "loop_initialized l"
  shows "fst (ck_event_loop_add False None l (\<lambda>_. None) fd 1 CK_EVENT_READ) = 0"
  using assms by (simp add: ck_event_loop_add_def ck_event_to_epoll_def epoll_ctl_def event_masks)

text \<open>A start with the repository's class gets as far as the wait, with two failed requests.\<close>

definition starts_well :: "serve_calls \<Rightarrow> ck_config \<Rightarrow> ck_runtime \<Rightarrow> (int \<times> jni_env) option \<Rightarrow> bool" where
  "starts_well serve config rt thread \<longleftrightarrow>
     ck_runtime_init False (serve_init serve) zero_runtime (the (class_path config)) = (0, rt, thread)
     \<and> (\<exists>fd. init_queue_fd (serve_init serve) = Inr fd \<and> 0 \<le> fd)
     \<and> smoke_create (serve_smoke serve) = 0 \<and> smoke_join (serve_smoke serve) = 0
     \<and> attach_result (smoke_worker (serve_smoke serve)) = 0
     \<and> (\<exists>fd. serve_epoll_create serve = Inr fd) \<and> serve_epoll_add serve = None"

lemma own_class_dispatch:
  assumes "starts_well serve config rt thread" "boot_methods (init_boot (serve_init serve)) = CkartaRuntime_methods"
    and "list_all (\<lambda>r. req_state r = CK_REQUEST_PENDING) requests" "requests \<noteq> []"
  obtains env where "ck_runtime_dispatch_async_smoke False CkartaRuntime_methods (serve_smoke serve) rt requests
      = (0, map (\<lambda>r. r\<lparr>req_state := CK_REQUEST_FAILED, req_error := jni_failure r\<rparr>) requests, env)"
proof -
  obtain fd where "init_queue_fd (serve_init serve) = Inr fd"
    and init: "ck_runtime_init False (serve_init serve) zero_runtime (the (class_path config)) = (0, rt, thread)"
    using assms(1) by (auto simp: starts_well_def)
  then have up: "rt_vm rt" "\<not> rt_shutdown_complete rt" "\<not> rt_shutdown_requested rt"
    using init_runtime [OF init] init_completion_fd [OF init] by auto
  obtain oks requests' env where loop: "worker_loop CkartaRuntime_methods
      (worker_error_storage (smoke_worker (serve_smoke serve))) (worker_dispatch (smoke_worker (serve_smoke serve)))
      0 requests fresh_env = (oks, requests', env)"
    using prod_cases3 by blast
  with worker_loop_not_found [OF assms(3) loop] up assms(1,4) show thesis
    by (intro that [of env]) (simp add: starts_well_def ck_runtime_dispatch_async_smoke_def ck_worker_main_def Let_def)
qed

lemma main_program_waits:
  assumes "main_configure calls args = Inr config" "starts_well serve config rt thread"
    and "boot_methods (init_boot (serve_init serve)) = CkartaRuntime_methods"
  obtains requests where "requests \<noteq> []" "distinct (map request_key requests)"
    "list_all (\<lambda>r. req_state r = CK_REQUEST_FAILED) requests"
    "main_program calls serve parser parsed q1 q2 args = main_wait serve (the thread) config rt requests"
proof -
  obtain requests where requests: "main_requests parser parsed q1 q2 = Inr requests" by (rule main_requests_ok)
  note pending = main_requests_pending [OF requests]
  let ?failed = "map (\<lambda>r. r\<lparr>req_state := CK_REQUEST_FAILED, req_error := jni_failure r\<rparr>) requests"
  obtain env where "ck_runtime_dispatch_async_smoke False CkartaRuntime_methods (serve_smoke serve) rt requests
      = (0, ?failed, env)"
    using own_class_dispatch [OF assms(2,3) pending(2,1)] .
  then have "main_program calls serve parser parsed q1 q2 args = main_wait serve (the thread) config rt ?failed"
    using assms requests by (simp add: main_program_def main_serve_def starts_well_def check_result_def)
  moreover have "map request_key ?failed = map request_key requests" by (simp add: request_key_def)
  ultimately show thesis using pending by (intro that [of ?failed]) (simp_all add: list_all_iff del: map_map)
qed

lemma main_wait_unanswered:
  assumes "starts_well serve config rt thread" "requests \<noteq> []" "distinct (map request_key requests)"
    "serve_poll serve = quiet_poll u e" "list_all unanswered (serve_wakes serve)"
  shows "main_wait serve th config rt requests = None"
proof -
  obtain fd where fd: "init_queue_fd (serve_init serve) = Inr fd" "0 \<le> fd"
    and init: "ck_runtime_init False (serve_init serve) zero_runtime (the (class_path config)) = (0, rt, thread)"
    using assms(1) by (auto simp: starts_well_def)
  obtain epoll where "serve_epoll_create serve = Inr epoll" "serve_epoll_add serve = None"
    using assms(1) by (auto simp: starts_well_def)
  then show ?thesis
    using watch_completions [OF fd(2), of "zero_event_loop\<lparr>epoll_fd := epoll, loop_initialized := True\<rparr>"]
      init_completion_fd [OF init fd(1)] wait_loop_unanswered [OF assms(5,2,3)] assms(4)
    by (simp add: main_wait_def ck_event_loop_init_def case_prod_beta)
qed


section \<open>Witnesses\<close>

definition sample_serve :: "wake list \<Rightarrow> serve_calls" where
  "sample_serve wakes = \<lparr>serve_init = sample_init_calls, serve_smoke = good_smoke, serve_epoll_create = Inr 5,
     serve_epoll_add = None, serve_epoll_close = 0, serve_poll = quiet_poll zero_record sample_error,
     serve_wakes = wakes, serve_shutdown = quiet_shutdown, serve_shutdown_again = quiet_shutdown\<rparr>"

lemma sample_configure:
  "main_configure sample_main_calls [''-c'', ''a.conf'']
    = Inr \<lparr>class_path = Some (bytes_of ''x''), class_path_configured = True\<rparr>"
  by code_simp

lemma sample_start:
  "\<exists>rt thread. starts_well (sample_serve wakes) \<lparr>class_path = Some (bytes_of ''x''), class_path_configured = True\<rparr>
     rt thread \<and> ck_runtime_completion_fd (Some rt) = 9"
proof -
  obtain rt thread where init: "ck_runtime_init False sample_init_calls zero_runtime (bytes_of ''x'') = (0, rt, thread)"
    by (simp add: ck_runtime_init_def sample_init_calls_def ck_completion_queue_init_def
        ck_completion_notification_init_def bootstrap_begin_def sample_boot_def ck_call_start_def jni_defs
        fresh_env_def CkartaRuntime_methods_def JVM_OPTION_SIZE_def bytes_of_def)
  have fd: "init_queue_fd sample_init_calls = Inr 9" by (simp add: sample_init_calls_def)
  from init init_completion_fd(1) [OF init fd] fd show ?thesis
    by (intro exI [of _ rt] exI [of _ thread]) (simp add: starts_well_def sample_serve_def good_smoke_def)
qed

lemma sample_methods: "boot_methods (init_boot (serve_init (sample_serve wakes))) = CkartaRuntime_methods"
  by (simp add: sample_serve_def sample_init_calls_def sample_boot_def)

definition sample_wake :: "int \<Rightarrow> wake" where
  "sample_wake result = \<lparr>wake_result = result, wake_runtime = running_runtime, wake_faults = []\<rparr>"


text \<open>A run that reaches the event loop and then fails in its wait (EBADF).\<close>

theorem main_releases_witness:
  "\<exists>config runtime l. main_program sample_main_calls (sample_serve [sample_wake (-9)]) fresh_parser zero_request
       zero_ck_request zero_ck_request [''-c'', ''a.conf''] = Some (EXIT_FAILURE, config, runtime, Some l)
     \<and> class_path config = None \<and> \<not> loop_initialized l"
proof -
  let ?serve = "sample_serve [sample_wake (-9)]"
  let ?config = "\<lparr>class_path = Some (bytes_of ''x''), class_path_configured = True\<rparr>"
  let ?run = "main_program sample_main_calls ?serve fresh_parser zero_request zero_ck_request zero_ck_request
      [''-c'', ''a.conf'']"
  obtain rt thread where start: "starts_well ?serve ?config rt thread" "ck_runtime_completion_fd (Some rt) = 9"
    using sample_start by blast
  obtain requests where requests: "?run = main_wait ?serve (the thread) ?config rt requests"
    using main_program_waits [OF sample_configure start(1) sample_methods] by metis
  have "wait_loop (serve_poll ?serve) (serve_wakes ?serve) rt requests 0 = Some (running_runtime, requests, 0)"
    by (subst wait_loop.simps) (simp add: sample_serve_def sample_wake_def)
  moreover have "serve_epoll_create ?serve = Inr 5" "serve_epoll_add ?serve = None"
    by (simp_all add: sample_serve_def)
  ultimately have "\<exists>config runtime l. main_wait ?serve (the thread) ?config rt requests
      = Some (EXIT_FAILURE, config, runtime, Some l)"
    using watch_completions [of 9 "zero_event_loop\<lparr>epoll_fd := 5, loop_initialized := True\<rparr>"] start(2)
    by (simp add: main_wait_def ck_event_loop_init_def check_result_def case_prod_beta)
  then obtain config runtime l where run: "?run = Some (EXIT_FAILURE, config, runtime, Some l)"
    using requests by auto
  from main_releases [OF run] run show ?thesis by auto
qed

end
