(* ===== verification/Ck_Progress.thy ===== *)
theory Ck_Progress
  imports Ck_Prelude
begin

text \<open>
  Systems of threads that come to an end.

  An event is one step of one thread; it may be disabled (\<open>None\<close>).  A weight drops with every event,
  except that an event marked \<open>spurious\<close> (a condition variable that wakes a thread for no reason) may
  raise it by one; a state that is not final has an enabled event.  Then a run is no longer than its weight
  and its spurious events allow, and every run can be continued to a final state.
\<close>

fun run_events :: "('e \<Rightarrow> 's \<Rightarrow> 's option) \<Rightarrow> 'e list \<Rightarrow> 's \<Rightarrow> 's option" where
  "run_events exec [] s = Some s"
| "run_events exec (e # es) s = (case exec e s of None \<Rightarrow> None | Some s' \<Rightarrow> run_events exec es s')"

lemma run_events_append:
  "run_events exec (es @ fs) s = (case run_events exec es s of None \<Rightarrow> None | Some s' \<Rightarrow> run_events exec fs s')"
  by (induction es arbitrary: s) (auto split: option.splits)

text \<open>The number of threads below \<open>n\<close> that satisfy \<open>P\<close>, and sums over threads, when one thread moves.\<close>

lemma sum_thread_upd:
  fixes g :: "'t \<Rightarrow> nat" and i n :: nat
  assumes "i < n"
  shows "(\<Sum>j<n. g ((ts(i := t)) j)) + g (ts i) = (\<Sum>j<n. g (ts j)) + g t"
proof -
  have "(\<Sum>j<n. g ((ts(i := t)) j)) = g t + (\<Sum>j\<in>{..<n} - {i}. g ((ts(i := t)) j))"
    using assms by (subst sum.remove [of _ i]) auto
  also have "(\<Sum>j\<in>{..<n} - {i}. g ((ts(i := t)) j)) = (\<Sum>j\<in>{..<n} - {i}. g (ts j))"
    by (rule sum.cong) auto
  finally show ?thesis
    using assms by (subst (2) sum.remove [of _ i]) auto
qed

locale ending_system =
  fixes exec :: "'e \<Rightarrow> 's \<Rightarrow> 's option" and spurious :: "'e \<Rightarrow> bool"
    and inv :: "'s \<Rightarrow> bool" and final :: "'s \<Rightarrow> bool" and weight :: "'s \<Rightarrow> nat"
  assumes inv_step: "inv s \<Longrightarrow> exec e s = Some s' \<Longrightarrow> inv s'"
    and weight_step: "inv s \<Longrightarrow> exec e s = Some s' \<Longrightarrow> \<not> spurious e \<Longrightarrow> weight s' < weight s"
    and weight_spurious: "inv s \<Longrightarrow> exec e s = Some s' \<Longrightarrow> spurious e \<Longrightarrow> weight s' \<le> Suc (weight s)"
    and progress: "inv s \<Longrightarrow> \<not> final s \<Longrightarrow> \<exists>e s'. \<not> spurious e \<and> exec e s = Some s'"
begin

lemma run_inv: "inv s \<Longrightarrow> run_events exec es s = Some s' \<Longrightarrow> inv s'"
  by (induction es arbitrary: s) (auto split: option.splits intro: inv_step)

lemma run_bounded:
  "inv s \<Longrightarrow> run_events exec es s = Some s' \<Longrightarrow>
   length es + weight s' \<le> weight s + 2 * length (filter spurious es)"
proof (induction es arbitrary: s)
  case (Cons e es)
  then obtain s1 where s1: "exec e s = Some s1" "run_events exec es s1 = Some s'"
    by (auto split: option.splits)
  from Cons.IH [OF inv_step [OF Cons.prems(1) s1(1)] s1(2)]
    weight_step [OF Cons.prems(1) s1(1)] weight_spurious [OF Cons.prems(1) s1(1)]
  show ?case by (cases "spurious e") auto
qed simp

lemma run_to_final:
  "inv s \<Longrightarrow> \<exists>es s'. run_events exec es s = Some s' \<and> final s'"
proof (induction "weight s" arbitrary: s rule: less_induct)
  case less
  show ?case
  proof (cases "final s")
    case True
    then show ?thesis by (intro exI [of _ "[]"]) simp
  next
    case False
    with progress less.prems obtain e s1 where e: "\<not> spurious e" "exec e s = Some s1" by blast
    with less weight_step inv_step obtain es s' where "run_events exec es s1 = Some s'" "final s'" by blast
    with e(2) show ?thesis by (intro exI [of _ "e # es"]) auto
  qed
qed

text \<open>A run that cannot be continued has reached a final state.\<close>

lemma stuck_final:
  assumes "inv s" and "run_events exec es s = Some s'" and "\<And>e. \<not> spurious e \<Longrightarrow> exec e s' = None"
  shows "final s'"
  using progress [OF run_inv [OF assms(1,2)]] assms(3) by fastforce

end

end
