(* ===== verification/Ck_Bench.thy ===== *)
theory Ck_Bench
  imports Ck_Config Ck_Runtime Ck_Progress
begin

text \<open>
  The thread benchmark \<open>bench/jni/jni_thread_benchmark.c\<close>: its bounded queue of operations, the statistics, the
  command line and the bootstrap thread.  \<open>Ck_Bench_Run\<close> puts the threads together.

  A pointer to a worker's slot is the worker's number.  \<open>die\<close> ends the process.  An operation on the queue runs
  under its mutex and is one step; \<open>None\<close> means that the thread goes to sleep on the condition variable.
\<close>

section \<open>The queue of operations\<close>

definition QUEUE_CAPACITY :: nat where "QUEUE_CAPACITY = 1024"

record op_slot =
  slot_seq :: u64
  slot_completed_seq :: u64
  slot_bridge_start_ns :: u64
  slot_result :: u64

record op_queue =
  op_items :: "nat list"
  op_head :: nat
  op_tail :: nat
  op_size :: nat
  op_stopping :: bool

definition queue_init :: op_queue where
  "queue_init = \<lparr>op_items = replicate QUEUE_CAPACITY 0, op_head = 0, op_tail = 0, op_size = 0, op_stopping = False\<rparr>"

definition queue_stop :: "op_queue \<Rightarrow> op_queue" where
  "queue_stop queue = queue\<lparr>op_stopping := True\<rparr>"

definition queue_push :: "op_queue \<Rightarrow> nat \<Rightarrow> (int \<times> op_queue) option" where
  "queue_push queue slot =
    (if \<not> op_stopping queue \<and> op_size queue = QUEUE_CAPACITY then None
     else if op_stopping queue then Some (-1, queue)
     else Some (0, queue\<lparr>op_items := (op_items queue)[op_tail queue := slot],
                         op_tail := (op_tail queue + 1) mod QUEUE_CAPACITY, op_size := op_size queue + 1\<rparr>))"

definition queue_pop :: "op_queue \<Rightarrow> (nat option \<times> op_queue) option" where
  "queue_pop queue =
    (if \<not> op_stopping queue \<and> op_size queue = 0 then None
     else if op_size queue = 0 then Some (None, queue)
     else Some (Some (op_items queue ! op_head queue),
                queue\<lparr>op_head := (op_head queue + 1) mod QUEUE_CAPACITY, op_size := op_size queue - 1\<rparr>))"

definition op_wf :: "op_queue \<Rightarrow> bool" where
  "op_wf q \<longleftrightarrow> length (op_items q) = QUEUE_CAPACITY \<and> op_head q < QUEUE_CAPACITY \<and> op_size q \<le> QUEUE_CAPACITY
     \<and> op_tail q = (op_head q + op_size q) mod QUEUE_CAPACITY"

definition op_list :: "op_queue \<Rightarrow> nat list" where
  "op_list q = ring_view (op_items q) (op_head q) (op_size q)"

lemma length_op_list [simp]: "length (op_list q) = op_size q"
  by (simp add: op_list_def)

lemma capacity_pos [simp]: "0 < QUEUE_CAPACITY"
  by (simp add: QUEUE_CAPACITY_def)

lemma op_queue_init [simp]: "op_wf queue_init" "op_list queue_init = []" "\<not> op_stopping queue_init" "op_size queue_init = 0"
  by (simp_all add: queue_init_def op_wf_def op_list_def)

lemma queue_stop_simps [simp]:
  "op_wf (queue_stop q) = op_wf q" "op_list (queue_stop q) = op_list q" "op_stopping (queue_stop q)"
  "op_size (queue_stop q) = op_size q"
  by (simp_all add: queue_stop_def op_wf_def op_list_def)

lemma queue_push_some:
  assumes "op_wf q" "\<not> op_stopping q" "op_size q < QUEUE_CAPACITY"
  obtains q' where "queue_push q slot = Some (0, q')" "op_wf q'" "op_list q' = op_list q @ [slot]"
    "\<not> op_stopping q'" "op_size q' = Suc (op_size q)"
proof -
  let ?q = "q\<lparr>op_items := (op_items q)[op_tail q := slot],
      op_tail := (op_tail q + 1) mod QUEUE_CAPACITY, op_size := op_size q + 1\<rparr>"
  have "op_list ?q = op_list q @ [slot]"
    using assms ring_view_update [of "op_size q" "op_items q" "op_head q" slot]
    by (simp add: op_list_def op_wf_def)
  with assms show thesis
    by (intro that [of ?q]) (auto simp: queue_push_def op_wf_def mod_Suc_eq)
qed

lemma queue_pop_some:
  assumes "op_wf q" "queue_pop q = Some (r, q')"
  shows "op_wf q' \<and> op_stopping q' = op_stopping q
    \<and> (case r of None \<Rightarrow> op_stopping q \<and> op_list q = [] \<and> q' = q
       | Some slot \<Rightarrow> op_list q = slot # op_list q' \<and> op_size q = Suc (op_size q'))"
proof (cases "op_size q")
  case (Suc n)
  have "op_list q = op_items q ! op_head q # ring_view (op_items q) (op_head q + 1) n"
    using ring_view_append [of "op_items q" "op_head q" 1 n] assms(1) Suc
    by (simp add: op_list_def op_wf_def ring_view_def)
  moreover have "ring_view (op_items q) ((op_head q + 1) mod QUEUE_CAPACITY) n = ring_view (op_items q) (op_head q + 1) n"
    using assms(1) ring_view_mod [of "op_items q" "op_head q + 1" n] by (simp add: op_wf_def)
  ultimately show ?thesis
    using assms Suc by (auto simp: queue_pop_def op_list_def op_wf_def mod_simps)
qed (use assms in \<open>auto simp: queue_pop_def op_list_def split: if_splits\<close>)

text \<open>The queue keeps the contract of a bounded FIFO, one operation at a time.\<close>

definition op_enqueue :: "nat list \<Rightarrow> op_queue \<Rightarrow> nat list \<times> op_queue" where
  "op_enqueue xs q =
    (case xs of
       [x] \<Rightarrow> (case queue_push q x of None \<Rightarrow> ([], q) | Some (r, q') \<Rightarrow> (if r = 0 then [x] else [], q'))
     | _ \<Rightarrow> ([], q))"

definition op_dequeue :: "nat \<Rightarrow> op_queue \<Rightarrow> nat list \<times> op_queue" where
  "op_dequeue n q =
    (if n = 0 then ([], q)
     else case queue_pop q of
            None \<Rightarrow> ([], q) | Some (out, q') \<Rightarrow> (case out of None \<Rightarrow> [] | Some x \<Rightarrow> [x], q'))"

interpretation op_fifo: bounded_fifo op_wf "\<lambda>q. \<not> op_stopping q" "\<lambda>xs. length xs \<le> 1"
  op_list QUEUE_CAPACITY op_enqueue op_dequeue
proof (unfold_locales, goal_cases)
  case (1 q)
  then show ?case by (simp add: op_wf_def)
next
  case (2 q xs acc q')
  show ?case
  proof (cases "\<exists>x. xs = [x] \<and> \<not> op_stopping q \<and> op_size q < QUEUE_CAPACITY")
    case True
    then obtain x q1 where "xs = [x]" "queue_push q x = Some (0, q1)" "op_wf q1" "op_list q1 = op_list q @ [x]"
      using queue_push_some [OF 2(1)] by metis
    with 2(2) show ?thesis by (simp add: op_enqueue_def)
  next
    case False
    moreover have "op_size q \<le> QUEUE_CAPACITY" using 2(1) by (simp add: op_wf_def)
    ultimately have "acc = []" "q' = q"
      using 2(2) by (auto simp: op_enqueue_def queue_push_def split: list.splits if_splits)
    with 2(1) show ?thesis by simp
  qed
next
  case (3 q xs)
  show ?case
  proof (cases xs)
    case (Cons x ys)
    with 3 have "xs = [x]" "op_size q < QUEUE_CAPACITY" by simp_all
    moreover obtain q1 where "queue_push q x = Some (0, q1)"
      using queue_push_some [OF 3(1,2) \<open>op_size q < QUEUE_CAPACITY\<close>] by metis
    ultimately show ?thesis by (simp add: op_enqueue_def)
  qed (simp add: op_enqueue_def)
next
  case (4 q n out q')
  show ?case
  proof (cases "n = 0 \<or> queue_pop q = None")
    case False
    then obtain r where r: "queue_pop q = Some (r, q')" "out = (case r of None \<Rightarrow> [] | Some x \<Rightarrow> [x])" "n \<noteq> 0"
      using 4(2) by (auto simp: op_dequeue_def)
    from queue_pop_some [OF 4(1) r(1)] r(2,3) show ?thesis by (cases r) auto
  qed (use 4 in \<open>auto simp: op_dequeue_def split: if_splits\<close>)
next
  case (5 q n)
  then have "op_size q \<noteq> 0" by (metis length_0_conv length_op_list)
  with 5 show ?case by (simp add: op_dequeue_def queue_pop_def)
qed

text \<open>So the operations leave the queue in the order in which they were pushed.\<close>

lemma op_queue_order:
  assumes "queue_run op_enqueue op_dequeue ops queue_init = (accepted, delivered, q)"
  shows "accepted = delivered @ op_list q"
  using op_fifo.run_order [OF op_queue_init(1) assms] by simp

section \<open>Command line\<close>

fun digits_value :: "nat \<Rightarrow> u8 list \<Rightarrow> nat" where
  "digits_value acc [] = acc"
| "digits_value acc (b # bs) = (if 48 \<le> b \<and> b \<le> 57 then digits_value (acc * 10 + unat (b - 48)) bs else acc)"

text \<open>White space, a sign and digits: whether the value is negated, and its magnitude.\<close>

definition signed_digits :: "u8 list \<Rightarrow> bool \<times> nat" where
  "signed_digits bs =
    (case dropWhile c_isspace bs of
       [] \<Rightarrow> (False, 0)
     | b # rest \<Rightarrow> if b = 45 then (True, digits_value 0 rest)
                   else if b = 43 then (False, digits_value 0 rest) else (False, digits_value 0 (b # rest)))"

text \<open>\<open>atoi\<close> is undefined for a value that does not fit an \<open>int\<close> (\<open>None\<close>).\<close>

definition c_atoi :: "string \<Rightarrow> int option" where
  "c_atoi str =
    (let (negative, m) = signed_digits (bytes_of str); v = (if negative then - int m else int m) in
     if - (2 ^ 31) \<le> v \<and> v < 2 ^ 31 then Some v else None)"

text \<open>\<open>strtoull\<close> negates modulo \<open>2\<^sup>6\<^sup>4\<close> and saturates.\<close>

definition c_strtoull :: "string \<Rightarrow> u64" where
  "c_strtoull str =
    (let (negative, m) = signed_digits (bytes_of str) in
     if m \<ge> 2 ^ 64 then - 1 else if negative then - of_nat m else of_nat m)"

record bench_options =
  mode_bridge :: bool
  worker_count :: int
  bridge_count :: int
  iterations :: u64

text \<open>The arguments behind the program name; \<open>Inl\<close> is a message with which the program fails.\<close>

definition bench_arguments :: "string list \<Rightarrow> (string + bench_options) option" where
  "bench_arguments args =
    (if length args < 3 \<or> length args > 4 then Some (Inl ''usage'')
     else
       case c_atoi (args ! 1) of
         None \<Rightarrow> None
       | Some workers \<Rightarrow>
           let iters = c_strtoull (args ! 2); bridge = (args ! 0 = ''bridge'') in
           (case (if bridge then if length args = 4 then c_atoi (args ! 3) else Some 1 else Some 0) of
              None \<Rightarrow> None
            | Some bridges \<Rightarrow>
                Some (if workers \<le> 0 \<or> workers > 256 \<or> iters = 0 \<or> bridges < 0 \<or> bridges > 256
                      then Inl ''invalid benchmark arguments''
                      else if \<not> bridge \<and> args ! 0 \<noteq> ''direct'' then Inl ''MODE must be direct or bridge''
                      else Inr \<lparr>mode_bridge = bridge, worker_count = workers, bridge_count = bridges,
                                 iterations = iters\<rparr>)))"

section \<open>Statistics\<close>

text \<open>A failing clock ends the process (\<open>None\<close>).\<close>

definition now_ns :: "int \<Rightarrow> u64 \<Rightarrow> u64 \<Rightarrow> u64 option" where
  "now_ns result tv_sec tv_nsec = (if result \<noteq> 0 then None else Some (tv_sec * 1000000000 + tv_nsec))"

record worker_context =
  worker_total_ns :: u64
  worker_queue_wait_ns :: u64
  worker_min_ns :: u64
  worker_max_ns :: u64

definition zero_worker :: worker_context where
  "zero_worker = \<lparr>worker_total_ns = 0, worker_queue_wait_ns = 0, worker_min_ns = 0, worker_max_ns = 0\<rparr>"

definition stats_add :: "worker_context \<Rightarrow> u64 \<Rightarrow> u64 \<Rightarrow> worker_context" where
  "stats_add worker latency queue_wait =
     worker\<lparr>worker_total_ns := worker_total_ns worker + latency,
       worker_queue_wait_ns := worker_queue_wait_ns worker + queue_wait,
       worker_min_ns := (if worker_min_ns worker = 0 \<or> latency < worker_min_ns worker
         then latency else worker_min_ns worker),
       worker_max_ns := (if latency > worker_max_ns worker then latency else worker_max_ns worker)\<rparr>"

text \<open>The loop of \<open>main\<close> over the workers: total latency and queue wait, minimum and maximum.\<close>

fun bench_totals :: "worker_context list \<Rightarrow> u64 \<times> u64 \<times> u64 \<times> u64 \<Rightarrow> u64 \<times> u64 \<times> u64 \<times> u64" where
  "bench_totals [] acc = acc"
| "bench_totals (w # ws) (latency, wait, lo, hi) =
     bench_totals ws
       (latency + worker_total_ns w, wait + worker_queue_wait_ns w,
        if lo = 0 \<or> (worker_min_ns w \<noteq> 0 \<and> worker_min_ns w < lo) then worker_min_ns w else lo,
        if worker_max_ns w > hi then worker_max_ns w else hi)"

text \<open>What a worker has after its operations, given as pairs of latency and queue wait.\<close>

definition worker_stats :: "(u64 \<times> u64) list \<Rightarrow> worker_context" where
  "worker_stats xs = foldl (\<lambda>w (latency, wait). stats_add w latency wait) zero_worker xs"

lemma worker_stats_snoc: "worker_stats (xs @ [(l, q)]) = stats_add (worker_stats xs) l q"
  by (simp add: worker_stats_def)

lemma worker_stats_sums:
  "worker_total_ns (worker_stats xs) = sum_list (map fst xs)"
  "worker_queue_wait_ns (worker_stats xs) = sum_list (map snd xs)"
  by (induction xs rule: rev_induct)
    (auto simp: worker_stats_snoc stats_add_def, simp_all add: worker_stats_def zero_worker_def)

text \<open>
  The smallest and largest latency, as bounds that are reached.  For the smallest this needs that no
  latency is zero: zero is the mark for \<open>none yet\<close>.
\<close>

definition is_max :: "u64 \<Rightarrow> u64 set \<Rightarrow> bool" where
  "is_max m A \<longleftrightarrow> (\<forall>x\<in>A. x \<le> m) \<and> (m \<in> A \<or> m = 0 \<and> A = {})"

definition is_min :: "u64 \<Rightarrow> u64 set \<Rightarrow> bool" where
  "is_min m A \<longleftrightarrow> (\<forall>x\<in>A. m \<le> x) \<and> (m \<in> A \<or> m = 0 \<and> A = {})"

lemma is_max_insert: "is_max m A \<Longrightarrow> is_max (if m < x then x else m) (insert x A)"
  by (auto simp: is_max_def word_gt_0)

lemma is_min_insert: "is_min m A \<Longrightarrow> 0 \<notin> A \<Longrightarrow> is_min (if m = 0 \<or> x < m then x else m) (insert x A)"
  by (auto simp: is_min_def)

lemma worker_stats_bounds:
  "is_max (worker_max_ns (worker_stats xs)) (fst ` set xs)"
  "0 \<notin> fst ` set xs \<Longrightarrow> is_min (worker_min_ns (worker_stats xs)) (fst ` set xs)"
proof (induction xs rule: rev_induct)
  case (snoc x xs)
  { case 1 show ?case
      using is_max_insert [OF snoc.IH(1), of "fst x"]
      by (cases x) (auto simp: worker_stats_snoc stats_add_def split: if_splits) }
  { case 2 then show ?case
      using is_min_insert [OF snoc.IH(2), of "fst x"]
      by (cases x) (auto simp: worker_stats_snoc stats_add_def split: if_splits) }
qed (simp_all add: worker_stats_def zero_worker_def is_max_def is_min_def)

lemma is_max_Un: "is_max m A \<Longrightarrow> is_max n B \<Longrightarrow> is_max (if n > m then n else m) (A \<union> B)"
  by (auto simp: is_max_def word_gt_0)

lemma is_min_Un:
  "is_min m A \<Longrightarrow> is_min n B \<Longrightarrow> 0 \<notin> A \<Longrightarrow> 0 \<notin> B \<Longrightarrow> is_min (if m = 0 \<or> (n \<noteq> 0 \<and> n < m) then n else m) (A \<union> B)"
  by (auto simp: is_min_def)

lemma bench_totals_sums:
  assumes "is_max hi A"
  shows "case bench_totals (map worker_stats xss) (t, q, lo, hi) of (t', q', lo', hi') \<Rightarrow>
      t' = t + sum_list (map fst (concat xss)) \<and> q' = q + sum_list (map snd (concat xss))
      \<and> is_max hi' (A \<union> fst ` set (concat xss))"
  using assms
proof (induction xss arbitrary: A t q lo hi)
  case (Cons xs xss)
  from Cons.IH [OF is_max_Un [OF Cons.prems worker_stats_bounds(1) [of xs]], of "t + sum_list (map fst xs)"
      "q + sum_list (map snd xs)" "if lo = 0 \<or> (worker_min_ns (worker_stats xs) \<noteq> 0 \<and> worker_min_ns (worker_stats xs) < lo)
        then worker_min_ns (worker_stats xs) else lo"]
  show ?case by (auto simp: worker_stats_sums Un_assoc image_Un add.assoc split: prod.splits)
qed simp

lemma bench_totals_min:
  assumes "is_min lo A" "0 \<notin> A" "\<forall>xs \<in> set xss. 0 \<notin> fst ` set xs"
  shows "is_min (fst (snd (snd (bench_totals (map worker_stats xss) (t, q, lo, hi))))) (A \<union> fst ` set (concat xss))"
  using assms
proof (induction xss arbitrary: A t q lo hi)
  case (Cons xs xss)
  have "0 \<notin> fst ` set xs" using Cons.prems(3) by simp
  from is_min_Un [OF Cons.prems(1) worker_stats_bounds(2) [OF this] Cons.prems(2) this]
  show ?case
    using Cons.IH [of _ "A \<union> fst ` set xs"] Cons.prems \<open>0 \<notin> fst ` set xs\<close> by (simp add: Un_assoc image_Un)
qed simp

section \<open>Bootstrap\<close>

text \<open>
  The context that \<open>main\<close> and the bootstrap thread share; \<open>target_class\<close> tells whether its global reference is
  held, \<open>consume_method\<close> whether the pointer is set.  The thread's first part ends with its broadcast of \<open>ready\<close>.  \<open>Inl\<close> is a call
  of \<open>die\<close>.
\<close>

record bootstrap_context =
  target_class :: bool
  consume_method :: bool
  boot_ready :: bool
  boot_failed :: bool
  boot_shutdown :: bool

definition zero_bootstrap :: bootstrap_context where
  "zero_bootstrap = \<lparr>target_class = False, consume_method = False, boot_ready = False, boot_failed = False,
     boot_shutdown = False\<rparr>"

definition check_jni :: "jni_env \<Rightarrow> string + jni_env" where
  "check_jni env = (if env_pending env then Inl ''JNI failure'' else Inr env)"

record bench_boot_calls =
  bench_boot_thread :: int
  bench_create_vm :: int
  bench_class_found :: bool
  bench_global_ref :: bool
  bench_methods :: java_methods
  bench_alloc_workers :: bool
  bench_alloc_threads :: bool
  bench_alloc_bridges :: bool
  bench_create_bridge :: "nat \<Rightarrow> int"
  bench_create_worker :: "nat \<Rightarrow> int"

definition bootstrap_main :: "bench_boot_calls \<Rightarrow> string + bootstrap_context \<times> jni_env" where
  "bootstrap_main calls =
    (let failed = zero_bootstrap\<lparr>boot_failed := True, boot_ready := True\<rparr> in
     if length ''-Djava.class.path=build/classes'' \<ge> 512 then Inl ''classpath too long''
     else if bench_create_vm calls \<noteq> 0 then Inr (failed, fresh_env)
     else
       let (local_class, env1) = jni_find_class (bench_class_found calls) fresh_env in
       if \<not> local_class then Inr (failed, env1\<lparr>env_pending := False\<rparr>)
       else
         let env2 = jni_delete_ref Class_ref (enter_jni env1);
             (meth, env3) = jni_get_static_method (bench_methods calls) ''consume'' ''(J)J'' env2 in
         case check_jni env3 of
           Inl message \<Rightarrow> Inl message
         | Inr env4 \<Rightarrow> Inr (zero_bootstrap\<lparr>target_class := bench_global_ref calls, consume_method := meth,
                               boot_failed := \<not> meth, boot_ready := True\<rparr>, env4))"

text \<open>
  The wait of \<open>main\<close> for the first part; the rest of the thread, which sleeps (\<open>None\<close>) until the shutdown is requested;
  and the request and join by \<open>main\<close>.
\<close>

definition bench_wait_ready :: "bootstrap_context \<Rightarrow> string + bootstrap_context" where
  "bench_wait_ready bootstrap = (if boot_failed bootstrap then Inl ''JVM bootstrap failed'' else Inr bootstrap)"

definition bootstrap_exit :: "bootstrap_context \<Rightarrow> bootstrap_context option" where
  "bootstrap_exit bootstrap =
    (if \<not> boot_shutdown bootstrap then None
     else Some (if target_class bootstrap then bootstrap\<lparr>target_class := False\<rparr> else bootstrap))"

definition bench_shutdown :: "bootstrap_context \<Rightarrow> bootstrap_context option" where
  "bench_shutdown bootstrap = bootstrap_exit (bootstrap\<lparr>boot_shutdown := True\<rparr>)"

lemma bench_shutdown_releases: "\<exists>after. bench_shutdown bootstrap = Some after \<and> \<not> target_class after"
  by (simp add: bench_shutdown_def bootstrap_exit_def)

definition attach :: "int \<Rightarrow> int \<Rightarrow> int" where
  "attach get_env attach_current = (if get_env = 0 then 0 else if attach_current \<noteq> 0 then - 1 else 1)"

text \<open>
  \<open>main\<close> up to its joins: arguments, bootstrap thread, wait for \<open>ready\<close>, allocations and the threads.  The parameters
  are the results of \<open>pthread_create\<close>, of \<open>JNI_CreateJavaVM\<close> and of the allocations.
\<close>

definition bench_start_threads :: "bench_boot_calls \<Rightarrow> bench_options \<Rightarrow> string option" where
  "bench_start_threads calls options =
    (if \<not> bench_alloc_workers calls \<or> \<not> bench_alloc_threads calls
        \<or> bridge_count options > 0 \<and> \<not> bench_alloc_bridges calls then Some ''allocation failed''
     else if \<exists>i<nat (bridge_count options). bench_create_bridge calls i \<noteq> 0 then Some ''pthread_create bridge failed''
     else if \<exists>i<nat (worker_count options). bench_create_worker calls i \<noteq> 0 then Some ''pthread_create worker failed''
     else None)"

definition bench_setup ::
  "bench_boot_calls \<Rightarrow> string list \<Rightarrow> (string + bench_options \<times> bootstrap_context) option" where
  "bench_setup calls args =
    (case bench_arguments args of
       None \<Rightarrow> None
     | Some (Inl message) \<Rightarrow> Some (Inl message)
     | Some (Inr options) \<Rightarrow>
         Some (if bench_boot_thread calls \<noteq> 0 then Inl ''pthread_create bootstrap failed''
               else
                 case bootstrap_main calls of
                   Inl message \<Rightarrow> Inl message
                 | Inr (bootstrap, _) \<Rightarrow>
                     (case bench_wait_ready bootstrap of
                        Inl message \<Rightarrow> Inl message
                      | Inr ready \<Rightarrow>
                          (case bench_start_threads calls options of
                             Some message \<Rightarrow> Inl message
                           | None \<Rightarrow> Inr (options, ready)))))"

lemma bench_setup_ok:
  assumes "bench_setup calls args = Some (Inr (options, bootstrap))"
  shows "bench_arguments args = Some (Inr options)"
  using assms by (auto simp: bench_setup_def split: option.splits sum.splits if_splits)

text \<open>The threads start only with a loaded class that has the method the threads call.\<close>

lemma bench_setup_ready:
  assumes "bench_setup calls args = Some (Inr (options, bootstrap))"
  shows "consume_method bootstrap \<and> boot_ready bootstrap \<and> bench_class_found calls
    \<and> (''consume'', ''(J)J'') \<in> set (bench_methods calls)"
  using assms
  by (auto simp: bench_setup_def bootstrap_main_def bench_wait_ready_def zero_bootstrap_def Let_def check_jni_def
      jni_find_class_def jni_get_static_method_def split: option.splits sum.splits if_splits prod.splits)

text \<open>The class of the benchmark and its method (\<open>BenchmarkTarget.java\<close>).\<close>

definition BenchmarkTarget_methods :: java_methods where
  "BenchmarkTarget_methods = [(''consume'', ''(J)J'')]"

definition BenchmarkTarget_consume :: "u64 \<Rightarrow> u64" where
  "BenchmarkTarget_consume v = v + 1"

end
