(* ===== verification/Ck_Bench_Run.thy ===== *)
theory Ck_Bench_Run
  imports Ck_Bench
begin

text \<open>
  The threads of \<open>bench/jni/jni_thread_benchmark.c\<close> together: the workers, the bridge threads and the end
  of \<open>main\<close>, in any interleaving.

  A critical section is one step.  A thread asleep on a condition variable is moved on by a signal, which
  wakes one sleeper of the scheduler's choice, by a broadcast, or spuriously.  A reading of
  the clock is any value not below the last one.  The outcomes of attaching and of the Java method are
  parameters; an exception or a failed attachment ends the process (\<open>die\<close>).
\<close>

section \<open>The threads\<close>

record bench_conf =
  conf_bridge :: bool
  conf_workers :: nat
  conf_bridges :: nat
  conf_iterations :: nat
  conf_consume :: "u64 \<Rightarrow> u64 option"
  conf_worker_attach :: "nat \<Rightarrow> int \<times> int"
  conf_bridge_attach :: "nat \<Rightarrow> int \<times> int"

datatype worker_state =
    Worker_start
  | Worker_loop nat
  | Worker_push nat u64
  | Worker_full nat u64
  | Worker_check nat u64
  | Worker_wait nat u64
  | Worker_call nat u64
  | Worker_done

datatype bridge_state =
    Bridge_start
  | Bridge_pop
  | Bridge_wait
  | Bridge_call nat
  | Bridge_store nat u64 u64
  | Bridge_done

datatype main_state = Main_join_workers | Main_join_bridges | Main_done

text \<open>\<open>bench_log\<close> records the operations a worker has finished: sequence number, result, latency and wait.\<close>

record bench =
  bench_worker :: "nat \<Rightarrow> worker_state"
  bench_slot :: "nat \<Rightarrow> op_slot"
  bench_stats :: "nat \<Rightarrow> worker_context"
  bench_bridge :: "nat \<Rightarrow> bridge_state"
  bench_queue :: op_queue
  bench_main :: main_state
  bench_died :: bool
  bench_clock :: u64
  bench_log :: "nat \<Rightarrow> (u64 \<times> u64 \<times> u64 \<times> u64) list"

definition op_seq :: "nat \<Rightarrow> nat \<Rightarrow> u64" where
  "op_seq index i = push_bit 48 (of_nat (index + 1)) OR of_nat (i + 1)"

definition bench_die :: "bench \<Rightarrow> bench" where
  "bench_die s = s\<lparr>bench_died := True\<rparr>"

text \<open>\<open>pthread_cond_signal\<close> on \<open>not_empty\<close>, on \<open>not_full\<close> and on the condition of a slot.\<close>

definition signal_not_empty :: "bench_conf \<Rightarrow> nat option \<Rightarrow> bench \<Rightarrow> bench option" where
  "signal_not_empty conf k s =
    (case k of
       None \<Rightarrow> if \<exists>j<conf_bridges conf. bench_bridge s j = Bridge_wait then None else Some s
     | Some j \<Rightarrow> if j < conf_bridges conf \<and> bench_bridge s j = Bridge_wait
                 then Some (s\<lparr>bench_bridge := (bench_bridge s)(j := Bridge_pop)\<rparr>) else None)"

fun is_full :: "worker_state \<Rightarrow> bool" where
  "is_full (Worker_full n submitted) = True"
| "is_full w = False"

fun leave_full :: "worker_state \<Rightarrow> worker_state" where
  "leave_full (Worker_full n submitted) = Worker_push n submitted"
| "leave_full w = w"

fun leave_wait :: "worker_state \<Rightarrow> worker_state" where
  "leave_wait (Worker_wait n submitted) = Worker_check n submitted"
| "leave_wait w = w"

fun leave_empty :: "bridge_state \<Rightarrow> bridge_state" where
  "leave_empty Bridge_wait = Bridge_pop"
| "leave_empty b = b"

definition signal_not_full :: "bench_conf \<Rightarrow> nat option \<Rightarrow> bench \<Rightarrow> bench option" where
  "signal_not_full conf k s =
    (case k of
       None \<Rightarrow> if \<exists>i<conf_workers conf. is_full (bench_worker s i) then None else Some s
     | Some i \<Rightarrow> if i < conf_workers conf \<and> is_full (bench_worker s i)
                 then Some (s\<lparr>bench_worker := (bench_worker s)(i := leave_full (bench_worker s i))\<rparr>) else None)"

text \<open>The end of an operation: the statistics, the record and the next turn of the loop.\<close>

definition finish_op :: "nat \<Rightarrow> nat \<Rightarrow> u64 \<Rightarrow> u64 \<Rightarrow> u64 \<Rightarrow> u64 \<Rightarrow> bench \<Rightarrow> bench" where
  "finish_op i n result latency queue_wait t s =
     s\<lparr>bench_stats := (bench_stats s)(i := stats_add (bench_stats s i) latency queue_wait),
       bench_log := (bench_log s)(i := bench_log s i @ [(slot_seq (bench_slot s i), result, latency, queue_wait)]),
       bench_worker := (bench_worker s)(i := Worker_loop (Suc n)), bench_clock := t\<rparr>"

definition worker_at :: "nat \<Rightarrow> worker_state \<Rightarrow> bench \<Rightarrow> bench" where
  "worker_at i w s = s\<lparr>bench_worker := (bench_worker s)(i := w)\<rparr>"

definition bridge_at :: "nat \<Rightarrow> bridge_state \<Rightarrow> bench \<Rightarrow> bench" where
  "bridge_at j b s = s\<lparr>bench_bridge := (bench_bridge s)(j := b)\<rparr>"

fun worker_main :: "bench_conf \<Rightarrow> nat \<Rightarrow> u64 \<Rightarrow> nat option \<Rightarrow> worker_state \<Rightarrow> bench \<Rightarrow> bench option" where
  "worker_main conf i t k Worker_start s =
    Some (if \<not> conf_bridge conf \<and> attach (fst (conf_worker_attach conf i)) (snd (conf_worker_attach conf i)) < 0
          then bench_die s
          else worker_at i (Worker_loop 0)
            (s\<lparr>bench_slot := (bench_slot s)(i := \<lparr>slot_seq = 0, slot_completed_seq = - 1,
                 slot_bridge_start_ns = 0, slot_result = 0\<rparr>)\<rparr>))"
| "worker_main conf i t k (Worker_loop n) s =
    (if n < conf_iterations conf then
       if t < bench_clock s then None
       else Some (worker_at i (if conf_bridge conf then Worker_push n t else Worker_call n t)
              (s\<lparr>bench_slot := (bench_slot s)(i := (bench_slot s i)\<lparr>slot_seq := op_seq i n\<rparr>), bench_clock := t\<rparr>))
     else Some (worker_at i Worker_done s))"
| "worker_main conf i t k (Worker_push n submitted) s =
    (case queue_push (bench_queue s) i of
       None \<Rightarrow> Some (worker_at i (Worker_full n submitted) s)
     | Some (result, queue) \<Rightarrow>
         if result \<noteq> 0 then Some (bench_die s)
         else signal_not_empty conf k (worker_at i (Worker_check n submitted) (s\<lparr>bench_queue := queue\<rparr>)))"
| "worker_main conf i t k (Worker_check n submitted) s =
    (if slot_completed_seq (bench_slot s i) \<noteq> slot_seq (bench_slot s i)
     then Some (worker_at i (Worker_wait n submitted) s)
     else if t < bench_clock s then None
     else
       let bridge_start = slot_bridge_start_ns (bench_slot s i) in
       Some (finish_op i n (slot_result (bench_slot s i)) (t - submitted)
               (if bridge_start \<ge> submitted then bridge_start - submitted else 0) t s))"
| "worker_main conf i t k (Worker_call n submitted) s =
    (case conf_consume conf (slot_seq (bench_slot s i)) of
       None \<Rightarrow> Some (bench_die s)
     | Some result \<Rightarrow>
         if t < bench_clock s then None
         else Some (finish_op i n result (t - submitted) 0 t
                (s\<lparr>bench_slot := (bench_slot s)(i := (bench_slot s i)\<lparr>slot_result := result\<rparr>)\<rparr>)))"
| "worker_main conf i t k (Worker_full n submitted) s = None"
| "worker_main conf i t k (Worker_wait n submitted) s = None"
| "worker_main conf i t k Worker_done s = None"

fun bridge_main :: "bench_conf \<Rightarrow> nat \<Rightarrow> u64 \<Rightarrow> nat option \<Rightarrow> bridge_state \<Rightarrow> bench \<Rightarrow> bench option" where
  "bridge_main conf j t k Bridge_start s =
    Some (if attach (fst (conf_bridge_attach conf j)) (snd (conf_bridge_attach conf j)) < 0
          then bench_die s else bridge_at j Bridge_pop s)"
| "bridge_main conf j t k Bridge_pop s =
    (case queue_pop (bench_queue s) of
       None \<Rightarrow> Some (bridge_at j Bridge_wait s)
     | Some (None, queue) \<Rightarrow> Some (bridge_at j Bridge_done s)
     | Some (Some i, queue) \<Rightarrow> signal_not_full conf k (bridge_at j (Bridge_call i) (s\<lparr>bench_queue := queue\<rparr>)))"
| "bridge_main conf j t k (Bridge_call i) s =
    (if t < bench_clock s then None
     else
       case conf_consume conf (slot_seq (bench_slot s i)) of
         None \<Rightarrow> Some (bench_die s)
       | Some result \<Rightarrow> Some (bridge_at j (Bridge_store i t result) (s\<lparr>bench_clock := t\<rparr>)))"
| "bridge_main conf j t k (Bridge_store i start result) s =
    Some (bridge_at j Bridge_pop (worker_at i (leave_wait (bench_worker s i))
      (s\<lparr>bench_slot := (bench_slot s)(i := (bench_slot s i)\<lparr>slot_result := result, slot_bridge_start_ns := start,
           slot_completed_seq := slot_seq (bench_slot s i)\<rparr>)\<rparr>)))"
| "bridge_main conf j t k Bridge_wait s = None"
| "bridge_main conf j t k Bridge_done s = None"

text \<open>The end of \<open>main\<close>: join the workers, stop the queue, join the bridges.\<close>

definition bench_main_step :: "bench_conf \<Rightarrow> bench \<Rightarrow> bench option" where
  "bench_main_step conf s =
    (case bench_main s of
       Main_join_workers \<Rightarrow>
         if \<forall>i<conf_workers conf. bench_worker s i = Worker_done
         then Some (s\<lparr>bench_queue := queue_stop (bench_queue s),
                bench_bridge := (\<lambda>j. leave_empty (bench_bridge s j)),
                bench_worker := (\<lambda>i. leave_full (bench_worker s i)), bench_main := Main_join_bridges\<rparr>)
         else None
     | Main_join_bridges \<Rightarrow>
         if \<forall>j<conf_bridges conf. bench_bridge s j = Bridge_done then Some (s\<lparr>bench_main := Main_done\<rparr>) else None
     | Main_done \<Rightarrow> None)"

datatype bench_event =
    Worker_go nat u64 "nat option"
  | Bridge_go nat u64 "nat option"
  | Main_go
  | Worker_wakes nat
  | Bridge_wakes nat

fun spurious :: "bench_event \<Rightarrow> bool" where
  "spurious (Worker_wakes i) = True"
| "spurious (Bridge_wakes j) = True"
| "spurious e = False"

definition bench_exec :: "bench_conf \<Rightarrow> bench_event \<Rightarrow> bench \<Rightarrow> bench option" where
  "bench_exec conf e s =
    (if bench_died s then None
     else
       case e of
         Worker_go i t k \<Rightarrow> if i < conf_workers conf then worker_main conf i t k (bench_worker s i) s else None
       | Bridge_go j t k \<Rightarrow> if j < conf_bridges conf then bridge_main conf j t k (bench_bridge s j) s else None
       | Main_go \<Rightarrow> bench_main_step conf s
       | Worker_wakes i \<Rightarrow>
           if i < conf_workers conf then Some (worker_at i (leave_full (leave_wait (bench_worker s i))) s) else None
       | Bridge_wakes j \<Rightarrow>
           if j < conf_bridges conf then Some (bridge_at j (leave_empty (bench_bridge s j)) s) else None)"

text \<open>The state after \<open>main\<close> has created the threads.\<close>

definition bench_init :: "u64 \<Rightarrow> bench" where
  "bench_init start = \<lparr>bench_worker = (\<lambda>_. Worker_start),
     bench_slot = (\<lambda>_. \<lparr>slot_seq = 0, slot_completed_seq = 0, slot_bridge_start_ns = 0, slot_result = 0\<rparr>),
     bench_stats = (\<lambda>_. zero_worker), bench_bridge = (\<lambda>_. Bridge_start), bench_queue = queue_init,
     bench_main = Main_join_workers, bench_died = False, bench_clock = start, bench_log = (\<lambda>_. [])\<rparr>"

definition bench_over :: "bench \<Rightarrow> bool" where
  "bench_over s \<longleftrightarrow> bench_died s \<or> bench_main s = Main_done"

text \<open>The number of operations that \<open>main\<close> reports.\<close>

definition bench_total_ops :: "bench_conf \<Rightarrow> u64" where
  "bench_total_ops conf = of_nat (conf_workers conf) * of_nat (conf_iterations conf)"

section \<open>Sequence numbers\<close>

text \<open>A new sequence number differs from the one completed last, so that no worker sees a stale completion.\<close>

lemma op_seq_odd: "odd (op_seq i n) \<longleftrightarrow> even n"
proof -
  have "odd (op_seq i n) \<longleftrightarrow> bit (op_seq i n) 0" by (simp add: bit_0)
  also have "\<dots> \<longleftrightarrow> bit (of_nat (n + 1) :: u64) 0"
    by (simp add: op_seq_def bit_or_iff bit_push_bit_iff)
  also have "\<dots> \<longleftrightarrow> odd (n + 1)" by (simp add: bit_0)
  finally show ?thesis by simp
qed

lemma op_seq_next: "op_seq i n \<noteq> op_seq i (Suc n)"
  using op_seq_odd [of i n] op_seq_odd [of i "Suc n"] by auto

lemma op_seq_first: "op_seq i 0 \<noteq> - 1"
proof -
  have "\<not> bit (op_seq i 0) 1" by (simp add: op_seq_def bit_or_iff bit_push_bit_iff)
  moreover have "bit (- 1 :: u64) 1" by simp
  ultimately show ?thesis by metis
qed

section \<open>The invariant\<close>

fun holds :: "bridge_state \<Rightarrow> nat option" where
  "holds (Bridge_call i) = Some i"
| "holds (Bridge_store i start result) = Some i"
| "holds b = None"

text \<open>How often the operation of worker \<open>i\<close> is on its way: queued, or held by a bridge thread.\<close>

definition in_flight :: "bench_conf \<Rightarrow> bench \<Rightarrow> nat \<Rightarrow> nat" where
  "in_flight conf s i = count_list (op_list (bench_queue s)) i
     + (\<Sum>j<conf_bridges conf. of_bool (holds (bench_bridge s j) = Some i))"

definition awake :: "bench_conf \<Rightarrow> bench \<Rightarrow> nat" where
  "awake conf s = (\<Sum>j<conf_bridges conf. of_bool (bench_bridge s j = Bridge_pop))"

fun pending :: "worker_state \<Rightarrow> op_slot \<Rightarrow> bool" where
  "pending (Worker_check n submitted) slot = (slot_completed_seq slot \<noteq> slot_seq slot)"
| "pending (Worker_wait n submitted) slot = (slot_completed_seq slot \<noteq> slot_seq slot)"
| "pending w slot = False"

text \<open>The operations a worker has finished, as far as its control point tells.\<close>

fun worker_ok :: "bench_conf \<Rightarrow> nat \<Rightarrow> worker_state \<Rightarrow> op_slot \<Rightarrow> nat \<Rightarrow> bool" where
  "worker_ok conf i Worker_start slot m = (m = 0)"
| "worker_ok conf i (Worker_loop n) slot m =
    (m = n \<and> n \<le> conf_iterations conf
     \<and> (conf_bridge conf \<longrightarrow> slot_completed_seq slot = (if n = 0 then - 1 else op_seq i (n - 1))))"
| "worker_ok conf i (Worker_push n submitted) slot m =
    (m = n \<and> n < conf_iterations conf \<and> conf_bridge conf \<and> slot_seq slot = op_seq i n
     \<and> slot_completed_seq slot \<noteq> slot_seq slot)"
| "worker_ok conf i (Worker_full n submitted) slot m = False"
| "worker_ok conf i (Worker_check n submitted) slot m =
    (m = n \<and> n < conf_iterations conf \<and> conf_bridge conf \<and> slot_seq slot = op_seq i n
     \<and> (slot_completed_seq slot = slot_seq slot \<longrightarrow> conf_consume conf (slot_seq slot) = Some (slot_result slot)))"
| "worker_ok conf i (Worker_wait n submitted) slot m =
    (m = n \<and> n < conf_iterations conf \<and> conf_bridge conf \<and> slot_seq slot = op_seq i n
     \<and> slot_completed_seq slot \<noteq> slot_seq slot)"
| "worker_ok conf i (Worker_call n submitted) slot m =
    (m = n \<and> n < conf_iterations conf \<and> \<not> conf_bridge conf \<and> slot_seq slot = op_seq i n)"
| "worker_ok conf i Worker_done slot m = (m = conf_iterations conf)"

definition log_ok :: "bench_conf \<Rightarrow> nat \<Rightarrow> (u64 \<times> u64 \<times> u64 \<times> u64) list \<Rightarrow> bool" where
  "log_ok conf i log \<longleftrightarrow> (\<forall>m<length log. fst (log ! m) = op_seq i m
     \<and> conf_consume conf (op_seq i m) = Some (fst (snd (log ! m))))"

fun bridge_ok :: "bench_conf \<Rightarrow> bench \<Rightarrow> bridge_state \<Rightarrow> bool" where
  "bridge_ok conf s (Bridge_store i start result) =
    (conf_consume conf (slot_seq (bench_slot s i)) = Some result)"
| "bridge_ok conf s Bridge_wait = (\<not> op_stopping (bench_queue s) \<and> op_size (bench_queue s) \<le> awake conf s)"
| "bridge_ok conf s Bridge_done = op_stopping (bench_queue s)"
| "bridge_ok conf s b = True"

definition threads_ok :: "bench_conf \<Rightarrow> bench \<Rightarrow> bool" where
  "threads_ok conf s \<longleftrightarrow>
     (\<forall>i<conf_workers conf. worker_ok conf i (bench_worker s i) (bench_slot s i) (length (bench_log s i))
        \<and> log_ok conf i (bench_log s i) \<and> bench_stats s i = worker_stats (map (snd \<circ> snd) (bench_log s i)))
     \<and> (\<forall>j<conf_bridges conf. bridge_ok conf s (bench_bridge s j))
     \<and> (\<forall>i. in_flight conf s i = of_bool (i < conf_workers conf \<and> pending (bench_worker s i) (bench_slot s i)))"

definition main_ok :: "bench_conf \<Rightarrow> bench \<Rightarrow> bool" where
  "main_ok conf s \<longleftrightarrow> op_wf (bench_queue s) \<and> op_stopping (bench_queue s) = (bench_main s \<noteq> Main_join_workers)
     \<and> (bench_main s \<noteq> Main_join_workers \<longrightarrow> (\<forall>i<conf_workers conf. bench_worker s i = Worker_done))
     \<and> (bench_main s = Main_done \<longrightarrow> (\<forall>j<conf_bridges conf. bench_bridge s j = Bridge_done))"

definition bench_inv :: "bench_conf \<Rightarrow> bench \<Rightarrow> bool" where
  "bench_inv conf s \<longleftrightarrow> bench_died s \<or> threads_ok conf s \<and> main_ok conf s"

lemma in_flight_bridge:
  assumes "j < conf_bridges conf"
  shows "in_flight conf (s\<lparr>bench_bridge := (bench_bridge s)(j := b)\<rparr>) i + of_bool (holds (bench_bridge s j) = Some i)
    = in_flight conf s i + of_bool (holds b = Some i)"
  using sum_thread_upd [OF assms, of "\<lambda>b. of_bool (holds b = Some i)" "bench_bridge s" b]
  by (simp add: in_flight_def)

lemma awake_bridge:
  assumes "j < conf_bridges conf"
  shows "awake conf (s\<lparr>bench_bridge := (bench_bridge s)(j := b)\<rparr>) + of_bool (bench_bridge s j = Bridge_pop)
    = awake conf s + of_bool (b = Bridge_pop)"
  using sum_thread_upd [OF assms, of "\<lambda>b. of_bool (b = Bridge_pop)" "bench_bridge s" b]
  by (simp add: awake_def)

lemma in_flight_cong:
  "bench_queue s' = bench_queue s \<Longrightarrow> bench_bridge s' = bench_bridge s \<Longrightarrow> in_flight conf s' i = in_flight conf s i"
  "bench_bridge s' = bench_bridge s \<Longrightarrow> awake conf s' = awake conf s"
  by (simp_all add: in_flight_def awake_def)

lemma held_in_flight:
  assumes "j < conf_bridges conf" "holds (bench_bridge s j) = Some i"
  shows "0 < in_flight conf s i"
proof -
  have "0 < (\<Sum>j<conf_bridges conf. of_bool (holds (bench_bridge s j) = Some i) :: nat)"
    using assms by (subst sum.remove [of _ j]) auto
  then show ?thesis by (simp add: in_flight_def)
qed

lemma held_pending:
  assumes "threads_ok conf s" "j < conf_bridges conf" "holds (bench_bridge s j) = Some i"
  shows "i < conf_workers conf" "pending (bench_worker s i) (bench_slot s i)"
  using assms held_in_flight [OF assms(2,3)] by (auto simp: threads_ok_def)

text \<open>The queue never holds more operations than there are workers; a worker that pushes has none in it.\<close>

lemma queue_length_bound:
  assumes "threads_ok conf s" "\<not> pending (bench_worker s i) (bench_slot s i)" "i < conf_workers conf"
  shows "op_size (bench_queue s) < conf_workers conf"
proof -
  let ?q = "op_list (bench_queue s)"
  have "count_list ?q k \<le> in_flight conf s k" for k by (simp add: in_flight_def)
  moreover have "in_flight conf s k = of_bool (k < conf_workers conf \<and> pending (bench_worker s k) (bench_slot s k))" for k
    using assms(1) by (simp add: threads_ok_def)
  ultimately have "count_list ?q k \<le> of_bool (k < conf_workers conf \<and> pending (bench_worker s k) (bench_slot s k))" for k
    by metis
  note pend = this
  have le: "count_list ?q k \<le> of_bool (k < conf_workers conf \<and> k \<noteq> i)" for k
  proof (cases "k < conf_workers conf \<and> pending (bench_worker s k) (bench_slot s k)")
    case True
    then have "k \<noteq> i" using assms(2) by blast
    with True pend [of k] show ?thesis by simp
  next
    case False
    with pend [of k] have "count_list ?q k \<le> 0" by (simp only: of_bool_eq)
    then show ?thesis by simp
  qed
  have "k < conf_workers conf \<and> k \<noteq> i" if "k \<in> set ?q" for k
    using le [of k] that count_list_0_iff [of ?q k] by (cases "k < conf_workers conf \<and> k \<noteq> i") auto
  then have "set ?q \<subseteq> {..<conf_workers conf} - {i}" by auto
  moreover have "count_list ?q k \<le> 1" for k using le [of k] by (cases "k < conf_workers conf \<and> k \<noteq> i") auto
  ultimately have "length ?q \<le> (\<Sum>k\<in>{..<conf_workers conf} - {i}. 1)"
    using sum_count_set [of ?q "{..<conf_workers conf} - {i}"] sum_mono [of "{..<conf_workers conf} - {i}" "count_list ?q" "\<lambda>_. 1"]
    by simp
  then show ?thesis using assms(3) by simp
qed

lemma bridge_ok_mono:
  assumes "bridge_ok conf s b" "op_stopping (bench_queue s') = op_stopping (bench_queue s)"
    and "\<And>i. holds b = Some i \<Longrightarrow> slot_seq (bench_slot s' i) = slot_seq (bench_slot s i)"
    and "b = Bridge_wait \<Longrightarrow> op_size (bench_queue s) \<le> awake conf s \<Longrightarrow> op_size (bench_queue s') \<le> awake conf s'"
  shows "bridge_ok conf s' b"
  using assms by (cases b) auto

text \<open>A step of a worker that leaves the queue and the bridges alone.\<close>

lemma threads_ok_local:
  assumes "threads_ok conf s" "i < conf_workers conf"
    and "bench_queue s' = bench_queue s" "bench_bridge s' = bench_bridge s"
    and "\<And>k. k \<noteq> i \<Longrightarrow> bench_worker s' k = bench_worker s k \<and> bench_slot s' k = bench_slot s k
      \<and> bench_log s' k = bench_log s k \<and> bench_stats s' k = bench_stats s k"
    and "worker_ok conf i (bench_worker s' i) (bench_slot s' i) (length (bench_log s' i))"
    and "log_ok conf i (bench_log s' i)" "bench_stats s' i = worker_stats (map (snd \<circ> snd) (bench_log s' i))"
    and "pending (bench_worker s' i) (bench_slot s' i) = pending (bench_worker s i) (bench_slot s i)"
    and "pending (bench_worker s i) (bench_slot s i) \<Longrightarrow> slot_seq (bench_slot s' i) = slot_seq (bench_slot s i)"
  shows "threads_ok conf s'"
  unfolding threads_ok_def
proof (intro conjI allI impI)
  fix k assume k: "k < conf_workers conf"
  then show "worker_ok conf k (bench_worker s' k) (bench_slot s' k) (length (bench_log s' k))"
    and "log_ok conf k (bench_log s' k)" and "bench_stats s' k = worker_stats (map (snd \<circ> snd) (bench_log s' k))"
    using assms(1,5-8) by (cases "k = i"; simp add: threads_ok_def)+
next
  fix j assume j: "j < conf_bridges conf"
  have "bridge_ok conf s (bench_bridge s j)" using assms(1) j by (simp add: threads_ok_def)
  then have "bridge_ok conf s' (bench_bridge s j)"
  proof (rule bridge_ok_mono)
    fix k assume "holds (bench_bridge s j) = Some k"
    from held_pending(2) [OF assms(1) j this] show "slot_seq (bench_slot s' k) = slot_seq (bench_slot s k)"
      using assms(5,10) by (cases "k = i") auto
  qed (simp_all add: assms(3) in_flight_cong(2) [OF assms(4)])
  then show "bridge_ok conf s' (bench_bridge s' j)" by (simp add: assms(4))
next
  fix k
  have "in_flight conf s k = of_bool (k < conf_workers conf \<and> pending (bench_worker s k) (bench_slot s k))"
    using assms(1) by (simp add: threads_ok_def)
  then show "in_flight conf s' k = of_bool (k < conf_workers conf \<and> pending (bench_worker s' k) (bench_slot s' k))"
    using assms(5,9) in_flight_cong(1) [OF assms(3,4)] by (cases "k = i") simp_all
qed

text \<open>A step of a bridge thread that neither takes nor returns an operation.\<close>

lemma threads_ok_bridge:
  assumes "threads_ok conf s" "j < conf_bridges conf"
    and "holds b = holds (bench_bridge s j)"
    and "bridge_ok conf (s\<lparr>bench_bridge := (bench_bridge s)(j := b), bench_clock := t\<rparr>) b"
    and "bench_bridge s j = Bridge_pop \<Longrightarrow> b \<noteq> Bridge_pop \<Longrightarrow> op_size (bench_queue s) = 0"
  shows "threads_ok conf (s\<lparr>bench_bridge := (bench_bridge s)(j := b), bench_clock := t\<rparr>)"
  unfolding threads_ok_def
proof (intro conjI allI impI)
  let ?s = "s\<lparr>bench_bridge := (bench_bridge s)(j := b), bench_clock := t\<rparr>"
  fix k assume "k < conf_bridges conf"
  moreover from this have "bridge_ok conf s (bench_bridge s k)" using assms(1) by (simp add: threads_ok_def)
  moreover have "awake conf ?s + of_bool (bench_bridge s j = Bridge_pop) = awake conf s + of_bool (b = Bridge_pop)"
    using awake_bridge [OF assms(2), of s b] by (simp add: awake_def)
  then have "op_size (bench_queue s) \<le> awake conf s \<Longrightarrow> op_size (bench_queue s) \<le> awake conf ?s"
    using assms(5) by (cases "bench_bridge s j = Bridge_pop"; cases "b = Bridge_pop") auto
  ultimately show "bridge_ok conf ?s (bench_bridge ?s k)"
    using assms(4) by (cases "k = j") (auto elim!: bridge_ok_mono)
next
  fix i
  let ?s = "s\<lparr>bench_bridge := (bench_bridge s)(j := b), bench_clock := t\<rparr>"
  have "in_flight conf ?s i = in_flight conf s i"
    using in_flight_bridge [OF assms(2), of s b i] assms(3) by (simp add: in_flight_def)
  then show "in_flight conf ?s i = of_bool (i < conf_workers conf \<and> pending (bench_worker ?s i) (bench_slot ?s i))"
    using assms(1) by (simp add: threads_ok_def)
qed (use assms(1) in \<open>simp_all add: threads_ok_def\<close>)

section \<open>Every step keeps the invariant\<close>

lemma threads_okD:
  assumes "threads_ok conf s" "i < conf_workers conf"
  shows "worker_ok conf i (bench_worker s i) (bench_slot s i) (length (bench_log s i))"
    and "log_ok conf i (bench_log s i)" and "bench_stats s i = worker_stats (map (snd \<circ> snd) (bench_log s i))"
  using assms by (simp_all add: threads_ok_def)

lemma log_ok_snoc:
  assumes "log_ok conf i log" "seq = op_seq i (length log)" "conf_consume conf seq = Some result"
  shows "log_ok conf i (log @ [(seq, result, l, q)])"
  using assms by (auto simp: log_ok_def nth_append less_Suc_eq)

lemma finish_op_ok:
  assumes "threads_ok conf s" "i < conf_workers conf" "slot_seq (bench_slot s i) = op_seq i n"
    and "length (bench_log s i) = n" "n < conf_iterations conf" "conf_consume conf (op_seq i n) = Some result"
    and "\<not> pending (bench_worker s i) (bench_slot s i)"
    and "conf_bridge conf \<Longrightarrow> slot_completed_seq (bench_slot s i) = op_seq i n"
    and "slot_seq slot = slot_seq (bench_slot s i)" "slot_completed_seq slot = slot_completed_seq (bench_slot s i)"
  shows "threads_ok conf (finish_op i n result l q t (s\<lparr>bench_slot := (bench_slot s)(i := slot)\<rparr>))"
proof (rule threads_ok_local [OF assms(1,2)])
  let ?s = "finish_op i n result l q t (s\<lparr>bench_slot := (bench_slot s)(i := slot)\<rparr>)"
  show "log_ok conf i (bench_log ?s i)"
    using log_ok_snoc [OF threads_okD(2) [OF assms(1,2)]] assms(3-6,9) by (simp add: finish_op_def)
  show "bench_stats ?s i = worker_stats (map (snd \<circ> snd) (bench_log ?s i))"
    using threads_okD(3) [OF assms(1,2)] by (simp add: finish_op_def worker_stats_snoc)
qed (use assms in \<open>simp_all add: finish_op_def\<close>)

text \<open>A successful push: the queue grows by one and one sleeping bridge thread, if there is any, is woken.\<close>

lemma threads_ok_push:
  assumes "threads_ok conf s" "i < conf_workers conf" "bench_worker s i = Worker_push n submitted"
    and "op_list q = op_list (bench_queue s) @ [i]" "op_stopping q = op_stopping (bench_queue s)"
      "op_size q = Suc (op_size (bench_queue s))"
    and "signal_not_empty conf k (worker_at i (Worker_check n submitted) (s\<lparr>bench_queue := q\<rparr>)) = Some s'"
  shows "threads_ok conf s'"
proof -
  have fields: "bench_worker s' = (bench_worker s)(i := Worker_check n submitted)" "bench_slot s' = bench_slot s"
    "bench_log s' = bench_log s" "bench_stats s' = bench_stats s" "bench_queue s' = q"
    using assms(7) by (auto simp: signal_not_empty_def worker_at_def split: option.splits if_splits)
  have ok: "worker_ok conf i (Worker_push n submitted) (bench_slot s i) (length (bench_log s i))"
    using threads_okD(1) [OF assms(1,2)] unfolding assms(3) .
  have holds: "holds (bench_bridge s' j) = holds (bench_bridge s j)" for j
    using assms(7) by (auto simp: signal_not_empty_def worker_at_def split: option.splits if_splits)
  have count: "in_flight conf s' m = in_flight conf s m + of_bool (m = i)" for m
    by (simp add: in_flight_def holds fields assms(4))
  have awake: "Suc (awake conf s) \<le> awake conf s'" if "j < conf_bridges conf" "bench_bridge s' j = Bridge_wait" for j
  proof (cases k)
    case None
    with assms(7) that show ?thesis by (auto simp: signal_not_empty_def worker_at_def split: if_splits)
  next
    case (Some j')
    then have j': "j' < conf_bridges conf" "bench_bridge s j' = Bridge_wait"
      "bench_bridge s' = (bench_bridge s)(j' := Bridge_pop)"
      using assms(7) by (auto simp: signal_not_empty_def worker_at_def split: if_splits)
    with awake_bridge [OF j'(1), of s Bridge_pop] show ?thesis by (simp add: awake_def)
  qed
  have "bridge_ok conf s' (bench_bridge s' j)" if j: "j < conf_bridges conf" for j
  proof -
    have old: "bridge_ok conf s (bench_bridge s j)" using assms(1) j by (simp add: threads_ok_def)
    show ?thesis
    proof (cases "bench_bridge s' j = bench_bridge s j")
      case True
      from old have "bridge_ok conf s' (bench_bridge s j)"
        by (rule bridge_ok_mono) (use awake [OF j] True assms(5,6) fields in auto)
      with True show ?thesis by simp
    next
      case False
      then have "bench_bridge s' j = Bridge_pop"
        using assms(7) by (auto simp: signal_not_empty_def worker_at_def split: option.splits if_splits)
      then show ?thesis by simp
    qed
  qed
  moreover have "in_flight conf s' m = of_bool (m < conf_workers conf \<and> pending (bench_worker s' m) (bench_slot s' m))" for m
  proof -
    have "in_flight conf s m = of_bool (m < conf_workers conf \<and> pending (bench_worker s m) (bench_slot s m))"
      using assms(1) by (simp add: threads_ok_def)
    then show ?thesis using assms(2,3) ok by (auto simp: count fields)
  qed
  moreover have "worker_ok conf i (Worker_check n submitted) (bench_slot s i) (length (bench_log s i))"
    using ok by auto
  ultimately show ?thesis using assms(1) by (simp add: threads_ok_def fields del: worker_ok.simps)
qed

text \<open>A bridge thread takes an operation; nobody sleeps on \<open>not_full\<close>.\<close>

lemma no_worker_full: "threads_ok conf s \<Longrightarrow> i < conf_workers conf \<Longrightarrow> \<not> is_full (bench_worker s i)"
  using threads_okD(1) [of conf s i] by (cases "bench_worker s i") auto

lemma signal_not_full_none:
  assumes "threads_ok conf s" "bench_worker s1 = bench_worker s" "signal_not_full conf k s1 = Some s'"
  shows "s' = s1"
  using assms no_worker_full [OF assms(1)] by (auto simp: signal_not_full_def split: option.splits if_splits)

lemma threads_ok_take:
  assumes "threads_ok conf s" "j < conf_bridges conf" "bench_bridge s j = Bridge_pop"
    and "op_list (bench_queue s) = i # op_list q" "op_stopping q = op_stopping (bench_queue s)"
      "op_size (bench_queue s) = Suc (op_size q)"
  shows "threads_ok conf (bridge_at j (Bridge_call i) (s\<lparr>bench_queue := q\<rparr>))"
  unfolding threads_ok_def
proof (intro conjI allI impI)
  let ?s = "bridge_at j (Bridge_call i) (s\<lparr>bench_queue := q\<rparr>)"
  fix k assume k: "k < conf_bridges conf"
  have old: "bridge_ok conf s (bench_bridge s k)" using assms(1) k by (simp add: threads_ok_def)
  have "awake conf ?s + 1 = awake conf s"
    using awake_bridge [OF assms(2), of s "Bridge_call i"] assms(3) by (simp add: awake_def bridge_at_def)
  then have "bridge_ok conf ?s (bench_bridge s k)"
    using assms(5,6) by (intro bridge_ok_mono [OF old]) (auto simp: bridge_at_def)
  then show "bridge_ok conf ?s (bench_bridge ?s k)" by (cases "k = j") (simp_all add: bridge_at_def)
next
  let ?s = "bridge_at j (Bridge_call i) (s\<lparr>bench_queue := q\<rparr>)"
  fix m
  have "in_flight conf (s\<lparr>bench_queue := q\<rparr>) m + of_bool (m = i) = in_flight conf s m"
    by (simp add: in_flight_def assms(4))
  moreover have "in_flight conf ?s m = in_flight conf (s\<lparr>bench_queue := q\<rparr>) m + of_bool (m = i)"
    using in_flight_bridge [OF assms(2), of "s\<lparr>bench_queue := q\<rparr>" "Bridge_call i" m] assms(3)
    by (auto simp: bridge_at_def)
  ultimately show "in_flight conf ?s m = of_bool (m < conf_workers conf \<and> pending (bench_worker ?s m) (bench_slot ?s m))"
    using assms(1) by (simp add: threads_ok_def bridge_at_def)
qed (use assms(1) in \<open>simp_all add: threads_ok_def bridge_at_def\<close>)

text \<open>A bridge thread returns an operation.\<close>

lemma threads_ok_store:
  assumes "threads_ok conf s" "j < conf_bridges conf" "bench_bridge s j = Bridge_store i start result"
    and "bridge_main conf j t k (Bridge_store i start result) s = Some s'"
  shows "threads_ok conf s'"
proof -
  let ?slot = "(bench_slot s i)\<lparr>slot_result := result, slot_bridge_start_ns := start,
      slot_completed_seq := slot_seq (bench_slot s i)\<rparr>"
  have s': "bench_bridge s' = (bench_bridge s)(j := Bridge_pop)" "bench_slot s' = (bench_slot s)(i := ?slot)"
    "bench_worker s' = (bench_worker s)(i := leave_wait (bench_worker s i))" "bench_queue s' = bench_queue s"
    "bench_log s' = bench_log s" "bench_stats s' = bench_stats s"
    using assms(4) by (auto simp: bridge_at_def worker_at_def)
  have i: "i < conf_workers conf" "pending (bench_worker s i) (bench_slot s i)"
    using held_pending [OF assms(1,2)] assms(3) by auto
  have result: "conf_consume conf (slot_seq (bench_slot s i)) = Some result"
    using assms(1-3) unfolding threads_ok_def by (metis bridge_ok.simps(1))
  have worker: "worker_ok conf i (leave_wait (bench_worker s i)) ?slot (length (bench_log s i))"
      "\<not> pending (leave_wait (bench_worker s i)) ?slot"
    using threads_okD(1) [OF assms(1) i(1)] i(2) result by (cases "bench_worker s i"; simp)+
  have "awake conf s' = Suc (awake conf s)"
    using awake_bridge [OF assms(2), of s Bridge_pop] assms(3) s'(1) by (simp add: awake_def)
  then have "bridge_ok conf s' (bench_bridge s' k)" if "k < conf_bridges conf" for k
    using assms(1) that by (cases "k = j") (auto simp: threads_ok_def s' elim!: bridge_ok_mono)
  moreover have "in_flight conf s' m = of_bool (m < conf_workers conf \<and> pending (bench_worker s' m) (bench_slot s' m))" for m
  proof -
    have "in_flight conf s' m + of_bool (m = i) = in_flight conf s m"
      using in_flight_bridge [OF assms(2), of s Bridge_pop m] assms(3)
        in_flight_cong(1) [of s' "s\<lparr>bench_bridge := (bench_bridge s)(j := Bridge_pop)\<rparr>" conf m] s'(1,4) by auto
    moreover have "in_flight conf s m = of_bool (m < conf_workers conf \<and> pending (bench_worker s m) (bench_slot s m))"
      using assms(1) by (simp add: threads_ok_def)
    ultimately show ?thesis using i worker(2) by (cases "m = i") (simp_all add: s')
  qed
  ultimately show ?thesis using assms(1) worker(1) by (simp add: threads_ok_def s')
qed

text \<open>A thread step seen from \<open>main\<close>, which is still joining the workers.\<close>

lemma main_ok_running:
  assumes "main_ok conf s" "i < conf_workers conf" "bench_worker s i \<noteq> Worker_done"
  shows "bench_main s = Main_join_workers" "\<not> op_stopping (bench_queue s)"
  using assms by (auto simp: main_ok_def)

lemma main_ok_keep:
  assumes "main_ok conf s" "bench_main s = Main_join_workers" "bench_main s' = bench_main s"
    and "bench_queue s' = bench_queue s \<or> op_wf (bench_queue s') \<and> \<not> op_stopping (bench_queue s')"
  shows "main_ok conf s'"
  using assms by (auto simp: main_ok_def)

text \<open>A local step of a worker, as in \<open>threads_ok_local\<close>, keeps the whole invariant.\<close>

lemma worker_local_inv:
  assumes "threads_ok conf s" "main_ok conf s" "i < conf_workers conf" "bench_worker s i \<noteq> Worker_done"
    and "s' = worker_at i w (s\<lparr>bench_slot := (bench_slot s)(i := slot), bench_clock := t\<rparr>)"
    and "worker_ok conf i w slot (length (bench_log s i))"
    and "pending w slot = pending (bench_worker s i) (bench_slot s i)"
    and "pending w slot \<Longrightarrow> slot_seq slot = slot_seq (bench_slot s i)"
  shows "bench_inv conf s'"
proof -
  have "threads_ok conf s'"
    by (rule threads_ok_local [OF assms(1,3)])
      (use assms(5-8) threads_okD [OF assms(1,3)] in \<open>simp_all add: worker_at_def\<close>)
  moreover have "main_ok conf s'"
    by (rule main_ok_keep [OF assms(2)]) (use main_ok_running [OF assms(2-4)] assms(5) in \<open>simp_all add: worker_at_def\<close>)
  ultimately show ?thesis by (simp add: bench_inv_def)
qed

lemma finish_op_inv:
  assumes "threads_ok conf s" "main_ok conf s" "i < conf_workers conf" "bench_worker s i \<noteq> Worker_done"
    and "threads_ok conf (finish_op i n result l q t s1)" "bench_main s1 = bench_main s" "bench_queue s1 = bench_queue s"
  shows "bench_inv conf (finish_op i n result l q t s1)"
  using assms main_ok_keep [OF assms(2)] main_ok_running [OF assms(2-4)] by (simp add: bench_inv_def finish_op_def)

lemma worker_loop_inv:
  assumes "threads_ok conf s" "main_ok conf s" "i < conf_workers conf" "bench_worker s i = Worker_loop n"
    and "worker_main conf i t k (Worker_loop n) s = Some s'"
  shows "bench_inv conf s'"
proof -
  note ok = threads_okD(1) [OF assms(1,3), unfolded assms(4)]
  show ?thesis
  proof (cases "n < conf_iterations conf")
    case True
    let ?slot = "(bench_slot s i)\<lparr>slot_seq := op_seq i n\<rparr>"
    let ?w = "if conf_bridge conf then Worker_push n t else Worker_call n t"
    have "op_seq i n \<noteq> slot_completed_seq (bench_slot s i)" if "conf_bridge conf"
      using ok that op_seq_first [of i] op_seq_next [of i "n - 1"] by (cases n) auto
    with ok True have "worker_ok conf i ?w ?slot (length (bench_log s i))" by auto
    with True assms show ?thesis
      by (intro worker_local_inv [OF assms(1-3), where w = ?w and slot = ?slot and t = t])
        (auto simp: worker_at_def split: if_splits)
  next
    case False
    with ok assms show ?thesis
      by (intro worker_local_inv [OF assms(1-3), where w = Worker_done and slot = "bench_slot s i"
            and t = "bench_clock s"]) (auto simp: worker_at_def)
  qed
qed

lemma worker_push_inv:
  assumes "threads_ok conf s" "main_ok conf s" "i < conf_workers conf" "conf_workers conf \<le> QUEUE_CAPACITY"
    and "bench_worker s i = Worker_push n submitted" "worker_main conf i t k (Worker_push n submitted) s = Some s'"
  shows "bench_inv conf s'"
proof -
  note running = main_ok_running [OF assms(2,3)]
  have "op_size (bench_queue s) < QUEUE_CAPACITY"
    using queue_length_bound [OF assms(1) _ assms(3)] assms(4,5) by simp
  then obtain q where q: "queue_push (bench_queue s) i = Some (0, q)" "op_wf q"
      "op_list q = op_list (bench_queue s) @ [i]" "\<not> op_stopping q" "op_size q = Suc (op_size (bench_queue s))"
    using queue_push_some [of "bench_queue s" i] running assms(2,5) by (auto simp: main_ok_def)
  have signal: "signal_not_empty conf k (worker_at i (Worker_check n submitted) (s\<lparr>bench_queue := q\<rparr>)) = Some s'"
    using assms(6) q(1) by simp
  have "threads_ok conf s'"
    using running assms(5) q by (intro threads_ok_push [OF assms(1,3,5) _ _ _ signal]) simp_all
  moreover have "main_ok conf s'"
    by (rule main_ok_keep [OF assms(2)])
      (use running assms(5) q(2,4) signal in
        \<open>auto simp: signal_not_empty_def worker_at_def split: option.splits if_splits\<close>)
  ultimately show ?thesis by (simp add: bench_inv_def)
qed

lemma worker_check_inv:
  assumes "threads_ok conf s" "main_ok conf s" "i < conf_workers conf" "bench_worker s i = Worker_check n submitted"
    and "worker_main conf i t k (Worker_check n submitted) s = Some s'"
  shows "bench_inv conf s'"
proof -
  note ok = threads_okD(1) [OF assms(1,3), unfolded assms(4)]
  show ?thesis
  proof (cases "slot_completed_seq (bench_slot s i) = slot_seq (bench_slot s i)")
    case True
    then obtain l q where "s' = finish_op i n (slot_result (bench_slot s i)) l q t
        (s\<lparr>bench_slot := (bench_slot s)(i := bench_slot s i)\<rparr>)"
      using assms(5) by (auto simp: Let_def split: if_splits)
    with finish_op_ok [OF assms(1,3), of n "slot_result (bench_slot s i)" "bench_slot s i" l q t] ok assms(4) True
    show ?thesis by (auto intro: finish_op_inv [OF assms(1-3)])
  next
    case False
    with ok assms show ?thesis
      by (intro worker_local_inv [OF assms(1-3), where w = "Worker_wait n submitted" and slot = "bench_slot s i"
            and t = "bench_clock s"]) (auto simp: worker_at_def)
  qed
qed

lemma worker_call_inv:
  assumes "threads_ok conf s" "main_ok conf s" "i < conf_workers conf" "bench_worker s i = Worker_call n submitted"
    and "worker_main conf i t k (Worker_call n submitted) s = Some s'"
  shows "bench_inv conf s'"
proof (cases "conf_consume conf (slot_seq (bench_slot s i))")
  case None
  with assms(5) show ?thesis by (auto simp: bench_inv_def bench_die_def)
next
  case (Some result)
  note ok = threads_okD(1) [OF assms(1,3), unfolded assms(4)]
  let ?slot = "(bench_slot s i)\<lparr>slot_result := result\<rparr>"
  have "s' = finish_op i n result (t - submitted) 0 t (s\<lparr>bench_slot := (bench_slot s)(i := ?slot)\<rparr>)"
    using assms(5) Some by (auto split: if_splits)
  with finish_op_ok [OF assms(1,3), of n result ?slot "t - submitted" 0 t] ok assms(4) Some
  show ?thesis by (auto intro: finish_op_inv [OF assms(1-3)])
qed

lemma worker_main_inv:
  assumes "threads_ok conf s" "main_ok conf s" "i < conf_workers conf" "conf_workers conf \<le> QUEUE_CAPACITY"
    and "worker_main conf i t k (bench_worker s i) s = Some s'"
  shows "bench_inv conf s'"
proof (cases "bench_worker s i")
  case Worker_start
  let ?slot = "\<lparr>slot_seq = 0, slot_completed_seq = - 1, slot_bridge_start_ns = 0, slot_result = 0\<rparr>"
  show ?thesis
  proof (cases "bench_died s'")
    case False
    with assms(5) Worker_start threads_okD(1) [OF assms(1,3)] show ?thesis
      by (intro worker_local_inv [OF assms(1-3), where w = "Worker_loop 0" and slot = ?slot and t = "bench_clock s"])
        (auto simp: worker_at_def bench_die_def split: if_splits)
  qed (simp add: bench_inv_def)
next
  case (Worker_loop n)
  with assms show ?thesis by (intro worker_loop_inv [OF assms(1-3) Worker_loop]) simp
next
  case (Worker_push n submitted)
  with assms show ?thesis by (intro worker_push_inv [OF assms(1-4) Worker_push]) simp
next
  case (Worker_check n submitted)
  with assms show ?thesis by (intro worker_check_inv [OF assms(1-3) Worker_check]) simp
next
  case (Worker_call n submitted)
  with assms show ?thesis by (intro worker_call_inv [OF assms(1-3) Worker_call]) simp
qed (use assms(5) in simp_all)

lemma bridge_local_inv:
  assumes "threads_ok conf s" "main_ok conf s" "j < conf_bridges conf" "bench_main s \<noteq> Main_done"
    and "s' = bridge_at j b (s\<lparr>bench_clock := t\<rparr>)" "holds b = holds (bench_bridge s j)" "bridge_ok conf s' b"
    and "bench_bridge s j = Bridge_pop \<Longrightarrow> b \<noteq> Bridge_pop \<Longrightarrow> op_size (bench_queue s) = 0"
  shows "bench_inv conf s'"
proof -
  have s': "s' = s\<lparr>bench_bridge := (bench_bridge s)(j := b), bench_clock := t\<rparr>"
    using assms(5) by (simp add: bridge_at_def)
  have "threads_ok conf s'"
    unfolding s' by (rule threads_ok_bridge [OF assms(1,3,6)]) (use assms(7,8) s' in auto)
  moreover have "main_ok conf s'" using assms(2,4) by (simp add: main_ok_def s')
  ultimately show ?thesis by (simp add: bench_inv_def)
qed

lemma main_not_done: "main_ok conf s \<Longrightarrow> j < conf_bridges conf \<Longrightarrow> bench_bridge s j \<noteq> Bridge_done \<Longrightarrow> bench_main s \<noteq> Main_done"
  by (auto simp: main_ok_def)

lemma bridge_pop_inv:
  assumes "threads_ok conf s" "main_ok conf s" "j < conf_bridges conf" "bench_bridge s j = Bridge_pop"
    and "bridge_main conf j t k Bridge_pop s = Some s'"
  shows "bench_inv conf s'"
proof -
  have not_done: "bench_main s \<noteq> Main_done" using main_not_done [OF assms(2,3)] assms(4) by simp
  have wf: "op_wf (bench_queue s)" using assms(2) by (simp add: main_ok_def)
  consider "queue_pop (bench_queue s) = None" | q where "queue_pop (bench_queue s) = Some (None, q)"
    | i q where "queue_pop (bench_queue s) = Some (Some i, q)"
    by (metis not_None_eq surj_pair)
  then show ?thesis
  proof cases
    case 1
    then have "\<not> op_stopping (bench_queue s) \<and> op_size (bench_queue s) = 0"
      by (simp add: queue_pop_def split: if_splits)
    with 1 assms not_done show ?thesis
      by (intro bridge_local_inv [OF assms(1-3) not_done, where b = Bridge_wait and t = "bench_clock s"])
        (auto simp: bridge_at_def)
  next
    case 2
    with queue_pop_some [OF wf] have "op_stopping (bench_queue s)" "op_list (bench_queue s) = []" by fastforce+
    moreover from this have "op_size (bench_queue s) = 0" by (metis length_op_list list.size(3))
    ultimately show ?thesis
      using 2 assms not_done
      by (intro bridge_local_inv [OF assms(1-3) not_done, where b = Bridge_done and t = "bench_clock s"])
        (auto simp: bridge_at_def)
  next
    case 3
    let ?s = "bridge_at j (Bridge_call i) (s\<lparr>bench_queue := q\<rparr>)"
    have q: "op_wf q" "op_stopping q = op_stopping (bench_queue s)" "op_list (bench_queue s) = i # op_list q"
        "op_size (bench_queue s) = Suc (op_size q)"
      using queue_pop_some [OF wf 3] by auto
    have "s' = ?s"
      using 3 assms(5) by (intro signal_not_full_none [OF assms(1), where k = k]) (simp_all add: bridge_at_def)
    moreover have "threads_ok conf ?s" using q by (intro threads_ok_take [OF assms(1,3,4)]) simp_all
    moreover have "main_ok conf ?s" using assms(2) not_done q by (simp add: main_ok_def bridge_at_def)
    ultimately show ?thesis by (simp add: bench_inv_def)
  qed
qed

lemma bridge_main_inv:
  assumes "threads_ok conf s" "main_ok conf s" "j < conf_bridges conf"
    and "bridge_main conf j t k (bench_bridge s j) s = Some s'"
  shows "bench_inv conf s'"
proof (cases "bench_bridge s j")
  case Bridge_start
  show ?thesis
  proof (cases "bench_died s'")
    case False
    with assms Bridge_start main_not_done [OF assms(2,3)] show ?thesis
      by (intro bridge_local_inv [OF assms(1-3), where b = Bridge_pop and t = "bench_clock s"])
        (auto simp: bridge_at_def bench_die_def split: if_splits)
  qed (simp add: bench_inv_def)
next
  case Bridge_pop
  with assms show ?thesis by (intro bridge_pop_inv [OF assms(1-3) Bridge_pop]) simp
next
  case (Bridge_call i)
  show ?thesis
  proof (cases "bench_died s'")
    case False
    then obtain r where "conf_consume conf (slot_seq (bench_slot s i)) = Some r"
        "s' = bridge_at j (Bridge_store i t r) (s\<lparr>bench_clock := t\<rparr>)"
      using assms(4) Bridge_call by (auto simp: bench_die_def split: if_splits option.splits)
    with assms Bridge_call main_not_done [OF assms(2,3)] show ?thesis
      by (intro bridge_local_inv [OF assms(1-3), where b = "Bridge_store i t r" and t = t])
        (auto simp: bridge_at_def)
  qed (simp add: bench_inv_def)
next
  case (Bridge_store i start r)
  have step: "bridge_main conf j t k (Bridge_store i start r) s = Some s'" using assms(4) Bridge_store by simp
  have i: "i < conf_workers conf" "pending (bench_worker s i) (bench_slot s i)"
    using held_pending [OF assms(1,3)] Bridge_store by auto
  then have "bench_main s = Main_join_workers"
    using main_ok_running [OF assms(2) i(1)] by (cases "bench_worker s i") auto
  moreover from step have "bench_main s' = bench_main s" "bench_queue s' = bench_queue s"
    by (auto simp: bridge_at_def worker_at_def)
  ultimately have "main_ok conf s'" by (intro main_ok_keep [OF assms(2)]) simp_all
  with threads_ok_store [OF assms(1,3) Bridge_store step] show ?thesis by (simp add: bench_inv_def)
qed (use assms(4) in simp_all)

lemma holds_leave_empty [simp]: "holds (leave_empty b) = holds b"
  by (cases b) simp_all

lemma main_step_inv:
  assumes "threads_ok conf s" "main_ok conf s" "bench_main_step conf s = Some s'"
  shows "bench_inv conf s'"
proof (cases "bench_main s")
  case Main_join_workers
  then have s': "bench_queue s' = queue_stop (bench_queue s)" "bench_bridge s' = (\<lambda>j. leave_empty (bench_bridge s j))"
      "bench_worker s' = (\<lambda>i. leave_full (bench_worker s i))" "bench_main s' = Main_join_bridges"
      "bench_slot s' = bench_slot s" "bench_log s' = bench_log s" "bench_stats s' = bench_stats s"
    and workers: "\<forall>i<conf_workers conf. bench_worker s i = Worker_done"
    using assms(3) by (auto simp: bench_main_step_def split: if_splits)
  have "in_flight conf s' i = in_flight conf s i" for i by (simp add: in_flight_def s')
  moreover have "bridge_ok conf s' (leave_empty b)" if "bridge_ok conf s b" for b
    using that by (cases b) (simp_all add: s')
  ultimately have "threads_ok conf s'"
    using assms(1) workers by (auto simp: threads_ok_def s')
  moreover have "main_ok conf s'" using assms(2) workers by (simp add: main_ok_def s')
  ultimately show ?thesis by (simp add: bench_inv_def)
next
  case Main_join_bridges
  then have s': "s' = s\<lparr>bench_main := Main_done\<rparr>" "\<forall>j<conf_bridges conf. bench_bridge s j = Bridge_done"
    using assms(3) by (auto simp: bench_main_step_def split: if_splits)
  have "bridge_ok conf s' b = bridge_ok conf s b" for b by (cases b) (simp_all add: s' awake_def)
  moreover have "in_flight conf s' i = in_flight conf s i" for i by (simp add: in_flight_def s')
  ultimately have "threads_ok conf s'" using assms(1) by (simp add: threads_ok_def s')
  moreover have "main_ok conf s'" using assms(2) Main_join_bridges s' by (simp add: main_ok_def)
  ultimately show ?thesis by (simp add: bench_inv_def)
qed (use assms(3) in \<open>simp add: bench_main_step_def\<close>)

lemma worker_wakes_inv:
  assumes "threads_ok conf s" "main_ok conf s" "i < conf_workers conf"
  shows "bench_inv conf (worker_at i (leave_full (leave_wait (bench_worker s i))) s)"
proof (cases "bench_worker s i = leave_full (leave_wait (bench_worker s i))")
  case True
  then have "worker_at i (leave_full (leave_wait (bench_worker s i))) s = s"
    by (simp add: worker_at_def fun_upd_idem)
  with assms show ?thesis by (simp add: bench_inv_def)
next
  case False
  with assms no_worker_full [OF assms(1,3)] obtain n submitted where w: "bench_worker s i = Worker_wait n submitted"
    by (cases "bench_worker s i") auto
  with threads_okD(1) [OF assms(1,3)] show ?thesis
    by (intro worker_local_inv [OF assms, where w = "Worker_check n submitted" and slot = "bench_slot s i"
          and t = "bench_clock s"]) (auto simp: worker_at_def)
qed

lemma bridge_wakes_inv:
  assumes "threads_ok conf s" "main_ok conf s" "j < conf_bridges conf"
  shows "bench_inv conf (bridge_at j (leave_empty (bench_bridge s j)) s)"
proof (cases "bench_bridge s j = Bridge_wait")
  case True
  with assms main_not_done [OF assms(2,3)] show ?thesis
    by (intro bridge_local_inv [OF assms, where b = Bridge_pop and t = "bench_clock s"]) (auto simp: bridge_at_def)
next
  case False
  then have "leave_empty (bench_bridge s j) = bench_bridge s j" by (cases "bench_bridge s j") simp_all
  then have "bridge_at j (leave_empty (bench_bridge s j)) s = s" by (simp add: bridge_at_def fun_upd_idem)
  with assms show ?thesis by (simp add: bench_inv_def)
qed

lemma bench_exec_inv:
  assumes "conf_workers conf \<le> QUEUE_CAPACITY" "bench_inv conf s" "bench_exec conf e s = Some s'"
  shows "bench_inv conf s'"
proof -
  have "\<not> bench_died s" using assms(3) by (simp add: bench_exec_def split: if_splits)
  with assms(2) have ok: "threads_ok conf s" "main_ok conf s" by (simp_all add: bench_inv_def)
  show ?thesis
    using assms(3) \<open>\<not> bench_died s\<close> worker_main_inv [OF ok _ assms(1)] bridge_main_inv [OF ok] main_step_inv [OF ok]
      worker_wakes_inv [OF ok] bridge_wakes_inv [OF ok]
    by (cases e) (auto simp: bench_exec_def split: if_splits)
qed

lemma bench_init_inv: "bench_inv conf (bench_init start)"
  by (simp add: bench_inv_def threads_ok_def main_ok_def bench_init_def in_flight_def log_ok_def worker_stats_def)

end
