(* ===== verification/Ck_Bench_Ends.thy ===== *)
theory Ck_Bench_Ends
  imports Ck_Bench_Run
begin

text \<open>
  The benchmark comes to an end: a weight that every step of the threads lowers, a thread that can move as
  long as the program is not over, and the properties of \<open>bench/jni/jni_thread_benchmark.c\<close> as a whole.
\<close>

section \<open>Weight and progress\<close>

text \<open>
  An operation that is still to be submitted weighs more than all it will cause: its entry in the queue, the wake-up
  of a bridge thread, the call, the store and the wake-up of the worker.
\<close>

fun worker_weight :: "nat \<Rightarrow> worker_state \<Rightarrow> nat" where
  "worker_weight m Worker_start = 12 * m + 2"
| "worker_weight m (Worker_loop n) = 12 * (m - n) + 1"
| "worker_weight m (Worker_push n submitted) = 12 * (m - n)"
| "worker_weight m (Worker_full n submitted) = 12 * (m - n) - 1"
| "worker_weight m (Worker_check n submitted) = 12 * (m - n) - 7"
| "worker_weight m (Worker_wait n submitted) = 12 * (m - n) - 8"
| "worker_weight m (Worker_call n submitted) = 12 * (m - n)"
| "worker_weight m Worker_done = 0"

fun bridge_weight :: "bridge_state \<Rightarrow> nat" where
  "bridge_weight Bridge_start = 2"
| "bridge_weight Bridge_pop = 1"
| "bridge_weight Bridge_wait = 0"
| "bridge_weight (Bridge_call i) = 4"
| "bridge_weight (Bridge_store i start result) = 3"
| "bridge_weight Bridge_done = 0"

fun main_weight :: "nat \<Rightarrow> main_state \<Rightarrow> nat" where
  "main_weight m Main_join_workers = m + 2"
| "main_weight m Main_join_bridges = 1"
| "main_weight m Main_done = 0"

definition bench_weight :: "bench_conf \<Rightarrow> bench \<Rightarrow> nat" where
  "bench_weight conf s =
    (if bench_died s then 0
     else 1 + (\<Sum>i<conf_workers conf. worker_weight (conf_iterations conf) (bench_worker s i))
       + (\<Sum>j<conf_bridges conf. bridge_weight (bench_bridge s j))
       + 5 * op_size (bench_queue s) + main_weight (conf_bridges conf) (bench_main s))"

lemma weight_die: "\<not> bench_died s \<Longrightarrow> bench_weight conf (bench_die s) < bench_weight conf s"
  by (simp add: bench_weight_def bench_die_def)

text \<open>One worker moves; perhaps it adds to the queue and wakes a bridge thread.\<close>

lemma weight_worker_moves:
  assumes "i < conf_workers conf" "\<not> bench_died s" "bench_worker s' = (bench_worker s)(i := w)"
    and "bench_bridge s' = bench_bridge s" "bench_queue s' = bench_queue s" "bench_main s' = bench_main s"
    and "bench_died s' = bench_died s"
  shows "bench_weight conf s' + worker_weight (conf_iterations conf) (bench_worker s i)
    = bench_weight conf s + worker_weight (conf_iterations conf) w"
  using sum_thread_upd [OF assms(1), of "worker_weight (conf_iterations conf)" "bench_worker s" w] assms(2-7)
  by (simp add: bench_weight_def)

lemma weight_worker_pushes:
  assumes "i < conf_workers conf" "\<not> bench_died s" "bench_worker s' = (bench_worker s)(i := w)"
    and "bench_bridge s' = bench_bridge s
      \<or> (\<exists>j<conf_bridges conf. bench_bridge s j = Bridge_wait \<and> bench_bridge s' = (bench_bridge s)(j := Bridge_pop))"
    and "op_size (bench_queue s') = Suc (op_size (bench_queue s))" "bench_main s' = bench_main s"
    and "bench_died s' = bench_died s"
  shows "bench_weight conf s' + worker_weight (conf_iterations conf) (bench_worker s i)
    \<le> bench_weight conf s + worker_weight (conf_iterations conf) w + 6"
proof -
  have "(\<Sum>j<conf_bridges conf. bridge_weight (bench_bridge s' j)) \<le> Suc (\<Sum>j<conf_bridges conf. bridge_weight (bench_bridge s j))"
    using assms(4)
  proof
    assume "\<exists>j<conf_bridges conf. bench_bridge s j = Bridge_wait \<and> bench_bridge s' = (bench_bridge s)(j := Bridge_pop)"
    then obtain j where "j < conf_bridges conf" "bench_bridge s j = Bridge_wait" "bench_bridge s' = (bench_bridge s)(j := Bridge_pop)"
      by blast
    then show ?thesis using sum_thread_upd [of j "conf_bridges conf" bridge_weight "bench_bridge s" Bridge_pop] by simp
  qed simp
  then show ?thesis
    using sum_thread_upd [OF assms(1), of "worker_weight (conf_iterations conf)" "bench_worker s" w] assms(2,3,5-7)
    by (simp add: bench_weight_def)
qed

text \<open>One bridge thread moves; perhaps it takes from the queue.\<close>

lemma weight_bridge_moves:
  assumes "j < conf_bridges conf" "\<not> bench_died s" "bench_bridge s' = (bench_bridge s)(j := b)"
    and "bench_worker s' = bench_worker s" "bench_main s' = bench_main s" "bench_died s' = bench_died s"
  shows "bench_weight conf s' + bridge_weight (bench_bridge s j) + 5 * op_size (bench_queue s)
    = bench_weight conf s + bridge_weight b + 5 * op_size (bench_queue s')"
  using sum_thread_upd [OF assms(1), of bridge_weight "bench_bridge s" b] assms(2-6)
  by (simp add: bench_weight_def)

lemma worker_push_weight:
  assumes "threads_ok conf s" "main_ok conf s" "i < conf_workers conf" "conf_workers conf \<le> QUEUE_CAPACITY"
    and "\<not> bench_died s" "bench_worker s i = Worker_push n submitted"
    and "worker_main conf i t k (Worker_push n submitted) s = Some s'"
  shows "bench_weight conf s' < bench_weight conf s"
proof -
  note running = main_ok_running [OF assms(2,3)]
  have "op_size (bench_queue s) < QUEUE_CAPACITY"
    using queue_length_bound [OF assms(1) _ assms(3)] assms(4,6) by simp
  then obtain q where q: "queue_push (bench_queue s) i = Some (0, q)" "op_size q = Suc (op_size (bench_queue s))"
    using queue_push_some [of "bench_queue s" i] running assms(2,6) by (auto simp: main_ok_def)
  have "n < conf_iterations conf" using threads_okD(1) [OF assms(1,3)] assms(6) by simp
  moreover have "bench_weight conf s' + worker_weight (conf_iterations conf) (bench_worker s i)
    \<le> bench_weight conf s + worker_weight (conf_iterations conf) (Worker_check n submitted) + 6"
    by (rule weight_worker_pushes [OF assms(3,5)])
      (use assms(7) q in \<open>auto simp: signal_not_empty_def worker_at_def split: option.splits if_splits\<close>)
  ultimately show ?thesis using assms(6) by simp
qed

lemma worker_main_weight:
  assumes "threads_ok conf s" "main_ok conf s" "i < conf_workers conf" "conf_workers conf \<le> QUEUE_CAPACITY"
    and "\<not> bench_died s" "worker_main conf i t k (bench_worker s i) s = Some s'"
  shows "bench_weight conf s' < bench_weight conf s"
proof (cases "bench_died s'")
  case True
  then show ?thesis using assms(5) by (simp add: bench_weight_def)
next
  case False
  note ok = threads_okD(1) [OF assms(1,3)]
  show ?thesis
  proof (cases "bench_worker s i")
    case (Worker_push n submitted)
    with assms show ?thesis by (intro worker_push_weight [OF assms(1-5) Worker_push]) simp
  next
    case Worker_start
    with assms False show ?thesis
      using weight_worker_moves [OF assms(3,5), of s' "Worker_loop 0"]
      by (auto simp: worker_at_def bench_die_def split: if_splits)
  next
    case (Worker_loop n)
    with assms False show ?thesis
      using weight_worker_moves [OF assms(3,5), of s' "bench_worker s' i"]
      by (auto simp: worker_at_def split: if_splits)
  next
    case (Worker_check n submitted)
    with assms False ok show ?thesis
      using weight_worker_moves [OF assms(3,5), of s' "bench_worker s' i"]
      by (auto simp: worker_at_def finish_op_def Let_def split: if_splits)
  next
    case (Worker_call n submitted)
    with assms False ok show ?thesis
      using weight_worker_moves [OF assms(3,5), of s' "bench_worker s' i"]
      by (auto simp: finish_op_def bench_die_def split: if_splits option.splits)
  qed (use assms(6) in simp_all)
qed

lemma leave_wait_weight: "worker_weight m (leave_wait w) \<le> Suc (worker_weight m w)"
  by (cases w) simp_all

lemma bridge_store_weight:
  assumes "threads_ok conf s" "j < conf_bridges conf" "\<not> bench_died s" "bench_bridge s j = Bridge_store i start r"
    and "bridge_main conf j t k (Bridge_store i start r) s = Some s'"
  shows "bench_weight conf s' < bench_weight conf s"
proof -
  have "i < conf_workers conf" using held_pending [OF assms(1,2)] assms(4) by simp
  from sum_thread_upd [OF this, of "worker_weight (conf_iterations conf)" "bench_worker s" "leave_wait (bench_worker s i)"]
    leave_wait_weight [of "conf_iterations conf" "bench_worker s i"]
  have "(\<Sum>m<conf_workers conf. worker_weight (conf_iterations conf) (((bench_worker s)(i := leave_wait (bench_worker s i))) m))
      \<le> Suc (\<Sum>m<conf_workers conf. worker_weight (conf_iterations conf) (bench_worker s m))"
    by linarith
  moreover have "(\<Sum>m<conf_bridges conf. bridge_weight (((bench_bridge s)(j := Bridge_pop)) m)) + 3
      = (\<Sum>m<conf_bridges conf. bridge_weight (bench_bridge s m)) + 1"
    using sum_thread_upd [OF assms(2), of bridge_weight "bench_bridge s" Bridge_pop] assms(4) by simp
  ultimately show ?thesis
    using assms(3,5) by (auto simp: bench_weight_def bridge_at_def worker_at_def)
qed

lemma bridge_pop_weight:
  assumes "threads_ok conf s" "main_ok conf s" "j < conf_bridges conf" "\<not> bench_died s" "bench_bridge s j = Bridge_pop"
    and "bridge_main conf j t k Bridge_pop s = Some s'"
  shows "bench_weight conf s' < bench_weight conf s"
proof -
  have wf: "op_wf (bench_queue s)" using assms(2) by (simp add: main_ok_def)
  show ?thesis
  proof (cases "\<exists>i q. queue_pop (bench_queue s) = Some (Some i, q)")
    case True
    then obtain i q where q: "queue_pop (bench_queue s) = Some (Some i, q)" by blast
    let ?s = "bridge_at j (Bridge_call i) (s\<lparr>bench_queue := q\<rparr>)"
    have "s' = ?s"
      using q assms(6) by (intro signal_not_full_none [OF assms(1), where k = k]) (simp_all add: bridge_at_def)
    moreover have "op_size (bench_queue s) = Suc (op_size q)" using queue_pop_some [OF wf q] by simp
    ultimately show ?thesis
      using weight_bridge_moves [OF assms(3,4), of ?s "Bridge_call i"] assms(5) by (simp add: bridge_at_def)
  next
    case False
    then obtain b where "s' = bridge_at j b s" "bridge_weight b = 0"
      using assms(6) by (auto split: option.splits)
    then show ?thesis
      using weight_bridge_moves [OF assms(3,4), of s' b] assms(5) by (simp add: bridge_at_def)
  qed
qed

lemma bridge_main_weight:
  assumes "threads_ok conf s" "main_ok conf s" "j < conf_bridges conf" "\<not> bench_died s"
    and "bridge_main conf j t k (bench_bridge s j) s = Some s'"
  shows "bench_weight conf s' < bench_weight conf s"
proof (cases "bench_died s'")
  case True
  then show ?thesis using assms(4) by (simp add: bench_weight_def)
next
  case False
  show ?thesis
  proof (cases "bench_bridge s j")
    case Bridge_start
    with assms False weight_bridge_moves [OF assms(3,4), of s' Bridge_pop] show ?thesis
      by (auto simp: bridge_at_def bench_die_def split: if_splits)
  next
    case Bridge_pop
    with assms show ?thesis by (intro bridge_pop_weight [OF assms(1-4) Bridge_pop]) simp
  next
    case (Bridge_call i)
    with assms False weight_bridge_moves [OF assms(3,4), of s' "bench_bridge s' j"] show ?thesis
      by (auto simp: bridge_at_def bench_die_def split: if_splits option.splits)
  next
    case (Bridge_store i start r)
    with assms show ?thesis by (intro bridge_store_weight [OF assms(1,3,4) Bridge_store]) simp
  qed (use assms(5) in simp_all)
qed

lemma main_step_weight:
  assumes "main_ok conf s" "\<not> bench_died s" "bench_main_step conf s = Some s'"
  shows "bench_weight conf s' < bench_weight conf s"
proof (cases "bench_main s")
  case Main_join_workers
  then have workers: "\<forall>i<conf_workers conf. bench_worker s i = Worker_done"
    and s': "s' = s\<lparr>bench_queue := queue_stop (bench_queue s), bench_bridge := (\<lambda>j. leave_empty (bench_bridge s j)),
      bench_worker := (\<lambda>i. leave_full (bench_worker s i)), bench_main := Main_join_bridges\<rparr>"
    using assms(3) by (simp_all add: bench_main_step_def split: if_splits)
  have "bridge_weight (leave_empty b) \<le> Suc (bridge_weight b)" for b by (cases b) simp_all
  then have "(\<Sum>j<conf_bridges conf. bridge_weight (leave_empty (bench_bridge s j)))
      \<le> (\<Sum>j<conf_bridges conf. Suc (bridge_weight (bench_bridge s j)))" by (intro sum_mono) simp
  also have "\<dots> = (\<Sum>j<conf_bridges conf. bridge_weight (bench_bridge s j)) + conf_bridges conf"
    by (simp add: sum.distrib Suc_eq_plus1 del: One_nat_def add_Suc_right)
  finally show ?thesis using assms(2) Main_join_workers workers by (simp add: bench_weight_def s')
next
  case Main_join_bridges
  with assms show ?thesis by (auto simp: bench_main_step_def bench_weight_def split: if_splits)
qed (use assms(3) in \<open>simp add: bench_main_step_def\<close>)

lemma bench_exec_weight:
  assumes "conf_workers conf \<le> QUEUE_CAPACITY" "bench_inv conf s" "bench_exec conf e s = Some s'" "\<not> spurious e"
  shows "bench_weight conf s' < bench_weight conf s"
proof -
  have alive: "\<not> bench_died s" using assms(3) by (simp add: bench_exec_def split: if_splits)
  with assms(2) have ok: "threads_ok conf s" "main_ok conf s" by (simp_all add: bench_inv_def)
  show ?thesis
    using assms(3,4) alive worker_main_weight [OF ok _ assms(1) alive] bridge_main_weight [OF ok _ alive]
      main_step_weight [OF ok(2) alive]
    by (cases e) (auto simp: bench_exec_def split: if_splits)
qed

lemma bench_exec_spurious:
  assumes "bench_inv conf s" "bench_exec conf e s = Some s'" "spurious e"
  shows "bench_weight conf s' \<le> Suc (bench_weight conf s)"
proof -
  have alive: "\<not> bench_died s" using assms(2) by (simp add: bench_exec_def split: if_splits)
  have w: "worker_weight m (leave_full (leave_wait w)) \<le> Suc (worker_weight m w)" for m w by (cases w) simp_all
  have b: "bridge_weight (leave_empty b) \<le> Suc (bridge_weight b)" for b by (cases b) simp_all
  show ?thesis
  proof (cases e)
    case (Worker_wakes i)
    with assms(2) alive have "i < conf_workers conf" "s' = worker_at i (leave_full (leave_wait (bench_worker s i))) s"
      by (auto simp: bench_exec_def split: if_splits)
    with weight_worker_moves [OF _ alive, of i conf s'] w [of "conf_iterations conf" "bench_worker s i"]
    show ?thesis by (fastforce simp: worker_at_def)
  next
    case (Bridge_wakes j)
    with assms(2) alive have "j < conf_bridges conf" "s' = bridge_at j (leave_empty (bench_bridge s j)) s"
      by (auto simp: bench_exec_def split: if_splits)
    with weight_bridge_moves [OF _ alive, of j conf s'] b [of "bench_bridge s j"]
    show ?thesis by (fastforce simp: bridge_at_def)
  qed (use assms(3) in simp_all)
qed

text \<open>A thread that is not asleep and not done can move.\<close>

lemma signal_not_empty_possible: "\<exists>k s'. signal_not_empty conf k s = Some s'"
proof (cases "\<exists>j<conf_bridges conf. bench_bridge s j = Bridge_wait")
  case True
  then obtain j where "j < conf_bridges conf" "bench_bridge s j = Bridge_wait" by blast
  then show ?thesis by (intro exI [of _ "Some j"]) (simp add: signal_not_empty_def)
next
  case False
  then show ?thesis by (intro exI [of _ None]) (simp add: signal_not_empty_def)
qed

fun asleep :: "worker_state \<Rightarrow> bool" where
  "asleep (Worker_wait n submitted) = True"
| "asleep w = False"

lemma worker_enabled:
  assumes "threads_ok conf s" "i < conf_workers conf" "\<not> bench_died s"
    and "bench_worker s i \<noteq> Worker_done" "\<not> asleep (bench_worker s i)"
  shows "\<exists>e s'. \<not> spurious e \<and> bench_exec conf e s = Some s'"
proof -
  have "\<exists>k s'. worker_main conf i (bench_clock s) k (bench_worker s i) s = Some s'"
  proof (cases "bench_worker s i")
    case (Worker_push n submitted)
    show ?thesis
    proof (cases "\<exists>q. queue_push (bench_queue s) i = Some (0, q)")
      case True
      then obtain q where "queue_push (bench_queue s) i = Some (0, q)" by blast
      with Worker_push signal_not_empty_possible [of conf "worker_at i (Worker_check n submitted) (s\<lparr>bench_queue := q\<rparr>)"]
      show ?thesis by simp
    qed (use Worker_push in \<open>auto split: option.splits\<close>)
  qed (use threads_okD(1) [OF assms(1,2)] assms(4,5) in \<open>auto simp: Let_def split: option.splits\<close>)
  then obtain k s' where "worker_main conf i (bench_clock s) k (bench_worker s i) s = Some s'" by blast
  with assms(2,3) show ?thesis
    by (intro exI [of _ "Worker_go i (bench_clock s) k"] exI [of _ s']) (simp add: bench_exec_def)
qed

lemma bridge_enabled:
  assumes "threads_ok conf s" "j < conf_bridges conf" "\<not> bench_died s"
    and "bench_bridge s j \<noteq> Bridge_wait" "bench_bridge s j \<noteq> Bridge_done"
  shows "\<exists>e s'. \<not> spurious e \<and> bench_exec conf e s = Some s'"
proof -
  have "\<exists>s'. bridge_main conf j (bench_clock s) None (bench_bridge s j) s = Some s'"
    using assms(4,5) no_worker_full [OF assms(1)]
    by (cases "bench_bridge s j") (auto simp: signal_not_full_def bridge_at_def split: option.splits)
  then obtain s' where "bridge_main conf j (bench_clock s) None (bench_bridge s j) s = Some s'" by blast
  with assms(2,3) show ?thesis
    by (intro exI [of _ "Bridge_go j (bench_clock s) None"] exI [of _ s']) (simp add: bench_exec_def)
qed

text \<open>While a worker sleeps, some bridge thread can move.\<close>

lemma sleeper_served:
  assumes "threads_ok conf s" "main_ok conf s" "0 < conf_bridges conf"
    and "i < conf_workers conf" "asleep (bench_worker s i)"
  shows "\<exists>j<conf_bridges conf. bench_bridge s j \<noteq> Bridge_wait \<and> bench_bridge s j \<noteq> Bridge_done"
proof (rule ccontr)
  assume "\<not> ?thesis"
  then have idle: "bench_bridge s j = Bridge_wait \<or> bench_bridge s j = Bridge_done" if "j < conf_bridges conf" for j
    using that by blast
  have "bench_worker s i \<noteq> Worker_done" using assms(5) by auto
  then have "\<not> op_stopping (bench_queue s)" using main_ok_running [OF assms(2,4)] by simp
  with idle assms(1) have wait: "bench_bridge s j = Bridge_wait" if "j < conf_bridges conf" for j
    using that unfolding threads_ok_def by (metis bridge_ok.simps(3))
  have "awake conf s = 0" using wait by (simp add: awake_def)
  moreover have "bridge_ok conf s (bench_bridge s 0)" using assms(1,3) by (simp add: threads_ok_def)
  ultimately have "op_list (bench_queue s) = []" using wait [OF assms(3)] by (simp flip: length_0_conv)
  moreover have "holds (bench_bridge s j) = None" if "j < conf_bridges conf" for j using wait [OF that] by simp
  ultimately have "in_flight conf s i = 0" by (simp add: in_flight_def)
  moreover have "pending (bench_worker s i) (bench_slot s i)"
    using threads_okD(1) [OF assms(1,4)] assms(5) by (cases "bench_worker s i") auto
  ultimately show False using assms(1,4) by (simp add: threads_ok_def)
qed

definition conf_ok :: "bench_conf \<Rightarrow> bool" where
  "conf_ok conf \<longleftrightarrow> conf_workers conf \<le> 256 \<and> (conf_bridge conf \<longrightarrow> 0 < conf_bridges conf)"

lemma bench_progress:
  assumes "conf_ok conf" "bench_inv conf s" "\<not> bench_over s"
  shows "\<exists>e s'. \<not> spurious e \<and> bench_exec conf e s = Some s'"
proof -
  have alive: "\<not> bench_died s" and not_done: "bench_main s \<noteq> Main_done" using assms(3) by (simp_all add: bench_over_def)
  with assms(2) have ok: "threads_ok conf s" "main_ok conf s" by (simp_all add: bench_inv_def)
  consider i where "i < conf_workers conf" "bench_worker s i \<noteq> Worker_done" "\<not> asleep (bench_worker s i)"
    | i where "i < conf_workers conf" "asleep (bench_worker s i)"
    | "\<forall>i<conf_workers conf. bench_worker s i = Worker_done" by blast
  then show ?thesis
  proof cases
    case 1
    then show ?thesis by (rule worker_enabled [OF ok(1) _ alive])
  next
    case 2
    then have "conf_bridge conf" using threads_okD(1) [OF ok(1)] by (cases "bench_worker s i") fastforce+
    then have "0 < conf_bridges conf" using assms(1) by (simp add: conf_ok_def)
    from sleeper_served [OF ok this 2] bridge_enabled [OF ok(1) _ alive] show ?thesis by blast
  next
    case 3
    show ?thesis
    proof (cases "\<exists>j<conf_bridges conf. bench_bridge s j \<noteq> Bridge_wait \<and> bench_bridge s j \<noteq> Bridge_done")
      case True
      then show ?thesis using bridge_enabled [OF ok(1) _ alive] by blast
    next
      case False
      have "\<exists>s'. bench_main_step conf s = Some s'"
      proof (cases "bench_main s")
        case Main_join_bridges
        then have "op_stopping (bench_queue s)" using ok(2) by (simp add: main_ok_def)
        then have "bench_bridge s j = Bridge_done" if "j < conf_bridges conf" for j
          using False ok(1) that unfolding threads_ok_def by (metis bridge_ok.simps(2))
        with Main_join_bridges show ?thesis by (simp add: bench_main_step_def)
      qed (use 3 not_done in \<open>simp_all add: bench_main_step_def\<close>)
      with alive show ?thesis by (intro exI [of _ Main_go]) (simp add: bench_exec_def)
    qed
  qed
qed

interpretation bench_run: ending_system "bench_exec conf" spurious "\<lambda>s. conf_ok conf \<and> bench_inv conf s" bench_over
  "bench_weight conf" for conf
proof (unfold_locales, goal_cases)
  case (1 s e s')
  then show ?case using bench_exec_inv [of conf s e s'] by (simp add: conf_ok_def QUEUE_CAPACITY_def)
next
  case (2 s e s')
  then show ?case using bench_exec_weight [of conf s e s'] by (simp add: conf_ok_def QUEUE_CAPACITY_def)
next
  case (3 s e s')
  then show ?case using bench_exec_spurious by blast
next
  case (4 s)
  then show ?case using bench_progress by blast
qed

section \<open>Properties\<close>

text \<open>The configuration that the command line gives; the environment's part is the last three arguments.\<close>

definition bench_conf_of ::
  "bench_options \<Rightarrow> (u64 \<Rightarrow> u64 option) \<Rightarrow> (nat \<Rightarrow> int \<times> int) \<Rightarrow> (nat \<Rightarrow> int \<times> int) \<Rightarrow> bench_conf" where
  "bench_conf_of opts consume worker_attach bridge_attach =
     \<lparr>conf_bridge = mode_bridge opts, conf_workers = nat (worker_count opts), conf_bridges = nat (bridge_count opts),
      conf_iterations = unat (iterations opts), conf_consume = consume, conf_worker_attach = worker_attach,
      conf_bridge_attach = bridge_attach\<rparr>"

lemma bench_arguments_ok:
  assumes "bench_arguments args = Some (Inr opts)"
  shows "0 < worker_count opts" "worker_count opts \<le> 256" "0 \<le> bridge_count opts" "bridge_count opts \<le> 256"
    "iterations opts \<noteq> 0"
  using assms by (auto simp: bench_arguments_def Let_def split: if_splits option.splits)

lemma bench_run_inv:
  assumes "conf_workers conf \<le> 256" "run_events (bench_exec conf) es s = Some s'" "bench_inv conf s"
  shows "bench_inv conf s'"
  using assms(2,3)
proof (induction es arbitrary: s)
  case (Cons e es)
  then obtain s1 where "bench_exec conf e s = Some s1" "run_events (bench_exec conf) es s1 = Some s'"
    by (auto split: option.splits)
  with Cons bench_exec_inv [of conf s e s1] assms(1) show ?case by (simp add: QUEUE_CAPACITY_def)
qed simp

text \<open>A process whose attachments succeed and whose Java method does not throw does not die.\<close>

definition calls_succeed :: "bench_conf \<Rightarrow> bool" where
  "calls_succeed conf \<longleftrightarrow> (\<forall>v. conf_consume conf v \<noteq> None)
     \<and> (\<forall>i. attach (fst (conf_worker_attach conf i)) (snd (conf_worker_attach conf i)) \<ge> 0)
     \<and> (\<forall>j. attach (fst (conf_bridge_attach conf j)) (snd (conf_bridge_attach conf j)) \<ge> 0)"

lemma exec_alive:
  assumes "calls_succeed conf" "bench_inv conf s" "bench_exec conf e s = Some s'"
  shows "\<not> bench_died s'"
proof -
  have alive: "\<not> bench_died s" using assms(3) by (simp add: bench_exec_def split: if_splits)
  with assms(2) have main: "main_ok conf s" by (simp add: bench_inv_def)
  have calls: "\<not> attach (fst (conf_worker_attach conf i)) (snd (conf_worker_attach conf i)) < 0"
      "\<not> attach (fst (conf_bridge_attach conf i)) (snd (conf_bridge_attach conf i)) < 0"
      "conf_consume conf v \<noteq> None" for i v
    using assms(1) by (simp_all add: calls_succeed_def not_less)
  have worker: "\<not> bench_died s1" if "i < conf_workers conf" "worker_main conf i t k (bench_worker s i) s = Some s1" for i t k s1
    using that alive main_ok_running [OF main that(1)]
    by (cases "bench_worker s i")
      (auto simp: calls worker_at_def finish_op_def signal_not_empty_def queue_push_def Let_def
        split: if_splits option.splits)
  have bridge: "\<not> bench_died s1" if "bridge_main conf j t k (bench_bridge s j) s = Some s1" for j t k s1
    using that alive
    by (cases "bench_bridge s j")
      (auto simp: calls bridge_at_def worker_at_def signal_not_full_def split: if_splits option.splits)
  show ?thesis
    using assms(3) alive worker bridge
    by (cases e) (auto simp: bench_exec_def bench_main_step_def worker_at_def bridge_at_def
        split: if_splits main_state.splits)
qed

lemma run_alive:
  assumes "conf_workers conf \<le> 256" "calls_succeed conf" "run_events (bench_exec conf) es s = Some s'"
    and "bench_inv conf s" "\<not> bench_died s"
  shows "\<not> bench_died s'"
  using assms(3-5)
proof (induction es arbitrary: s)
  case (Cons e es)
  then obtain s1 where s1: "bench_exec conf e s = Some s1" "run_events (bench_exec conf) es s1 = Some s'"
    by (auto split: option.splits)
  with Cons.prems bench_exec_inv [of conf s e s1] assms(1) have "bench_inv conf s1" by (simp add: QUEUE_CAPACITY_def)
  with Cons.IH s1 exec_alive [OF assms(2) Cons.prems(2) s1(1)] show ?case by blast
qed simp

lemma bench_init_weight:
  "bench_weight conf (bench_init start)
    = 3 + conf_workers conf * (12 * conf_iterations conf + 2) + 3 * conf_bridges conf"
  by (simp add: bench_weight_def bench_init_def)

text \<open>
  C27. The benchmark ends.  For every command line that gets its threads started, with a bridge thread in bridge mode, and whatever
  the scheduler does: a run has at most \<open>3 + workers * (12 * iterations + 2) + 3 * bridges\<close> steps, plus two for
  every spurious wake-up; a state in which no thread can move is the end of the program; from every state the end
  can be reached; and the process does not die unless an attachment fails or Java throws.
\<close>

theorem bench_ends:
  assumes "bench_setup calls args = Some (Inr (opts, bootstrap))" "mode_bridge opts \<longrightarrow> 0 < bridge_count opts"
    and "conf = bench_conf_of opts consume worker_attach bridge_attach"
    and "run_events (bench_exec conf) es (bench_init start) = Some s"
  shows "length es \<le> 3 + conf_workers conf * (12 * conf_iterations conf + 2) + 3 * conf_bridges conf
        + 2 * length (filter spurious es)
    \<and> ((\<forall>e. \<not> spurious e \<longrightarrow> bench_exec conf e s = None) \<longrightarrow> bench_over s)
    \<and> (\<exists>fs s'. run_events (bench_exec conf) fs s = Some s' \<and> bench_over s')
    \<and> (calls_succeed conf \<longrightarrow> \<not> bench_died s)"
proof -
  have ok: "conf_ok conf" "conf_workers conf \<le> 256"
    using bench_arguments_ok [OF bench_setup_ok [OF assms(1)]] assms(2,3) by (simp_all add: conf_ok_def bench_conf_of_def)
  have init: "conf_ok conf \<and> bench_inv conf (bench_init start)" using ok bench_init_inv by simp
  have "length es + bench_weight conf s \<le> bench_weight conf (bench_init start) + 2 * length (filter spurious es)"
    using bench_run.run_bounded [OF init assms(4)] .
  moreover have "(\<forall>e. \<not> spurious e \<longrightarrow> bench_exec conf e s = None) \<longrightarrow> bench_over s"
    using bench_run.stuck_final [OF init assms(4)] by blast
  moreover have "\<exists>fs s'. run_events (bench_exec conf) fs s = Some s' \<and> bench_over s'"
    using bench_run.run_to_final bench_run.run_inv [OF init assms(4)] by blast
  moreover have "calls_succeed conf \<longrightarrow> \<not> bench_died s"
    using run_alive [OF ok(2) _ assms(4)] init by (auto simp: bench_init_def)
  ultimately show ?thesis by (simp add: bench_init_weight)
qed

text \<open>
  C28. The report is about the operations that were asked for.  When the workers have been joined, each of them has done
  its iterations in order, each with its own sequence number and the answer of the Java method to it; the reported number of
  operations is theirs; the total latency and queue wait are the sums over all of them (modulo \<open>2\<^sup>6\<^sup>4\<close>), the largest
  latency is the reported maximum, and the smallest is the reported minimum if no latency was measured as zero.
\<close>

theorem bench_report:
  assumes "conf_workers conf \<le> 256" "run_events (bench_exec conf) es (bench_init start) = Some s"
    and "\<not> bench_died s" "bench_main s \<noteq> Main_join_workers"
    and "latencies = concat (map (\<lambda>i. map (snd \<circ> snd) (bench_log s i)) [0..<conf_workers conf])"
    and "bench_totals (map (bench_stats s) [0..<conf_workers conf]) (0, 0, 0, 0) = (total_latency, total_wait, lo, hi)"
  shows "(\<forall>i<conf_workers conf. map fst (bench_log s i) = map (op_seq i) [0..<conf_iterations conf]
        \<and> list_all (\<lambda>(seq, result, _). conf_consume conf seq = Some result) (bench_log s i))
    \<and> bench_total_ops conf = of_nat (length latencies)
    \<and> total_latency = sum_list (map fst latencies) \<and> total_wait = sum_list (map snd latencies)
    \<and> is_max hi (fst ` set latencies) \<and> (0 \<notin> fst ` set latencies \<longrightarrow> is_min lo (fst ` set latencies))"
proof -
  let ?xss = "map (\<lambda>i. map (snd \<circ> snd) (bench_log s i)) [0..<conf_workers conf]"
  have ok: "threads_ok conf s" "main_ok conf s"
    using bench_run_inv [OF assms(1,2) bench_init_inv] assms(3) by (simp_all add: bench_inv_def)
  have stats: "map (bench_stats s) [0..<conf_workers conf] = map worker_stats ?xss"
    using threads_okD(3) [OF ok(1)] by simp
  have logs: "map fst (bench_log s i) = map (op_seq i) [0..<conf_iterations conf]
        \<and> list_all (\<lambda>(seq, result, _). conf_consume conf seq = Some result) (bench_log s i)"
    if i: "i < conf_workers conf" for i
  proof
    have "bench_worker s i = Worker_done" using ok(2) assms(4) i by (simp add: main_ok_def)
    with threads_okD [OF ok(1) i] have "length (bench_log s i) = conf_iterations conf" "log_ok conf i (bench_log s i)" by simp_all
    then show "map fst (bench_log s i) = map (op_seq i) [0..<conf_iterations conf]"
      and "list_all (\<lambda>(seq, result, _). conf_consume conf seq = Some result) (bench_log s i)"
      by (auto simp: log_ok_def list_all_length case_prod_beta intro!: nth_equalityI)
  qed
  have "length (bench_log s i) = conf_iterations conf" if "i < conf_workers conf" for i
    using logs [OF that] length_map [of fst "bench_log s i"] by simp
  then have "bench_total_ops conf = of_nat (length latencies)"
    by (simp add: bench_total_ops_def assms(5) length_concat comp_def interv_sum_list_conv_sum_set_nat)
  moreover have "total_latency = sum_list (map fst latencies)" "total_wait = sum_list (map snd latencies)"
      "is_max hi (fst ` set latencies)"
    using bench_totals_sums [where hi = 0 and A = "{}" and xss = ?xss and t = 0 and q = 0 and lo = 0] assms(5,6) unfolding stats by (simp_all add: is_max_def)
  moreover have "is_min lo (fst ` set latencies)" if "0 \<notin> fst ` set latencies"
    using bench_totals_min [where lo = 0 and A = "{}" and xss = ?xss and t = 0 and q = 0 and hi = 0] assms(5,6) that unfolding stats by (fastforce simp: is_min_def)
  ultimately show ?thesis using logs by blast
qed

text \<open>Without bridge threads no operation is ever completed.\<close>

definition unserved :: "bench_conf \<Rightarrow> bench \<Rightarrow> bool" where
  "unserved conf s \<longleftrightarrow> bench_inv conf s \<and> \<not> bench_died s \<and> bench_main s = Main_join_workers
     \<and> (\<forall>i<conf_workers conf. bench_log s i = []
          \<and> (bench_worker s i = Worker_start \<or> slot_completed_seq (bench_slot s i) = - 1))"

lemma leave_start: "leave_full (leave_wait w) = Worker_start \<longleftrightarrow> w = Worker_start"
  by (cases w) simp_all

lemma unserved_step:
  assumes "conf_bridge conf" "conf_bridges conf = 0" "0 < conf_workers conf" "conf_workers conf \<le> 256"
    and "0 < conf_iterations conf" "unserved conf s" "bench_exec conf e s = Some s'"
  shows "unserved conf s'"
proof -
  have inv: "bench_inv conf s" and alive: "\<not> bench_died s" and main: "bench_main s = Main_join_workers"
    and logs: "\<And>i. i < conf_workers conf \<Longrightarrow> bench_log s i = []
      \<and> (bench_worker s i = Worker_start \<or> slot_completed_seq (bench_slot s i) = - 1)"
    using assms(6) by (auto simp: unserved_def)
  then have ok: "threads_ok conf s" "main_ok conf s" by (simp_all add: bench_inv_def)
  have inv': "bench_inv conf s'" using bench_exec_inv [OF _ inv assms(7)] assms(4) by (simp add: QUEUE_CAPACITY_def)
  have worker: "\<not> bench_died s1 \<and> bench_main s1 = Main_join_workers
      \<and> (\<forall>m<conf_workers conf. bench_log s1 m = [] \<and> (bench_worker s1 m = Worker_start \<or> slot_completed_seq (bench_slot s1 m) = - 1))"
    if i: "i < conf_workers conf" and step: "worker_main conf i t k (bench_worker s i) s = Some s1" for i t k s1
  proof -
    have others: "\<forall>m<conf_workers conf. bench_log s m = []
        \<and> (bench_worker s m = Worker_start \<or> slot_completed_seq (bench_slot s m) = - 1)"
      using logs by blast
    with threads_okD(1) [OF ok(1) i] logs [OF i] main_ok_running [OF ok(2) i] step alive main assms(1) op_seq_first [of i]
    show ?thesis
      by (cases "bench_worker s i")
        (auto simp: worker_at_def signal_not_empty_def queue_push_def Let_def split: if_splits option.splits)
  qed
  have "\<not> (\<forall>i<conf_workers conf. bench_worker s i = Worker_done)"
    using threads_okD(1) [OF ok(1) assms(3)] logs [OF assms(3)] assms(3,5) by auto
  then have stuck: "bench_main_step conf s = None" using main by (simp add: bench_main_step_def)
  have "unserved conf s'" if "e = Worker_wakes i" for i
  proof -
    have "s' = worker_at i (leave_full (leave_wait (bench_worker s i))) s"
      using that assms(7) by (simp add: bench_exec_def split: if_splits)
    with inv' alive main logs show ?thesis by (simp add: unserved_def worker_at_def leave_start)
  qed
  moreover have "unserved conf s'" if "\<forall>i. e \<noteq> Worker_wakes i"
    using that assms(2,7) alive main worker stuck inv'
    by (cases e) (simp_all add: unserved_def bench_exec_def split: if_splits)
  ultimately show ?thesis by blast
qed

text \<open>
  The benchmark accepts \<open>bridge\<close> mode with no bridge thread, and then never ends: whatever the scheduler does, no
  operation is completed and \<open>main\<close> is still joining its workers.
\<close>

theorem bench_without_bridges:
  assumes "bench_arguments args = Some (Inr opts)" "mode_bridge opts" "bridge_count opts = 0"
    and "conf = bench_conf_of opts consume worker_attach bridge_attach"
    and "run_events (bench_exec conf) es (bench_init start) = Some s"
  shows "\<not> bench_over s \<and> (\<forall>i<conf_workers conf. bench_log s i = [])"
proof -
  have conf: "conf_bridge conf" "conf_bridges conf = 0" "0 < conf_workers conf" "conf_workers conf \<le> 256"
      "0 < conf_iterations conf"
    using bench_arguments_ok [OF assms(1)] assms(2-4) by (simp_all add: bench_conf_of_def unat_gt_0)
  have "unserved conf s0 \<Longrightarrow> run_events (bench_exec conf) es s0 = Some s \<Longrightarrow> unserved conf s" for s0
    by (induction es arbitrary: s0) (auto split: option.splits dest: unserved_step [OF conf])
  moreover have "unserved conf (bench_init start)"
    by (simp add: unserved_def bench_init_inv) (simp add: bench_init_def)
  ultimately have "unserved conf s" using assms(5) by blast
  then show ?thesis by (simp add: unserved_def bench_over_def)
qed

text \<open>Zero marks both \<open>no latency yet\<close> and a latency of zero, so that a minimum can be forgotten.\<close>

lemma bench_min_forgotten: "worker_min_ns (worker_stats [(5, 0), (0, 0), (7, 0)]) = 7"
  by (simp add: worker_stats_def stats_add_def zero_worker_def)

section \<open>Witnesses\<close>

definition no_attach :: "nat \<Rightarrow> int \<times> int" where "no_attach i = (- 2, 0)"

definition bench_sample :: bench_options where
  "bench_sample = \<lparr>mode_bridge = True, worker_count = 2, bridge_count = 1, iterations = 3\<rparr>"

abbreviation bench_sample_conf :: bench_conf where
  "bench_sample_conf \<equiv> bench_conf_of bench_sample (\<lambda>v. Some (BenchmarkTarget_consume v)) no_attach no_attach"

definition bench_sample_calls :: bench_boot_calls where
  "bench_sample_calls = \<lparr>bench_boot_thread = 0, bench_create_vm = 0, bench_class_found = True, bench_global_ref = True,
     bench_methods = BenchmarkTarget_methods, bench_alloc_workers = True, bench_alloc_threads = True,
     bench_alloc_bridges = True, bench_create_bridge = (\<lambda>_. 0), bench_create_worker = (\<lambda>_. 0)\<rparr>"

lemma bench_sample_setup:
  "\<exists>bootstrap. bench_setup bench_sample_calls [''bridge'', ''2'', ''3''] = Some (Inr (bench_sample, bootstrap))"
proof -
  have args: "bench_arguments [''bridge'', ''2'', ''3''] = Some (Inr bench_sample)" by code_simp
  obtain b env where boot: "bootstrap_main bench_sample_calls = Inr (b, env)" "\<not> boot_failed b"
    by (simp add: bootstrap_main_def bench_sample_calls_def Let_def check_jni_def jni_find_class_def
        jni_get_static_method_def jni_delete_ref_def enter_jni_def fresh_env_def zero_bootstrap_def BenchmarkTarget_methods_def)
  have "bench_start_threads bench_sample_calls bench_sample = None"
    by (simp add: bench_start_threads_def bench_sample_calls_def)
  with args boot show ?thesis by (simp add: bench_setup_def bench_wait_ready_def bench_sample_calls_def)
qed

theorem bench_ends_witness:
  "\<exists>es s. run_events (bench_exec bench_sample_conf) es (bench_init 7) = Some s \<and> bench_over s \<and> \<not> bench_died s"
proof -
  have ok: "calls_succeed bench_sample_conf" by (simp add: calls_succeed_def bench_conf_of_def no_attach_def attach_def)
  have bridge: "mode_bridge bench_sample \<longrightarrow> 0 < bridge_count bench_sample" by (simp add: bench_sample_def)
  obtain b where started: "bench_setup bench_sample_calls [''bridge'', ''2'', ''3''] = Some (Inr (bench_sample, b))"
    using bench_sample_setup by blast
  note ends = bench_ends [OF started bridge refl, where consume = "\<lambda>v. Some (BenchmarkTarget_consume v)"
    and worker_attach = no_attach and bridge_attach = no_attach and start = 7]
  have "run_events (bench_exec bench_sample_conf) [] (bench_init 7) = Some (bench_init 7)" by simp
  from ends [OF this] obtain es s
    where run: "run_events (bench_exec bench_sample_conf) es (bench_init 7) = Some s" "bench_over s" by blast
  with ends [OF run(1)] ok show ?thesis by blast
qed

theorem bench_report_witness:
  "\<exists>es s. run_events (bench_exec bench_sample_conf) es (bench_init 7) = Some s
     \<and> map fst (bench_log s 1) = map (op_seq 1) [0..<3]"
proof -
  have init: "conf_ok bench_sample_conf \<and> bench_inv bench_sample_conf (bench_init 7)"
    by (simp add: bench_init_inv conf_ok_def bench_conf_of_def bench_sample_def)
  obtain es s where run: "run_events (bench_exec bench_sample_conf) es (bench_init 7) = Some s" "bench_over s"
    using bench_run.run_to_final [OF init] by blast
  have "calls_succeed bench_sample_conf" by (simp add: calls_succeed_def bench_conf_of_def no_attach_def attach_def)
  then have alive: "\<not> bench_died s"
    using run_alive [OF _ _ run(1)] init by (simp add: bench_init_def bench_conf_of_def bench_sample_def)
  obtain a b lo hi where totals: "bench_totals (map (bench_stats s) [0..<conf_workers bench_sample_conf]) (0, 0, 0, 0) = (a, b, lo, hi)"
    by (metis prod.collapse)
  have "bench_main s \<noteq> Main_join_workers" using run(2) alive by (simp add: bench_over_def)
  from bench_report [OF _ run(1) alive this refl totals]
  have "map fst (bench_log s 1) = map (op_seq 1) [0..<3]" by (simp add: bench_conf_of_def bench_sample_def)
  with run(1) show ?thesis by blast
qed

definition bench_hanging :: bench_options where
  "bench_hanging = \<lparr>mode_bridge = True, worker_count = 1, bridge_count = 0, iterations = 1\<rparr>"

theorem bench_without_bridges_witness:
  "\<exists>s. run_events (bench_exec (bench_conf_of bench_hanging Some no_attach no_attach)) [Worker_go 0 0 None, Worker_go 0 9 None]
       (bench_init 7) = Some s \<and> \<not> bench_over s"
proof -
  let ?conf = "bench_conf_of bench_hanging Some no_attach no_attach"
  have args: "bench_arguments [''bridge'', ''1'', ''1'', ''0''] = Some (Inr bench_hanging)" by code_simp
  have zero: "mode_bridge bench_hanging" "bridge_count bench_hanging = 0" by (simp_all add: bench_hanging_def)
  have "run_events (bench_exec ?conf) [Worker_go 0 0 None, Worker_go 0 9 None] (bench_init 7) \<noteq> None"
    by (simp add: bench_exec_def bench_init_def bench_conf_of_def bench_hanging_def worker_at_def)
  then obtain s where run: "run_events (bench_exec ?conf) [Worker_go 0 0 None, Worker_go 0 9 None] (bench_init 7) = Some s"
    by blast
  from bench_without_bridges [OF args zero refl run] run show ?thesis by blast
qed

end
